(* ===== verification/Prelude.thy ===== *)
theory Prelude
  imports Main "HOL-Library.Word"
begin

text \<open>
  Shared vocabulary of the development: the machine types of the C++ sources, the
  faults that a C++ statement may run into, sequencing of statements that may fault, the
  \<open>memcpy\<close> of the sources and the generic lemmas on words and lists the components
  share.  A value \<open>Inl f\<close> stands for undefined behaviour, a self-deadlock or an exception
  thrown by the standard library; \<open>Inr x\<close> for normal completion with result \<open>x\<close>.
\<close>

section \<open>Machine types\<close>

type_synonym byte = "8 word"
type_synonym uint16_t = "16 word"
type_synonym int32_t = "32 word"
type_synonym int64_t = "64 word"
type_synonym size_t = "64 word"

section \<open>Faults and sequencing\<close>

datatype fault =
    OutOfBounds        \<comment> \<open>a read or write outside of an object\<close>
  | Deadlock           \<comment> \<open>\<open>std::mutex::lock\<close> by the owner\<close>
  | UnlockNotHeld      \<comment> \<open>\<open>std::mutex::unlock\<close> of a free mutex\<close>
  | DivByZero          \<comment> \<open>\<open>x % 0\<close>\<close>
  | NullDeref          \<comment> \<open>use of a null pointer\<close>
  | OutOfFuel          \<comment> \<open>a loop that does not end within its bound\<close>
  | SignedOverflow     \<comment> \<open>overflow of signed arithmetic\<close>
  | MissingReturn      \<comment> \<open>the end of a function that must return a value\<close>
  | InvalidArgument    \<comment> \<open>an exception of \<open>std::stoi\<close>\<close>
  | LengthError        \<comment> \<open>\<open>std::length_error\<close> of \<open>vector::reserve\<close> or \<open>resize\<close>\<close>

type_synonym 'a res = "fault + 'a"

named_theorems res_simps \<open>evaluation of sequenced statements\<close>

fun andThen :: "'a res \<Rightarrow> ('a \<Rightarrow> 'b res) \<Rightarrow> 'b res" where
  "andThen (Inl f) k = Inl f"
| "andThen (Inr x) k = k x"

lemma andThen_Inr_iff:
  "andThen m k = Inr y \<longleftrightarrow> (\<exists>x. m = Inr x \<and> k x = Inr y)"
  by (cases m) auto

lemma andThen_assoc: "andThen (andThen m k) l = andThen m (\<lambda>x. andThen (k x) l)"
  by (cases m) auto

lemma andThen_if [res_simps]:
  "andThen (if b then m else n) k = (if b then andThen m k else andThen n k)"
  by simp

text \<open>\<open>a % b\<close> on \<open>size_t\<close>.\<close>

definition mod_size :: "size_t \<Rightarrow> size_t \<Rightarrow> size_t res" where
  "mod_size a b = (if b = 0 then Inl DivByZero else Inr (a mod b))"

text \<open>
  \<open>std::memcpy(dst + doff, src + soff, n)\<close> on two distinct objects: the whole ranges must
  lie inside the objects.
\<close>

definition memcpy :: "'a list \<Rightarrow> nat \<Rightarrow> 'a list \<Rightarrow> nat \<Rightarrow> nat \<Rightarrow> 'a list res" where
  "memcpy dst doff src soff n =
     (if doff + n \<le> length dst \<and> soff + n \<le> length src
      then Inr (take doff dst @ take n (drop soff src) @ drop (doff + n) dst)
      else Inl OutOfBounds)"

lemma memcpy_ok:
  "doff + n \<le> length dst \<Longrightarrow> soff + n \<le> length src \<Longrightarrow>
   memcpy dst doff src soff n = Inr (take doff dst @ take n (drop soff src) @ drop (doff + n) dst)"
  by (simp add: memcpy_def)

section \<open>Words\<close>

lemma unat_min [simp]: "unat (min a b :: 'w::len word) = min (unat a) (unat b)"
  by (simp add: min_def word_le_nat_alt)

lemma unat_add_small:
  fixes a b :: "'w::len word"
  assumes "unat a + unat b < 2 ^ LENGTH('w)"
  shows "unat (a + b) = unat a + unat b"
  using assms by (simp add: unat_word_ariths)

lemma unat_sub_le:
  fixes a b :: "'w::len word"
  assumes "unat b \<le> unat a"
  shows "unat (a - b) = unat a - unat b"
  using assms by (simp add: unat_sub word_le_nat_alt)

lemma unat_of_nat_small:
  "n < 2 ^ LENGTH('w) \<Longrightarrow> unat (of_nat n :: 'w::len word) = n"
  by (simp add: unat_of_nat take_bit_nat_eq_self)

lemma unat_less_size: "unat (a :: size_t) < 2 ^ 64"
  using unsigned_less [of a] by simp

section \<open>Lists\<close>

lemma nth_splice:
  assumes "a + length ys \<le> length xs" "j < length xs"
  shows "(take a xs @ ys @ drop (a + length ys) xs) ! j =
         (if a \<le> j \<and> j < a + length ys then ys ! (j - a) else xs ! j)"
  using assms by (auto simp: nth_append)

lemma take_append_prefix: "n \<le> length xs \<Longrightarrow> take n (xs @ ys) = take n xs"
  by simp

end
