(* ===== verification/RingArray.thy ===== *)
theory RingArray
  imports Prelude
begin

text \<open>
  Arrays used as rings: the list of the elements between a read and a write position,
  the free part, and writes that wrap at the end of the array.  Everything the ring
  buffer of \<open>RingBuffer.h\<close> needs to know about positions, independent of its operations.
\<close>

section \<open>Arrays used as rings\<close>

text \<open>The bytes stored between the read and the write position of an array.\<close>

definition ring_list :: "'a list \<Rightarrow> nat \<Rightarrow> nat \<Rightarrow> 'a list" where
  "ring_list buf r w = (if r \<le> w then take (w - r) (drop r buf) else drop r buf @ take w buf)"

lemma length_ring_list:
  assumes "r < length buf" "w < length buf"
  shows "length (ring_list buf r w) = (if r \<le> w then w - r else length buf - r + w)"
  using assms by (auto simp: ring_list_def)

lemma length_ring_list_less:
  assumes "r < length buf" "w < length buf"
  shows "length (ring_list buf r w) < length buf"
  using assms by (auto simp: length_ring_list)

definition wrap_add :: "nat \<Rightarrow> nat \<Rightarrow> nat \<Rightarrow> nat" where
  "wrap_add c a n = (if a + n < c then a + n else a + n - c)"

lemma wrap_add_mod: "a < c \<Longrightarrow> n \<le> c \<Longrightarrow> (a + n) mod c = wrap_add c a n"
  by (auto simp: wrap_add_def mod_if)

lemma wrap_add_less: "a < c \<Longrightarrow> n \<le> c \<Longrightarrow> wrap_add c a n < c"
  by (auto simp: wrap_add_def)

lemma nth_ring_list:
  assumes "r < length buf" "w < length buf" "i < length (ring_list buf r w)"
  shows "ring_list buf r w ! i = buf ! wrap_add (length buf) r i"
  using assms by (auto simp: ring_list_def nth_append wrap_add_def add.commute)

lemma ring_list_drop:
  assumes "r < length buf" "w < length buf" "n \<le> length (ring_list buf r w)"
  shows "ring_list buf (wrap_add (length buf) r n) w = drop n (ring_list buf r w)"
  using assms
  by (auto simp: length_ring_list ring_list_def wrap_add_def drop_take add.commute)

lemma take_ring_list:
  assumes "r < length buf" "w < length buf" "n \<le> length (ring_list buf r w)"
  shows "take n (ring_list buf r w) =
    (if n \<le> length buf - r then take n (drop r buf) else drop r buf @ take (n - (length buf - r)) buf)"
proof (cases "r \<le> w")
  case True
  then have "n \<le> w - r" and "n \<le> length buf - r"
    using assms by (simp_all add: length_ring_list)
  then show ?thesis using assms True by (simp add: ring_list_def min_def)
next
  case False
  then have "n + r - length buf \<le> w"
    using assms by (simp add: length_ring_list)
  then show ?thesis using assms False by (simp add: ring_list_def min_def)
qed

text \<open>The free part of the array, from the write position on, one byte short of the read position.\<close>

definition ring_free :: "'a list \<Rightarrow> nat \<Rightarrow> nat \<Rightarrow> 'a list" where
  "ring_free buf r w = take (length buf - 1 - length (ring_list buf r w)) (drop w buf @ take w buf)"

lemma length_ring_free:
  "w < length buf \<Longrightarrow> length (ring_free buf r w) = length buf - 1 - length (ring_list buf r w)"
  by (simp add: ring_free_def)

lemma nth_ring_free:
  assumes "w < length buf" "i < length (ring_free buf r w)"
  shows "ring_free buf r w ! i = buf ! wrap_add (length buf) w i"
  using assms by (auto simp: ring_free_def nth_append wrap_add_def add.commute)

lemma length_ring_list_grow:
  assumes "r < length buf" "w < length buf" "n + length (ring_list buf r w) < length buf"
  shows "length (ring_list buf r (wrap_add (length buf) w n)) = length (ring_list buf r w) + n"
proof -
  have "wrap_add (length buf) w n < length buf"
    using assms by (auto intro: wrap_add_less)
  then show ?thesis
    using assms by (cases "r \<le> w") (auto simp: length_ring_list wrap_add_def split: if_splits)
qed

lemma wrap_add_grow:
  assumes "r < c" "w < c" "i < c" "(if r \<le> w then w - r else c - r + w) \<le> i"
  shows "wrap_add c r i = wrap_add c w (i - (if r \<le> w then w - r else c - r + w))"
  using assms by (cases "r \<le> w") (auto simp: wrap_add_def)

lemma wrap_add_outside:
  assumes "r < c" "w < c" "i < (if r \<le> w then w - r else c - r + w)"
    and "n + (if r \<le> w then w - r else c - r + w) < c"
  shows "n \<le> (if w \<le> wrap_add c r i then wrap_add c r i - w else wrap_add c r i + c - w)"
  using assms by (cases "r \<le> w") (auto simp: wrap_add_def)

lemma ring_list_grow:
  assumes "r < length buf" "w < length buf" "n + length (ring_list buf r w) < length buf"
  shows "ring_list buf r (wrap_add (length buf) w n) = ring_list buf r w @ take n (ring_free buf r w)"
proof (rule nth_equalityI)
  let ?l = "length (ring_list buf r w)"
  show len: "length (ring_list buf r (wrap_add (length buf) w n)) =
        length (ring_list buf r w @ take n (ring_free buf r w))"
    using assms by (simp add: length_ring_list_grow length_ring_free)
  fix i assume "i < length (ring_list buf r (wrap_add (length buf) w n))"
  moreover have w': "wrap_add (length buf) w n < length buf"
    using assms by (intro wrap_add_less) auto
  ultimately have i: "i < ?l + n"
    and lhs: "ring_list buf r (wrap_add (length buf) w n) ! i = buf ! wrap_add (length buf) r i"
    using assms by (simp_all add: nth_ring_list length_ring_list_grow)
  show "ring_list buf r (wrap_add (length buf) w n) ! i =
      (ring_list buf r w @ take n (ring_free buf r w)) ! i"
  proof (cases "i < ?l")
    case True
    then show ?thesis using assms lhs by (simp add: nth_append nth_ring_list)
  next
    case False
    then have "wrap_add (length buf) r i = wrap_add (length buf) w (i - ?l)"
      using assms i wrap_add_grow [of r "length buf" w i] by (simp add: length_ring_list)
    then show ?thesis
      using assms i False lhs by (simp add: nth_append nth_ring_free length_ring_free)
  qed
qed

text \<open>Writing \<open>xs\<close> at position \<open>w\<close>, wrapping at the end of the array.\<close>

definition ring_write :: "'a list \<Rightarrow> nat \<Rightarrow> 'a list \<Rightarrow> 'a list" where
  "ring_write buf w xs =
     (let k = length buf - w in
      if length xs \<le> k then take w buf @ xs @ drop (w + length xs) buf
      else drop k xs @ drop (length xs - k) (take w buf) @ take k xs)"

lemma length_ring_write:
  "w < length buf \<Longrightarrow> length xs \<le> length buf \<Longrightarrow> length (ring_write buf w xs) = length buf"
  by (auto simp: ring_write_def Let_def)

lemma nth_ring_write:
  assumes "w < length buf" "length xs \<le> length buf" "j < length buf"
  shows "ring_write buf w xs ! j =
    (let k = (if w \<le> j then j - w else j + length buf - w) in
     if k < length xs then xs ! k else buf ! j)"
proof (cases "length xs \<le> length buf - w")
  case True
  then have "ring_write buf w xs ! j = (if w \<le> j \<and> j < w + length xs then xs ! (j - w) else buf ! j)"
    using assms by (simp add: ring_write_def nth_splice)
  moreover have "\<not> w \<le> j \<Longrightarrow> \<not> j + length buf - w < length xs"
    using True assms by linarith
  ultimately show ?thesis
    using assms by (auto simp: Let_def)
next
  case False
  let ?k = "length buf - w"
  have eq: "ring_write buf w xs = drop ?k xs @ drop (length xs - ?k) (take w buf) @ take ?k xs"
    using False by (simp add: ring_write_def Let_def)
  consider "j < length xs - ?k" | "length xs - ?k \<le> j" "j < w" | "w \<le> j" by linarith
  then show ?thesis
  proof cases
    case 1
    then have "j < w" and "?k + j = j + length buf - w" and "?k + j < length xs"
      using assms by linarith+
    with 1 show ?thesis by (simp add: eq nth_append Let_def)
  next
    case 2
    let ?m = "length xs - ?k"
    have m: "\<not> j < length (drop ?k xs)" "j - length (drop ?k xs) < length (drop ?m (take w buf))"
      "\<not> j + length buf - w < length xs"
      using 2 assms False by auto
    have "(drop ?k xs @ drop ?m (take w buf) @ take ?k xs) ! j = drop ?m (take w buf) ! (j - length (drop ?k xs))"
      using m by (simp only: nth_append if_False if_True)
    also have "\<dots> = buf ! j" using 2 assms by simp
    finally show ?thesis using 2 m by (simp add: eq Let_def)
  next
    case 3
    let ?m = "length xs - ?k"
    let ?ys = "drop ?k xs @ drop ?m (take w buf)"
    have m: "length ?ys = w" "j - w < ?k" "j - w < length xs"
      using 3 assms False by auto
    have "ring_write buf w xs ! j = (?ys @ take ?k xs) ! j" by (simp add: eq)
    also have "\<dots> = take ?k xs ! (j - w)"
      unfolding nth_append [of ?ys] m(1) using 3 by simp
    also have "\<dots> = xs ! (j - w)" using m by simp
    finally show ?thesis using 3 m by (simp add: Let_def)
  qed
qed

lemma ring_write_list:
  assumes "r < length buf" "w < length buf" "length xs + length (ring_list buf r w) < length buf"
  shows "ring_list (ring_write buf w xs) r w = ring_list buf r w"
proof (rule nth_equalityI)
  have l: "length (ring_write buf w xs) = length buf"
    using assms by (intro length_ring_write) auto
  then show ll: "length (ring_list (ring_write buf w xs) r w) = length (ring_list buf r w)"
    using assms by (simp add: length_ring_list)
  fix i assume "i < length (ring_list (ring_write buf w xs) r w)"
  then have i: "i < length (ring_list buf r w)"
    by (simp only: ll)
  let ?j = "wrap_add (length buf) r i"
  have j: "?j < length buf"
    using assms i by (intro wrap_add_less) auto
  have "\<not> (if w \<le> ?j then ?j - w else ?j + length buf - w) < length xs"
    using assms i wrap_add_outside [of r "length buf" w i "length xs"]
    by (simp only: length_ring_list not_less)
  then have "ring_write buf w xs ! ?j = buf ! ?j"
    using assms j by (simp add: nth_ring_write Let_def)
  then show "ring_list (ring_write buf w xs) r w ! i = ring_list buf r w ! i"
    using assms i l ll by (simp add: nth_ring_list)
qed

lemma ring_write_free:
  assumes "r < length buf" "w < length buf" "length xs + length (ring_list buf r w) < length buf"
  shows "take (length xs) (ring_free (ring_write buf w xs) r w) = xs"
proof (rule nth_equalityI)
  have l: "length (ring_write buf w xs) = length buf"
    using assms by (intro length_ring_write) auto
  then show "length (take (length xs) (ring_free (ring_write buf w xs) r w)) = length xs"
    using assms by (simp add: length_ring_free ring_write_list)
  fix i assume "i < length (take (length xs) (ring_free (ring_write buf w xs) r w))"
  then have i: "i < length xs" by simp
  let ?j = "wrap_add (length buf) w i"
  have j: "?j < length buf" and k: "(if w \<le> ?j then ?j - w else ?j + length buf - w) = i"
    using assms i by (auto simp: wrap_add_def)
  have "ring_write buf w xs ! ?j = xs ! i"
    using assms i j by (simp only: nth_ring_write Let_def k) simp
  then show "take (length xs) (ring_free (ring_write buf w xs) r w) ! i = xs ! i"
    using assms i l by (simp add: nth_ring_free length_ring_free ring_write_list)
qed

lemma ring_write_grow:
  assumes "r < length buf" "w < length buf" "length xs + length (ring_list buf r w) < length buf"
  shows "ring_list (ring_write buf w xs) r (wrap_add (length buf) w (length xs)) = ring_list buf r w @ xs"
proof -
  have "length (ring_write buf w xs) = length buf"
    using assms by (intro length_ring_write) auto
  then show ?thesis
    using assms ring_list_grow [of r "ring_write buf w xs" w "length xs"]
    by (simp add: ring_write_list ring_write_free)
qed

end
