(* ===== verification/ByteFifo.thy ===== *)
theory ByteFifo
  imports Prelude
begin

text \<open>
  The contract between the network layer and its byte queues: what \<open>Enqueue\<close>, \<open>Dequeue\<close>,
  \<open>Peek\<close> and \<open>Consume\<close> of a \<open>CRingBufferT\<close> promise, all-or-nothing transfers in first-in
  first-out order, stated over an abstraction \<open>bytes\<close> (the queued bytes) and \<open>free\<close> (how
  many more fit).  The locale proves once what follows for whole sequences of calls.
\<close>

section \<open>Runs of queue calls\<close>

datatype fifo_call = CallEnqueue "byte list" | CallDequeue size_t | CallPeekConsume size_t

text \<open>
  One call, with the bytes it put into the queue and the bytes it took out.  A destination
  buffer is zero-filled memory of the requested size, as \<open>std::vector<char>(n)\<close> is.
\<close>

fun fifo_call_run ::
  "('q \<Rightarrow> byte list option \<Rightarrow> size_t \<Rightarrow> (size_t \<times> 'q) res) \<Rightarrow>
   ('q \<Rightarrow> byte list option \<Rightarrow> size_t \<Rightarrow> (size_t \<times> byte list option \<times> 'q) res) \<Rightarrow>
   ('q \<Rightarrow> byte list option \<Rightarrow> size_t \<Rightarrow> (size_t \<times> byte list option \<times> 'q) res) \<Rightarrow>
   ('q \<Rightarrow> size_t \<Rightarrow> (size_t \<times> 'q) res) \<Rightarrow>
   fifo_call \<Rightarrow> 'q \<Rightarrow> (byte list \<times> byte list \<times> 'q) res" where
  "fifo_call_run enq deq peek con (CallEnqueue d) q =
     andThen (enq q (Some d) (of_nat (length d))) (\<lambda>(n, q). Inr (take (unat n) d, [], q))"
| "fifo_call_run enq deq peek con (CallDequeue sz) q =
     andThen (deq q (Some (replicate (unat sz) 0)) sz) (\<lambda>(n, out, q).
       Inr ([], take (unat n) (the out), q))"
| "fifo_call_run enq deq peek con (CallPeekConsume sz) q =
     andThen (peek q (Some (replicate (unat sz) 0)) sz) (\<lambda>(n, out, q).
     andThen (con q n) (\<lambda>(m, q). Inr ([], take (unat m) (the out), q)))"

fun fifo_run ::
  "('q \<Rightarrow> byte list option \<Rightarrow> size_t \<Rightarrow> (size_t \<times> 'q) res) \<Rightarrow>
   ('q \<Rightarrow> byte list option \<Rightarrow> size_t \<Rightarrow> (size_t \<times> byte list option \<times> 'q) res) \<Rightarrow>
   ('q \<Rightarrow> byte list option \<Rightarrow> size_t \<Rightarrow> (size_t \<times> byte list option \<times> 'q) res) \<Rightarrow>
   ('q \<Rightarrow> size_t \<Rightarrow> (size_t \<times> 'q) res) \<Rightarrow>
   fifo_call list \<Rightarrow> 'q \<Rightarrow> (byte list \<times> byte list \<times> 'q) res" where
  "fifo_run enq deq peek con [] q = Inr ([], [], q)"
| "fifo_run enq deq peek con (c # cs) q =
     andThen (fifo_call_run enq deq peek con c q) (\<lambda>(i, out, q).
     andThen (fifo_run enq deq peek con cs q) (\<lambda>(is, outs, q). Inr (i @ is, out @ outs, q)))"

text \<open>A block of memory in the address space.\<close>

fun fifo_call_small :: "fifo_call \<Rightarrow> bool" where
  "fifo_call_small (CallEnqueue d) = (length d < 2 ^ 64)"
| "fifo_call_small _ = True"

section \<open>The contract\<close>

locale byte_fifo =
  fixes ok :: "'q \<Rightarrow> bool"
    and bytes :: "'q \<Rightarrow> byte list"
    and free :: "'q \<Rightarrow> nat"
    and enq :: "'q \<Rightarrow> byte list option \<Rightarrow> size_t \<Rightarrow> (size_t \<times> 'q) res"
    and deq :: "'q \<Rightarrow> byte list option \<Rightarrow> size_t \<Rightarrow> (size_t \<times> byte list option \<times> 'q) res"
    and peek :: "'q \<Rightarrow> byte list option \<Rightarrow> size_t \<Rightarrow> (size_t \<times> byte list option \<times> 'q) res"
    and con :: "'q \<Rightarrow> size_t \<Rightarrow> (size_t \<times> 'q) res"
  assumes enq_fits:
    "ok q \<Longrightarrow> n \<noteq> 0 \<Longrightarrow> unat n \<le> free q \<Longrightarrow> unat n \<le> length d \<Longrightarrow>
     \<exists>q'. enq q (Some d) n = Inr (n, q') \<and> ok q' \<and> bytes q' = bytes q @ take (unat n) d \<and>
          free q' + unat n = free q"
  assumes enq_refused:
    "ok q \<Longrightarrow> n = 0 \<or> free q < unat n \<Longrightarrow> enq q (Some d) n = Inr (0, q)"
  assumes deq_enough:
    "ok q \<Longrightarrow> n \<noteq> 0 \<Longrightarrow> unat n \<le> length (bytes q) \<Longrightarrow> unat n \<le> length d \<Longrightarrow>
     \<exists>q'. deq q (Some d) n = Inr (n, Some (take (unat n) (bytes q) @ drop (unat n) d), q') \<and>
          ok q' \<and> bytes q' = drop (unat n) (bytes q) \<and> free q' = free q + unat n"
  assumes deq_refused:
    "ok q \<Longrightarrow> n = 0 \<or> length (bytes q) < unat n \<Longrightarrow> deq q (Some d) n = Inr (0, Some d, q)"
  assumes peek_enough:
    "ok q \<Longrightarrow> n \<noteq> 0 \<Longrightarrow> unat n \<le> length (bytes q) \<Longrightarrow> unat n \<le> length d \<Longrightarrow>
     peek q (Some d) n = Inr (n, Some (take (unat n) (bytes q) @ drop (unat n) d), q)"
  assumes peek_refused:
    "ok q \<Longrightarrow> n = 0 \<or> length (bytes q) < unat n \<Longrightarrow> peek q (Some d) n = Inr (0, Some d, q)"
  assumes con_enough:
    "ok q \<Longrightarrow> n \<noteq> 0 \<Longrightarrow> unat n \<le> length (bytes q) \<Longrightarrow>
     \<exists>q'. con q n = Inr (n, q') \<and> ok q' \<and> bytes q' = drop (unat n) (bytes q) \<and> free q' = free q + unat n"
  assumes con_refused:
    "ok q \<Longrightarrow> n = 0 \<or> length (bytes q) < unat n \<Longrightarrow> con q n = Inr (0, q)"
begin

text \<open>What one call does to the stream: nothing is lost, duplicated or reordered.\<close>

definition streams :: "'q \<Rightarrow> (byte list \<times> byte list \<times> 'q) res \<Rightarrow> bool" where
  "streams q r \<longleftrightarrow> (\<exists>i out q'. r = Inr (i, out, q') \<and> ok q' \<and> bytes q @ i = out @ bytes q' \<and>
     length (bytes q') + free q' = length (bytes q) + free q)"

lemma enqueue_streams:
  assumes "ok q" "length d < 2 ^ 64"
  shows "streams q (fifo_call_run enq deq peek con (CallEnqueue d) q)"
proof -
  let ?n = "of_nat (length d) :: size_t"
  have u: "unat ?n = length d"
    using assms by (simp add: unat_of_nat_small)
  show ?thesis
  proof (cases "?n \<noteq> 0 \<and> unat ?n \<le> free q")
    case True
    with assms u obtain q' where "enq q (Some d) ?n = Inr (?n, q')" "ok q'"
        "bytes q' = bytes q @ d" "free q' + length d = free q"
      using enq_fits [of q ?n d] by auto
    then show ?thesis using u by (auto simp: streams_def)
  next
    case False
    then have "enq q (Some d) ?n = Inr (0, q)"
      using assms enq_refused [of q ?n d] by auto
    then show ?thesis using assms by (auto simp: streams_def)
  qed
qed

lemma dequeue_streams:
  assumes "ok q"
  shows "streams q (fifo_call_run enq deq peek con (CallDequeue n) q)"
proof (cases "n \<noteq> 0 \<and> unat n \<le> length (bytes q)")
  case True
  with assms obtain q' where
    "deq q (Some (replicate (unat n) 0)) n = Inr (n, Some (take (unat n) (bytes q)), q')"
    "ok q'" "bytes q' = drop (unat n) (bytes q)" "free q' = free q + unat n"
    using deq_enough [of q n "replicate (unat n) 0"] by auto
  then show ?thesis using True by (auto simp: streams_def)
next
  case False
  then have "deq q (Some (replicate (unat n) 0)) n = Inr (0, Some (replicate (unat n) 0), q)"
    using assms deq_refused [of q n] by auto
  then show ?thesis using assms by (auto simp: streams_def)
qed

text \<open>Looking at \<open>n\<close> bytes and consuming them afterwards is the same as dequeuing them.\<close>

lemma peek_consume_streams:
  assumes "ok q"
  shows "streams q (fifo_call_run enq deq peek con (CallPeekConsume n) q)"
proof (cases "n \<noteq> 0 \<and> unat n \<le> length (bytes q)")
  case True
  with assms obtain q' where
    "con q n = Inr (n, q')" "ok q'" "bytes q' = drop (unat n) (bytes q)" "free q' = free q + unat n"
    using con_enough [of q n] by auto
  moreover have
    "peek q (Some (replicate (unat n) 0)) n = Inr (n, Some (take (unat n) (bytes q)), q)"
    using True assms peek_enough [of q n "replicate (unat n) 0"] by auto
  ultimately show ?thesis using True by (auto simp: streams_def)
next
  case False
  then have "peek q (Some (replicate (unat n) 0)) n = Inr (0, Some (replicate (unat n) 0), q)"
    using assms peek_refused [of q n] by auto
  moreover have "con q 0 = Inr (0, q)" using assms con_refused [of q 0] by auto
  ultimately show ?thesis using assms by (auto simp: streams_def)
qed

lemma call_streams:
  "ok q \<Longrightarrow> fifo_call_small c \<Longrightarrow> streams q (fifo_call_run enq deq peek con c q)"
  by (cases c) (auto intro: enqueue_streams dequeue_streams peek_consume_streams
      simp del: fifo_call_run.simps)

lemma run_streams:
  "ok q \<Longrightarrow> list_all fifo_call_small cs \<Longrightarrow> streams q (fifo_run enq deq peek con cs q)"
proof (induction cs arbitrary: q)
  case Nil
  then show ?case by (simp add: streams_def)
next
  case (Cons c cs)
  from Cons.prems have "streams q (fifo_call_run enq deq peek con c q)"
    by (simp add: call_streams)
  then obtain i out q1 where c: "fifo_call_run enq deq peek con c q = Inr (i, out, q1)" "ok q1"
      "bytes q @ i = out @ bytes q1" "length (bytes q1) + free q1 = length (bytes q) + free q"
    by (auto simp: streams_def)
  from c(2) Cons have "streams q1 (fifo_run enq deq peek con cs q1)" by simp
  then obtain "is" outs q2 where r: "fifo_run enq deq peek con cs q1 = Inr (is, outs, q2)" "ok q2"
      "bytes q1 @ is = outs @ bytes q2" "length (bytes q2) + free q2 = length (bytes q1) + free q1"
    by (auto simp: streams_def)
  have "bytes q @ i @ is = (out @ outs) @ bytes q2"
    using c(3) r(3) by (metis append.assoc)
  then show ?case using c r by (auto simp: streams_def)
qed

lemma run_stream_eq:
  assumes "ok q" "list_all fifo_call_small cs"
  shows "\<exists>i out q'. fifo_run enq deq peek con cs q = Inr (i, out, q') \<and> ok q' \<and>
    bytes q @ i = out @ bytes q' \<and> length (bytes q') + free q' = length (bytes q) + free q"
  using run_streams [OF assms] by (simp add: streams_def)

end

end
