(* ===== verification/RingBuffer.thy ===== *)
theory RingBuffer
  imports RingArray ByteFifo
begin

text \<open>
  The byte ring buffer of \<open>MO_MiniGames_Server/RingBuffer.h\<close>: class
  \<open>CRingBufferT<LockPolicy>\<close> in its two instances, \<open>NoLock\<close> (receive queue) and
  \<open>MutexLock\<close> (send queue).  The two class bodies differ in the lock policy only, so one
  group of definitions models both and the policy is a field of the state.
\<close>

section \<open>State\<close>

text \<open>The lock policies; the flag of \<open>MutexLock\<close> tells whether the mutex is held.\<close>

datatype lock_policy = NoLock | MutexLock bool

fun policy_lock :: "lock_policy \<Rightarrow> lock_policy res" where
  "policy_lock NoLock = Inr NoLock"
| "policy_lock (MutexLock held) = (if held then Inl Deadlock else Inr (MutexLock True))"

fun policy_unlock :: "lock_policy \<Rightarrow> lock_policy res" where
  "policy_unlock NoLock = Inr NoLock"
| "policy_unlock (MutexLock held) = (if held then Inr (MutexLock False) else Inl UnlockNotHeld)"

record ring_buffer =
  rb_buffer :: "byte list option"   \<comment> \<open>\<open>_buffer\<close>; \<open>None\<close> is \<open>nullptr\<close>\<close>
  rb_capacity :: size_t
  rb_readPos :: size_t
  rb_writePos :: size_t
  rb_lock :: lock_policy

definition lock_rb :: "ring_buffer \<Rightarrow> ring_buffer res" where
  "lock_rb rb = andThen (policy_lock (rb_lock rb)) (\<lambda>l. Inr (rb\<lparr>rb_lock := l\<rparr>))"

definition unlock_rb :: "ring_buffer \<Rightarrow> ring_buffer res" where
  "unlock_rb rb = andThen (policy_unlock (rb_lock rb)) (\<lambda>l. Inr (rb\<lparr>rb_lock := l\<rparr>))"

text \<open>
  The constructor.  \<open>alloc\<close> is \<open>new (std::nothrow) char[n]\<close>: \<open>None\<close> when it fails,
  otherwise the (uninitialised) bytes of the new array.
\<close>

definition CRingBufferT ::
  "(size_t \<Rightarrow> byte list option) \<Rightarrow> lock_policy \<Rightarrow> size_t \<Rightarrow> ring_buffer" where
  "CRingBufferT alloc policy capacity =
     \<lparr>rb_buffer = (if capacity \<le> 0 then None else alloc capacity),
      rb_capacity = capacity, rb_readPos = 0, rb_writePos = 0, rb_lock = policy\<rparr>"

definition IsValid :: "ring_buffer \<Rightarrow> bool" where
  "IsValid rb \<longleftrightarrow> rb_buffer rb \<noteq> None"

section \<open>Operations\<close>

definition GetDataSize_Internal :: "ring_buffer \<Rightarrow> size_t" where
  "GetDataSize_Internal rb =
     (if rb_writePos rb \<ge> rb_readPos rb then rb_writePos rb - rb_readPos rb
      else rb_capacity rb - rb_readPos rb + rb_writePos rb)"

definition GetFreeSize_Internal :: "ring_buffer \<Rightarrow> size_t" where
  "GetFreeSize_Internal rb =
     (let dataSize = GetDataSize_Internal rb in
      if dataSize \<ge> rb_capacity rb - 1 then 0 else rb_capacity rb - dataSize - 1)"

definition Enqueue ::
  "ring_buffer \<Rightarrow> byte list option \<Rightarrow> size_t \<Rightarrow> (size_t \<times> ring_buffer) res" where
  "Enqueue rb0 data sz =
     andThen (lock_rb rb0) (\<lambda>rb.
     if data = None \<or> sz = 0 \<or> rb_buffer rb = None
     then andThen (unlock_rb rb) (\<lambda>rb. Inr (0, rb))
     else let freeSize = GetFreeSize_Internal rb in
     if freeSize < sz
     then andThen (unlock_rb rb) (\<lambda>rb. Inr (0, rb))
     else let firstWrite = min sz (rb_capacity rb - rb_writePos rb) in
       andThen (memcpy (the (rb_buffer rb)) (unat (rb_writePos rb)) (the data) 0 (unat firstWrite)) (\<lambda>buf.
       andThen (if sz > firstWrite
                then let secondWrite = sz - firstWrite
                     in memcpy buf 0 (the data) (unat firstWrite) (unat secondWrite)
                else Inr buf) (\<lambda>buf.
       andThen (mod_size (rb_writePos rb + sz) (rb_capacity rb)) (\<lambda>pos.
       andThen (unlock_rb (rb\<lparr>rb_buffer := Some buf, rb_writePos := pos\<rparr>)) (\<lambda>rb.
       Inr (sz, rb))))))"

text \<open>
  Reading into the caller's memory \<open>data\<close> (\<open>None\<close> is \<open>nullptr\<close>): the copy loop that
  \<open>Dequeue\<close> and \<open>Peek\<close> share line by line.
\<close>

definition copy_out :: "ring_buffer \<Rightarrow> byte list \<Rightarrow> size_t \<Rightarrow> byte list res" where
  "copy_out rb data sz =
     (let firstRead = min sz (rb_capacity rb - rb_readPos rb) in
      andThen (memcpy data 0 (the (rb_buffer rb)) (unat (rb_readPos rb)) (unat firstRead)) (\<lambda>data.
      if sz > firstRead
      then let secondRead = sz - firstRead
           in memcpy data (unat firstRead) (the (rb_buffer rb)) 0 (unat secondRead)
      else Inr data))"

definition Dequeue ::
  "ring_buffer \<Rightarrow> byte list option \<Rightarrow> size_t \<Rightarrow> (size_t \<times> byte list option \<times> ring_buffer) res" where
  "Dequeue rb0 data sz =
     andThen (lock_rb rb0) (\<lambda>rb.
     if data = None \<or> sz = 0 \<or> rb_buffer rb = None
     then andThen (unlock_rb rb) (\<lambda>rb. Inr (0, data, rb))
     else let dataSize = GetDataSize_Internal rb in
     if dataSize < sz
     then andThen (unlock_rb rb) (\<lambda>rb. Inr (0, data, rb))
     else andThen (copy_out rb (the data) sz) (\<lambda>out.
       andThen (mod_size (rb_readPos rb + sz) (rb_capacity rb)) (\<lambda>pos.
       andThen (unlock_rb (rb\<lparr>rb_readPos := pos\<rparr>)) (\<lambda>rb.
       Inr (sz, Some out, rb)))))"

definition Peek ::
  "ring_buffer \<Rightarrow> byte list option \<Rightarrow> size_t \<Rightarrow> (size_t \<times> byte list option \<times> ring_buffer) res" where
  "Peek rb0 data sz =
     andThen (lock_rb rb0) (\<lambda>rb.
     if data = None \<or> sz = 0 \<or> rb_buffer rb = None
     then andThen (unlock_rb rb) (\<lambda>rb. Inr (0, data, rb))
     else let dataSize = GetDataSize_Internal rb in
     if dataSize < sz
     then andThen (unlock_rb rb) (\<lambda>rb. Inr (0, data, rb))
     else andThen (copy_out rb (the data) sz) (\<lambda>out.
       andThen (unlock_rb rb) (\<lambda>rb.
       Inr (sz, Some out, rb))))"

definition Consume :: "ring_buffer \<Rightarrow> size_t \<Rightarrow> (size_t \<times> ring_buffer) res" where
  "Consume rb0 sz =
     andThen (lock_rb rb0) (\<lambda>rb.
     if sz = 0 \<or> rb_buffer rb = None
     then andThen (unlock_rb rb) (\<lambda>rb. Inr (0, rb))
     else let dataSize = GetDataSize_Internal rb in
     if dataSize < sz
     then andThen (unlock_rb rb) (\<lambda>rb. Inr (0, rb))
     else andThen (mod_size (rb_readPos rb + sz) (rb_capacity rb)) (\<lambda>pos.
       andThen (unlock_rb (rb\<lparr>rb_readPos := pos\<rparr>)) (\<lambda>rb.
       Inr (sz, rb))))"

definition MoveWritePtr :: "ring_buffer \<Rightarrow> size_t \<Rightarrow> (size_t \<times> ring_buffer) res" where
  "MoveWritePtr rb0 sz =
     andThen (lock_rb rb0) (\<lambda>rb.
     if sz = 0 \<or> rb_buffer rb = None
     then andThen (unlock_rb rb) (\<lambda>rb. Inr (0, rb))
     else let freeSize = GetFreeSize_Internal rb in
     if freeSize < sz
     then andThen (unlock_rb rb) (\<lambda>rb. Inr (0, rb))
     else andThen (mod_size (rb_writePos rb + sz) (rb_capacity rb)) (\<lambda>pos.
       andThen (unlock_rb (rb\<lparr>rb_writePos := pos\<rparr>)) (\<lambda>rb.
       Inr (sz, rb))))"

definition Clear :: "ring_buffer \<Rightarrow> ring_buffer res" where
  "Clear rb0 =
     andThen (lock_rb rb0) (\<lambda>rb.
     if rb_buffer rb = None then unlock_rb rb
     else unlock_rb (rb\<lparr>rb_readPos := 0, rb_writePos := 0\<rparr>))"

definition GetDataSize :: "ring_buffer \<Rightarrow> (size_t \<times> ring_buffer) res" where
  "GetDataSize rb0 =
     andThen (lock_rb rb0) (\<lambda>rb.
     let result = GetDataSize_Internal rb in
     andThen (unlock_rb rb) (\<lambda>rb. Inr (result, rb)))"

definition GetFreeSize :: "ring_buffer \<Rightarrow> (size_t \<times> ring_buffer) res" where
  "GetFreeSize rb0 =
     andThen (lock_rb rb0) (\<lambda>rb.
     let result = GetFreeSize_Internal rb in
     andThen (unlock_rb rb) (\<lambda>rb. Inr (result, rb)))"

text \<open>
  \<open>GetWritePtr\<close> and \<open>GetReadPtr\<close> return \<open>_buffer + pos\<close>; a pointer into the ring is its
  offset.  In the \<open>NoLock\<close> class the four direct accessors do not touch the lock, in the
  \<open>MutexLock\<close> class they take and release it; \<open>with_lock\<close> gives both.
\<close>

definition with_lock :: "ring_buffer \<Rightarrow> (ring_buffer \<Rightarrow> 'a) \<Rightarrow> ('a \<times> ring_buffer) res" where
  "with_lock rb0 f =
     andThen (lock_rb rb0) (\<lambda>rb. let result = f rb in
     andThen (unlock_rb rb) (\<lambda>rb. Inr (result, rb)))"

definition GetWritePtr :: "ring_buffer \<Rightarrow> (size_t \<times> ring_buffer) res" where
  "GetWritePtr rb = with_lock rb rb_writePos"

definition GetReadPtr :: "ring_buffer \<Rightarrow> (size_t \<times> ring_buffer) res" where
  "GetReadPtr rb = with_lock rb rb_readPos"

definition direct_write_size :: "ring_buffer \<Rightarrow> size_t" where
  "direct_write_size rb =
     (if rb_writePos rb \<ge> rb_readPos rb
      then (if rb_readPos rb = 0 then rb_capacity rb - rb_writePos rb - 1
            else rb_capacity rb - rb_writePos rb)
      else rb_readPos rb - rb_writePos rb - 1)"

definition direct_read_size :: "ring_buffer \<Rightarrow> size_t" where
  "direct_read_size rb =
     (if rb_writePos rb \<ge> rb_readPos rb then rb_writePos rb - rb_readPos rb
      else rb_capacity rb - rb_readPos rb)"

definition GetDirectWriteSize :: "ring_buffer \<Rightarrow> (size_t \<times> ring_buffer) res" where
  "GetDirectWriteSize rb = with_lock rb direct_write_size"

definition GetDirectReadSize :: "ring_buffer \<Rightarrow> (size_t \<times> ring_buffer) res" where
  "GetDirectReadSize rb = with_lock rb direct_read_size"

record SendInfo =
  si_readPtr :: size_t
  si_dataSize :: size_t
  si_directReadSize :: size_t

definition GetSendInfo :: "ring_buffer \<Rightarrow> (SendInfo \<times> ring_buffer) res" where
  "GetSendInfo rb = with_lock rb
     (\<lambda>rb. \<lparr>si_readPtr = rb_readPos rb, si_dataSize = GetDataSize_Internal rb,
            si_directReadSize = direct_read_size rb\<rparr>)"

section \<open>Abstraction and invariant\<close>

definition contents :: "ring_buffer \<Rightarrow> byte list" where
  "contents rb = (case rb_buffer rb of None \<Rightarrow> []
     | Some buf \<Rightarrow> ring_list buf (unat (rb_readPos rb)) (unat (rb_writePos rb)))"

definition unlocked :: "ring_buffer \<Rightarrow> bool" where
  "unlocked rb \<longleftrightarrow> rb_lock rb \<noteq> MutexLock True"

definition rb_ok :: "ring_buffer \<Rightarrow> bool" where
  "rb_ok rb \<longleftrightarrow> (case rb_buffer rb of None \<Rightarrow> False
      | Some buf \<Rightarrow> length buf = unat (rb_capacity rb)) \<and>
     unat (rb_readPos rb) < unat (rb_capacity rb) \<and>
     unat (rb_writePos rb) < unat (rb_capacity rb) \<and>
     unat (rb_capacity rb) \<le> 2 ^ 63 \<and> unlocked rb"

text \<open>One byte of the array always stays free.\<close>

definition room :: "ring_buffer \<Rightarrow> nat" where
  "room rb = unat (rb_capacity rb) - 1 - length (contents rb)"

section \<open>Locks\<close>

fun hold :: "lock_policy \<Rightarrow> lock_policy" where
  "hold NoLock = NoLock"
| "hold (MutexLock held) = MutexLock True"

lemma lock_rb_unlocked: "unlocked rb \<Longrightarrow> lock_rb rb = Inr (rb\<lparr>rb_lock := hold (rb_lock rb)\<rparr>)"
  by (cases "rb_lock rb") (auto simp: lock_rb_def unlocked_def)

lemma unlock_rb_hold:
  "rb_lock rb2 = hold (rb_lock rb) \<Longrightarrow> unlocked rb \<Longrightarrow> unlock_rb rb2 = Inr (rb2\<lparr>rb_lock := rb_lock rb\<rparr>)"
  by (cases "rb_lock rb") (auto simp: unlock_rb_def unlocked_def)

lemma sizes_ignore_lock [simp]:
  "GetDataSize_Internal (rb\<lparr>rb_lock := l\<rparr>) = GetDataSize_Internal rb"
  "GetFreeSize_Internal (rb\<lparr>rb_lock := l\<rparr>) = GetFreeSize_Internal rb"
  "direct_write_size (rb\<lparr>rb_lock := l\<rparr>) = direct_write_size rb"
  "direct_read_size (rb\<lparr>rb_lock := l\<rparr>) = direct_read_size rb"
  "copy_out (rb\<lparr>rb_lock := l\<rparr>) = copy_out rb"
  by (simp_all add: GetDataSize_Internal_def GetFreeSize_Internal_def direct_write_size_def
      direct_read_size_def copy_out_def Let_def fun_eq_iff cong del: if_weak_cong)

section \<open>Word arithmetic of the positions\<close>

lemma rb_okE:
  assumes "rb_ok rb"
  obtains buf where "rb_buffer rb = Some buf" "length buf = unat (rb_capacity rb)"
    "unat (rb_readPos rb) < length buf" "unat (rb_writePos rb) < length buf"
    "length buf \<le> 2 ^ 63" "unlocked rb" "0 < length buf"
    "contents rb = ring_list buf (unat (rb_readPos rb)) (unat (rb_writePos rb))"
  using assms by (auto simp: rb_ok_def contents_def split: option.splits)

lemma unat_data_size:
  assumes "rb_ok rb"
  shows "unat (GetDataSize_Internal rb) = length (contents rb)"
proof -
  from assms obtain buf where b: "length buf = unat (rb_capacity rb)"
      "unat (rb_readPos rb) < length buf" "unat (rb_writePos rb) < length buf" "length buf \<le> 2 ^ 63"
      "contents rb = ring_list buf (unat (rb_readPos rb)) (unat (rb_writePos rb))"
    by (rule rb_okE)
  have sub: "unat (rb_capacity rb - rb_readPos rb) = length buf - unat (rb_readPos rb)"
    using b by (simp add: unat_sub_le)
  moreover have "unat (rb_capacity rb - rb_readPos rb + rb_writePos rb) =
      length buf - unat (rb_readPos rb) + unat (rb_writePos rb)"
    using b sub by (subst unat_add_small) auto
  ultimately show ?thesis
    using b by (auto simp: GetDataSize_Internal_def length_ring_list word_le_nat_alt unat_sub_le)
qed

lemma length_contents_less: "rb_ok rb \<Longrightarrow> length (contents rb) < unat (rb_capacity rb)"
  by (elim rb_okE) (metis length_ring_list_less)

lemma unat_free_size:
  assumes "rb_ok rb"
  shows "unat (GetFreeSize_Internal rb) = room rb"
proof -
  let ?d = "GetDataSize_Internal rb"
  have c: "0 < unat (rb_capacity rb)" and l: "length (contents rb) < unat (rb_capacity rb)"
    using assms by (auto simp: length_contents_less elim!: rb_okE)
  then have c1: "unat (rb_capacity rb - 1) = unat (rb_capacity rb) - 1"
    by (simp add: unat_sub_le)
  have "unat (rb_capacity rb - ?d) = unat (rb_capacity rb) - length (contents rb)"
    using assms l by (simp add: unat_sub_le unat_data_size)
  then have "unat (rb_capacity rb - ?d - 1) = unat (rb_capacity rb) - length (contents rb) - 1"
    using l by (simp add: unat_sub_le)
  then show ?thesis
    using assms l c1 by (auto simp: GetFreeSize_Internal_def Let_def room_def word_le_nat_alt unat_data_size)
qed

lemma unat_wrap:
  fixes p n c :: size_t
  assumes "unat p < unat c" "unat n \<le> unat c" "unat c \<le> 2 ^ 63"
  shows "mod_size (p + n) c = Inr (of_nat (wrap_add (unat c) (unat p) (unat n)))"
    and "unat (of_nat (wrap_add (unat c) (unat p) (unat n)) :: size_t) =
      wrap_add (unat c) (unat p) (unat n)"
proof -
  let ?k = "wrap_add (unat c) (unat p) (unat n)"
  have k: "?k < unat c" using assms by (intro wrap_add_less)
  then show u: "unat (of_nat ?k :: size_t) = ?k"
    using unat_less_size [of c] by (simp add: unat_of_nat_small)
  have "unat ((p + n) mod c) = ?k"
    using assms by (simp add: unat_mod unat_add_small wrap_add_mod)
  then have "(p + n) mod c = of_nat ?k"
    using u by (simp add: word_eq_iff_unsigned [where 'a = nat])
  moreover have "c \<noteq> 0" using assms by auto
  ultimately show "mod_size (p + n) c = Inr (of_nat ?k)"
    by (simp add: mod_size_def)
qed

section \<open>The operations on a well-formed ring\<close>

text \<open>The two state changes of the ring: bytes appended at the back, bytes removed at the front.\<close>

definition write_bytes :: "ring_buffer \<Rightarrow> byte list \<Rightarrow> ring_buffer" where
  "write_bytes rb xs =
     rb\<lparr>rb_buffer := Some (ring_write (the (rb_buffer rb)) (unat (rb_writePos rb)) xs),
        rb_writePos := of_nat (wrap_add (unat (rb_capacity rb)) (unat (rb_writePos rb)) (length xs))\<rparr>"

definition drop_bytes :: "ring_buffer \<Rightarrow> nat \<Rightarrow> ring_buffer" where
  "drop_bytes rb n =
     rb\<lparr>rb_readPos := of_nat (wrap_add (unat (rb_capacity rb)) (unat (rb_readPos rb)) n)\<rparr>"

lemma bytes_frame [simp]:
  "rb_capacity (write_bytes rb xs) = rb_capacity rb" "rb_lock (write_bytes rb xs) = rb_lock rb"
  "rb_capacity (drop_bytes rb n) = rb_capacity rb" "rb_lock (drop_bytes rb n) = rb_lock rb"
  "rb_buffer (drop_bytes rb n) = rb_buffer rb"
  by (simp_all add: write_bytes_def drop_bytes_def)

lemma room_less: "rb_ok rb \<Longrightarrow> room rb < unat (rb_capacity rb)"
  by (frule length_contents_less) (simp add: room_def)

lemma room_contents: "rb_ok rb \<Longrightarrow> room rb + length (contents rb) + 1 = unat (rb_capacity rb)"
  by (frule length_contents_less) (simp add: room_def)

lemma unat_wrap_add_of_nat:
  assumes "a < unat (c :: size_t)" "n \<le> unat c"
  shows "unat (of_nat (wrap_add (unat c) a n) :: size_t) = wrap_add (unat c) a n"
proof -
  have "wrap_add (unat c) a n < unat c" using assms by (rule wrap_add_less)
  then show ?thesis using unat_less_size [of c] by (simp add: unat_of_nat_small)
qed

lemma write_bytes_ok:
  assumes ok: "rb_ok rb" and fits: "length xs \<le> room rb"
  shows "rb_ok (write_bytes rb xs)"
    and "contents (write_bytes rb xs) = contents rb @ xs"
proof -
  from ok obtain buf where b: "rb_buffer rb = Some buf" "length buf = unat (rb_capacity rb)"
      "unat (rb_readPos rb) < length buf" "unat (rb_writePos rb) < length buf"
      "length buf \<le> 2 ^ 63" "unlocked rb"
      "contents rb = ring_list buf (unat (rb_readPos rb)) (unat (rb_writePos rb))"
    by (rule rb_okE)
  have l: "length xs + length (ring_list buf (unat (rb_readPos rb)) (unat (rb_writePos rb))) < length buf"
    using fits room_contents [OF ok] b by simp
  then have w: "wrap_add (length buf) (unat (rb_writePos rb)) (length xs) < length buf"
    using b by (intro wrap_add_less) auto
  then have u: "unat (of_nat (wrap_add (length buf) (unat (rb_writePos rb)) (length xs)) :: size_t) =
      wrap_add (length buf) (unat (rb_writePos rb)) (length xs)"
    using b l by (simp add: unat_wrap_add_of_nat)
  then show "rb_ok (write_bytes rb xs)"
    using b l w by (simp add: rb_ok_def write_bytes_def length_ring_write unlocked_def)
  show "contents (write_bytes rb xs) = contents rb @ xs"
    using ring_write_grow [of "unat (rb_readPos rb)" buf "unat (rb_writePos rb)" xs] b l u
    by (simp add: contents_def write_bytes_def)
qed

lemma drop_bytes_ok:
  assumes ok: "rb_ok rb" and fits: "n \<le> length (contents rb)"
  shows "rb_ok (drop_bytes rb n)"
    and "contents (drop_bytes rb n) = drop n (contents rb)"
proof -
  from ok obtain buf where b: "rb_buffer rb = Some buf" "length buf = unat (rb_capacity rb)"
      "unat (rb_readPos rb) < length buf" "unat (rb_writePos rb) < length buf"
      "length buf \<le> 2 ^ 63" "unlocked rb"
      "contents rb = ring_list buf (unat (rb_readPos rb)) (unat (rb_writePos rb))"
    by (rule rb_okE)
  have l: "n \<le> length buf" using fits length_contents_less [OF ok] b by simp
  then have w: "wrap_add (length buf) (unat (rb_readPos rb)) n < length buf"
    using b by (intro wrap_add_less)
  then have u: "unat (of_nat (wrap_add (length buf) (unat (rb_readPos rb)) n) :: size_t) =
      wrap_add (length buf) (unat (rb_readPos rb)) n"
    using b l by (simp add: unat_wrap_add_of_nat)
  then show "rb_ok (drop_bytes rb n)"
    using b w by (simp add: rb_ok_def drop_bytes_def unlocked_def)
  show "contents (drop_bytes rb n) = drop n (contents rb)"
    using ring_list_drop [of "unat (rb_readPos rb)" buf "unat (rb_writePos rb)" n] b u fits
    by (simp add: contents_def drop_bytes_def)
qed

lemma room_write_bytes:
  "rb_ok rb \<Longrightarrow> length xs \<le> room rb \<Longrightarrow> room (write_bytes rb xs) = room rb - length xs"
  by (simp add: room_def write_bytes_ok)

lemma room_drop_bytes:
  "rb_ok rb \<Longrightarrow> n \<le> length (contents rb) \<Longrightarrow> room (drop_bytes rb n) = room rb + n"
  using length_contents_less [of rb] by (simp add: room_def drop_bytes_ok)

text \<open>The two \<open>memcpy\<close> of \<open>Enqueue\<close> write at the back of the ring and stay in bounds.\<close>

lemma ring_write_short:
  "length xs \<le> length buf - w \<Longrightarrow> ring_write buf w xs = take w buf @ xs @ drop (w + length xs) buf"
  by (simp add: ring_write_def)

lemma ring_write_long:
  "\<not> length xs \<le> length buf - w \<Longrightarrow>
   ring_write buf w xs =
     drop (length buf - w) xs @ drop (length xs - (length buf - w)) (take w buf) @ take (length buf - w) xs"
  by (simp add: ring_write_def Let_def)

lemma two_copies:
  assumes "w < length buf" "n < length buf" "n \<le> length d" "\<not> n \<le> length buf - w"
  defines "k \<equiv> length buf - w"
  shows "memcpy buf w d 0 k = Inr (take w buf @ take k d)"
    and "memcpy (take w buf @ take k d) 0 d k (n - k) = Inr (ring_write buf w (take n d))"
proof -
  have l: "length (take n d) = n" using assms by simp
  show "memcpy buf w d 0 k = Inr (take w buf @ take k d)"
    using assms by (simp add: memcpy_ok k_def)
  have "drop (n - k) (take w buf @ take k d) = drop (n - k) (take w buf) @ take k d"
    using assms by (simp add: k_def drop_append)
  moreover have "take (n - k) (drop k d) = drop k (take n d)"
    by (simp add: drop_take)
  moreover have "take k (take n d) = take k d"
    using assms by (simp add: k_def min_def)
  ultimately show "memcpy (take w buf @ take k d) 0 d k (n - k) = Inr (ring_write buf w (take n d))"
    using assms l by (simp add: memcpy_ok ring_write_long k_def)
qed

lemma enqueue_copies:
  fixes sz w c :: size_t
  assumes "length buf = unat c" "unat w < unat c" "unat sz < unat c" "unat sz \<le> length d"
  shows "andThen (memcpy buf (unat w) d 0 (unat (min sz (c - w)))) (\<lambda>buf.
           andThen (if sz > min sz (c - w)
                    then memcpy buf 0 d (unat (min sz (c - w))) (unat (sz - min sz (c - w)))
                    else Inr buf) k) = k (ring_write buf (unat w) (take (unat sz) d))"
proof -
  have u: "unat (c - w) = unat c - unat w" using assms by (simp add: unat_sub_le)
  show ?thesis
  proof (cases "unat sz \<le> unat c - unat w")
    case True
    then have m: "min sz (c - w) = sz" using u by (simp add: min_def word_le_nat_alt)
    have "ring_write buf (unat w) (take (unat sz) d) =
        take (unat w) buf @ take (unat sz) d @ drop (unat w + unat sz) buf"
      using True assms by (subst ring_write_short) simp_all
    then show ?thesis
      using True assms by (simp add: m memcpy_ok)
  next
    case False
    then have m: "min sz (c - w) = c - w" and lt: "c - w < sz"
      using u by (simp_all add: min_def word_le_nat_alt word_less_nat_alt)
    have u2: "unat (sz - (c - w)) = unat sz - (unat c - unat w)"
      using False u by (simp add: unat_sub_le)
    show ?thesis
      using two_copies [of "unat w" buf "unat sz" d] False assms by (simp add: m lt u u2)
  qed
qed

lemma copy_out_ok:
  assumes ok: "rb_ok rb" and fits: "unat sz \<le> length (contents rb)" "unat sz \<le> length dst"
  shows "copy_out rb dst sz = Inr (take (unat sz) (contents rb) @ drop (unat sz) dst)"
proof -
  let ?r = "unat (rb_readPos rb)" and ?w = "unat (rb_writePos rb)" and ?n = "unat sz"
  from ok obtain buf where b: "rb_buffer rb = Some buf" "length buf = unat (rb_capacity rb)"
      "?r < length buf" "?w < length buf" "contents rb = ring_list buf ?r ?w"
    by (rule rb_okE)
  have u: "unat (rb_capacity rb - rb_readPos rb) = length buf - ?r"
    using b by (simp add: unat_sub_le)
  show ?thesis
  proof (cases "?n \<le> length buf - ?r")
    case True
    then have m: "min sz (rb_capacity rb - rb_readPos rb) = sz"
      using u by (simp add: min_def word_le_nat_alt)
    have "take ?n (ring_list buf ?r ?w) = take ?n (drop ?r buf)"
      using b fits True by (simp add: take_ring_list)
    then show ?thesis using b fits True by (simp add: copy_out_def m memcpy_ok)
  next
    case False
    then have m: "min sz (rb_capacity rb - rb_readPos rb) = rb_capacity rb - rb_readPos rb"
      and lt: "rb_capacity rb - rb_readPos rb < sz"
      using u by (simp_all add: min_def word_le_nat_alt word_less_nat_alt)
    have u2: "unat (sz - (rb_capacity rb - rb_readPos rb)) = ?n - (length buf - ?r)"
      using False u by (simp add: unat_sub_le)
    have "take ?n (ring_list buf ?r ?w) = drop ?r buf @ take (?n - (length buf - ?r)) buf"
      using b fits False by (simp add: take_ring_list)
    moreover have "?n < length buf"
      using fits length_contents_less [OF ok] b by simp
    ultimately show ?thesis
      using b fits False by (simp add: copy_out_def m lt u u2 memcpy_ok)
  qed
qed

lemma unlocked_ok: "rb_ok rb \<Longrightarrow> unlocked rb"
  by (simp add: rb_ok_def)

lemmas lock_steps = lock_rb_unlocked unlock_rb_hold

lemma restore_lock [simp]: "rb\<lparr>rb_lock := hold (rb_lock rb), rb_lock := rb_lock rb\<rparr> = rb"
  by simp

lemma free_size_less:
  "rb_ok rb \<Longrightarrow> GetFreeSize_Internal rb < sz \<longleftrightarrow> room rb < unat sz"
  by (simp add: word_less_nat_alt unat_free_size)

lemma data_size_less:
  "rb_ok rb \<Longrightarrow> GetDataSize_Internal rb < sz \<longleftrightarrow> length (contents rb) < unat sz"
  by (simp add: word_less_nat_alt unat_data_size)

lemma Enqueue_ok:
  assumes ok: "rb_ok rb" and d: "unat sz \<le> room rb \<Longrightarrow> unat sz \<le> length d"
  shows "Enqueue rb (Some d) sz =
    Inr (if sz \<noteq> 0 \<and> unat sz \<le> room rb then (sz, write_bytes rb (take (unat sz) d)) else (0, rb))"
proof -
  obtain buf where b: "rb_buffer rb = Some buf" "length buf = unat (rb_capacity rb)"
      "unat (rb_writePos rb) < unat (rb_capacity rb)" "unat (rb_capacity rb) \<le> 2 ^ 63"
    using ok by (auto elim!: rb_okE)
  note u = unlocked_ok [OF ok]
  show ?thesis
  proof (cases "sz \<noteq> 0 \<and> unat sz \<le> room rb")
    case False
    then show ?thesis
      using b u ok by (auto simp: Enqueue_def lock_steps free_size_less Let_def)
  next
    case True
    then have lt: "unat sz < unat (rb_capacity rb)" and le: "unat sz \<le> length d"
      using room_less [OF ok] d by auto
    have pos: "mod_size (rb_writePos rb + sz) (rb_capacity rb) =
        Inr (of_nat (wrap_add (unat (rb_capacity rb)) (unat (rb_writePos rb)) (unat sz)))"
      using b lt by (intro unat_wrap) auto
    show ?thesis
      using True b lt le ok u
      by (simp add: Enqueue_def lock_steps free_size_less Let_def enqueue_copies pos write_bytes_def
          del: unat_min cong del: if_weak_cong)
  qed
qed

lemma Dequeue_ok:
  assumes ok: "rb_ok rb" and d: "unat sz \<le> length (contents rb) \<Longrightarrow> unat sz \<le> length dst"
  shows "Dequeue rb (Some dst) sz =
    Inr (if sz \<noteq> 0 \<and> unat sz \<le> length (contents rb)
         then (sz, Some (take (unat sz) (contents rb) @ drop (unat sz) dst), drop_bytes rb (unat sz))
         else (0, Some dst, rb))"
proof -
  obtain buf where b: "rb_buffer rb = Some buf" "unat (rb_readPos rb) < unat (rb_capacity rb)"
      "unat (rb_capacity rb) \<le> 2 ^ 63"
    using ok by (auto elim!: rb_okE)
  note u = unlocked_ok [OF ok]
  show ?thesis
  proof (cases "sz \<noteq> 0 \<and> unat sz \<le> length (contents rb)")
    case False
    then show ?thesis
      using b u ok by (auto simp: Dequeue_def lock_steps data_size_less Let_def)
  next
    case True
    then have pos: "mod_size (rb_readPos rb + sz) (rb_capacity rb) =
        Inr (of_nat (wrap_add (unat (rb_capacity rb)) (unat (rb_readPos rb)) (unat sz)))"
      using b length_contents_less [OF ok] by (intro unat_wrap) auto
    show ?thesis
      using True b d ok u
      by (simp add: Dequeue_def lock_steps data_size_less Let_def copy_out_ok pos drop_bytes_def)
  qed
qed

lemma Peek_ok:
  assumes ok: "rb_ok rb" and d: "unat sz \<le> length (contents rb) \<Longrightarrow> unat sz \<le> length dst"
  shows "Peek rb (Some dst) sz =
    Inr (if sz \<noteq> 0 \<and> unat sz \<le> length (contents rb)
         then (sz, Some (take (unat sz) (contents rb) @ drop (unat sz) dst), rb)
         else (0, Some dst, rb))"
proof -
  obtain buf where b: "rb_buffer rb = Some buf"
    using ok by (auto elim!: rb_okE)
  show ?thesis
    using b d ok unlocked_ok [OF ok]
    by (auto simp: Peek_def lock_steps data_size_less Let_def copy_out_ok)
qed

lemma Consume_ok:
  assumes ok: "rb_ok rb"
  shows "Consume rb sz =
    Inr (if sz \<noteq> 0 \<and> unat sz \<le> length (contents rb) then (sz, drop_bytes rb (unat sz)) else (0, rb))"
proof -
  obtain buf where b: "rb_buffer rb = Some buf" "unat (rb_readPos rb) < unat (rb_capacity rb)"
      "unat (rb_capacity rb) \<le> 2 ^ 63"
    using ok by (auto elim!: rb_okE)
  note u = unlocked_ok [OF ok]
  show ?thesis
  proof (cases "sz \<noteq> 0 \<and> unat sz \<le> length (contents rb)")
    case False
    then show ?thesis
      using b u ok by (auto simp: Consume_def lock_steps data_size_less Let_def)
  next
    case True
    then have pos: "mod_size (rb_readPos rb + sz) (rb_capacity rb) =
        Inr (of_nat (wrap_add (unat (rb_capacity rb)) (unat (rb_readPos rb)) (unat sz)))"
      using b length_contents_less [OF ok] by (intro unat_wrap) auto
    show ?thesis
      using True b ok u
      by (simp add: Consume_def lock_steps data_size_less Let_def pos drop_bytes_def)
  qed
qed

text \<open>Bytes the kernel has stored behind the write position, made visible by \<open>MoveWritePtr\<close>.\<close>

definition scatter :: "ring_buffer \<Rightarrow> byte list \<Rightarrow> ring_buffer" where
  "scatter rb xs = rb\<lparr>rb_buffer := Some (ring_write (the (rb_buffer rb)) (unat (rb_writePos rb)) xs)\<rparr>"

lemma scatter_ok:
  assumes ok: "rb_ok rb" and fits: "length xs \<le> room rb"
  shows "rb_ok (scatter rb xs)" and "contents (scatter rb xs) = contents rb"
proof -
  from ok obtain buf where b: "rb_buffer rb = Some buf" "length buf = unat (rb_capacity rb)"
      "unat (rb_readPos rb) < length buf" "unat (rb_writePos rb) < length buf"
      "length buf \<le> 2 ^ 63" "unlocked rb"
      "contents rb = ring_list buf (unat (rb_readPos rb)) (unat (rb_writePos rb))"
    by (rule rb_okE)
  have l: "length xs + length (ring_list buf (unat (rb_readPos rb)) (unat (rb_writePos rb))) < length buf"
    using fits room_contents [OF ok] b by simp
  then show "rb_ok (scatter rb xs)"
    using b by (simp add: rb_ok_def scatter_def length_ring_write unlocked_def)
  show "contents (scatter rb xs) = contents rb"
    using b l by (simp add: contents_def scatter_def ring_write_list)
qed

lemma scatter_frame [simp]:
  "rb_capacity (scatter rb xs) = rb_capacity rb" "rb_lock (scatter rb xs) = rb_lock rb"
  "rb_writePos (scatter rb xs) = rb_writePos rb" "rb_readPos (scatter rb xs) = rb_readPos rb"
  by (simp_all add: scatter_def)

definition advance_write :: "ring_buffer \<Rightarrow> nat \<Rightarrow> ring_buffer" where
  "advance_write rb n =
     rb\<lparr>rb_writePos := of_nat (wrap_add (unat (rb_capacity rb)) (unat (rb_writePos rb)) n)\<rparr>"

lemma advance_write_ok:
  assumes "rb_ok rb" "n \<le> room rb" shows "rb_ok (advance_write rb n)"
proof -
  have "n \<le> unat (rb_capacity rb)" "unat (rb_writePos rb) < unat (rb_capacity rb)"
    using room_less [OF assms(1)] assms by (auto simp: rb_ok_def)
  then show ?thesis
    using assms(1) wrap_add_less [of "unat (rb_writePos rb)" "unat (rb_capacity rb)" n]
    by (auto simp: rb_ok_def advance_write_def unat_wrap_add_of_nat unlocked_def split: option.splits)
qed

lemma advance_write_frame [simp]:
  "rb_capacity (advance_write rb n) = rb_capacity rb" "rb_lock (advance_write rb n) = rb_lock rb"
  by (simp_all add: advance_write_def)

lemma advance_scatter: "advance_write (scatter rb xs) (length xs) = write_bytes rb xs"
  by (simp add: advance_write_def scatter_def write_bytes_def)

lemma MoveWritePtr_ok:
  assumes ok: "rb_ok rb"
  shows "MoveWritePtr rb sz =
    Inr (if sz \<noteq> 0 \<and> unat sz \<le> room rb then (sz, advance_write rb (unat sz)) else (0, rb))"
proof -
  obtain buf where b: "rb_buffer rb = Some buf" "unat (rb_writePos rb) < unat (rb_capacity rb)"
      "unat (rb_capacity rb) \<le> 2 ^ 63"
    using ok by (auto elim!: rb_okE)
  note u = unlocked_ok [OF ok]
  show ?thesis
  proof (cases "sz \<noteq> 0 \<and> unat sz \<le> room rb")
    case False
    then show ?thesis
      using b u ok by (auto simp: MoveWritePtr_def lock_steps free_size_less Let_def)
  next
    case True
    then have pos: "mod_size (rb_writePos rb + sz) (rb_capacity rb) =
        Inr (of_nat (wrap_add (unat (rb_capacity rb)) (unat (rb_writePos rb)) (unat sz)))"
      using b room_less [OF ok] by (intro unat_wrap) auto
    show ?thesis
      using True b ok u
      by (simp add: MoveWritePtr_def lock_steps free_size_less Let_def pos advance_write_def)
  qed
qed

section \<open>Accessors, construction and the empty ring\<close>

lemma with_lock_unlocked:
  "unlocked rb \<Longrightarrow> (\<And>l. f (rb\<lparr>rb_lock := l\<rparr>) = f rb) \<Longrightarrow> with_lock rb f = Inr (f rb, rb)"
  by (simp add: with_lock_def lock_steps Let_def)

lemma GetDataSize_unlocked: "unlocked rb \<Longrightarrow> GetDataSize rb = Inr (GetDataSize_Internal rb, rb)"
  by (simp add: GetDataSize_def lock_steps Let_def)

lemma GetFreeSize_unlocked: "unlocked rb \<Longrightarrow> GetFreeSize rb = Inr (GetFreeSize_Internal rb, rb)"
  by (simp add: GetFreeSize_def lock_steps Let_def)

lemma unat_direct_write_size:
  assumes "rb_ok rb"
  shows "unat (direct_write_size rb) = min (room rb) (unat (rb_capacity rb) - unat (rb_writePos rb))"
proof -
  let ?r = "unat (rb_readPos rb)" and ?w = "unat (rb_writePos rb)" and ?c = "unat (rb_capacity rb)"
  from assms obtain buf where b: "length buf = ?c" "?r < ?c" "?w < ?c" "contents rb = ring_list buf ?r ?w"
    by (auto elim!: rb_okE)
  then have len: "length (contents rb) = (if ?r \<le> ?w then ?w - ?r else ?c - ?r + ?w)"
    by (simp add: length_ring_list)
  have cw: "unat (rb_capacity rb - rb_writePos rb) = ?c - ?w"
    using b by (simp add: unat_sub_le)
  have z: "rb_readPos rb = 0 \<longleftrightarrow> ?r = 0" by (simp add: unat_eq_zero)
  show ?thesis
  proof (cases "?r \<le> ?w")
    case True
    have "unat (rb_capacity rb - rb_writePos rb - 1) = ?c - ?w - 1"
      using b cw by (subst unat_sub_le) simp_all
    then show ?thesis
      using True b cw len z by (auto simp: direct_write_size_def room_def word_le_nat_alt)
  next
    case False
    then have rw: "unat (rb_readPos rb - rb_writePos rb) = ?r - ?w"
      by (simp add: unat_sub_le)
    then have "unat (rb_readPos rb - rb_writePos rb - 1) = ?r - ?w - 1"
      using False by (subst unat_sub_le) simp_all
    then show ?thesis
      using False b len by (simp add: direct_write_size_def room_def word_le_nat_alt)
  qed
qed

lemma unat_direct_read_size:
  assumes "rb_ok rb"
  shows "unat (direct_read_size rb) = min (length (contents rb)) (unat (rb_capacity rb) - unat (rb_readPos rb))"
proof -
  let ?r = "unat (rb_readPos rb)" and ?w = "unat (rb_writePos rb)" and ?c = "unat (rb_capacity rb)"
  from assms obtain buf where b: "length buf = ?c" "?r < ?c" "?w < ?c" "contents rb = ring_list buf ?r ?w"
    by (auto elim!: rb_okE)
  then have "length (contents rb) = (if ?r \<le> ?w then ?w - ?r else ?c - ?r + ?w)"
    by (simp add: length_ring_list)
  then show ?thesis
    using b by (auto simp: direct_read_size_def word_le_nat_alt unat_sub_le)
qed

lemma CRingBufferT_ok:
  assumes "alloc cap = Some mem" "length mem = unat cap" "0 < unat cap" "unat cap \<le> 2 ^ 63"
    and "policy \<noteq> MutexLock True"
  shows "rb_ok (CRingBufferT alloc policy cap)" and "contents (CRingBufferT alloc policy cap) = []"
    and "room (CRingBufferT alloc policy cap) = unat cap - 1"
  using assms
  by (auto simp: CRingBufferT_def rb_ok_def unlocked_def contents_def ring_list_def room_def
      unat_eq_zero)

lemma Clear_ok:
  assumes "rb_ok rb"
  shows "Clear rb = Inr (rb\<lparr>rb_readPos := 0, rb_writePos := 0\<rparr>)"
    and "rb_ok (rb\<lparr>rb_readPos := 0, rb_writePos := 0\<rparr>)"
    and "contents (rb\<lparr>rb_readPos := 0, rb_writePos := 0\<rparr>) = []"
  using assms
  by (auto simp: Clear_def lock_steps contents_def ring_list_def rb_ok_def unlocked_def
      split: option.splits)

section \<open>The ring buffer is a byte queue\<close>

interpretation ring: byte_fifo rb_ok contents room Enqueue Dequeue Peek Consume
proof (unfold_locales, goal_cases)
  case (1 q n d)
  then show ?case
    by (auto simp: Enqueue_ok write_bytes_ok room_write_bytes intro!: exI [of _ "write_bytes q (take (unat n) d)"])
next
  case (2 q n d)
  then show ?case by (auto simp: Enqueue_ok)
next
  case (3 q n d)
  then show ?case by (auto simp: Dequeue_ok drop_bytes_ok room_drop_bytes)
next
  case (4 q n d)
  then show ?case by (auto simp: Dequeue_ok)
next
  case (5 q n d)
  then show ?case by (auto simp: Peek_ok)
next
  case (6 q n d)
  then show ?case by (auto simp: Peek_ok)
next
  case (7 q n)
  then show ?case by (auto simp: Consume_ok drop_bytes_ok room_drop_bytes)
next
  case (8 q n)
  then show ?case by (auto simp: Consume_ok)
qed

section \<open>Balanced locking\<close>

text \<open>
  Every return path releases the lock it took, whatever the state of the ring and the result:
  an operation is balanced when it restores the policy, or fails with a fault other than
  those of the mutex.
\<close>

definition balanced :: "lock_policy \<Rightarrow> ('a \<Rightarrow> ring_buffer) \<Rightarrow> 'a res \<Rightarrow> bool" where
  "balanced l ring r \<longleftrightarrow>
     (case r of Inr x \<Rightarrow> rb_lock (ring x) = l | Inl e \<Rightarrow> e \<noteq> Deadlock \<and> e \<noteq> UnlockNotHeld)"

lemma balanced_simps [simp]:
  "balanced l ring (Inr x) \<longleftrightarrow> rb_lock (ring x) = l"
  "balanced l ring (Inl e) \<longleftrightarrow> e \<noteq> Deadlock \<and> e \<noteq> UnlockNotHeld"
  by (simp_all add: balanced_def)

text \<open>A copy or a division does not touch the lock, and its faults are not the mutex's.\<close>

lemma balanced_memcpy:
  "(\<And>mem. balanced l ring (k mem)) \<Longrightarrow> balanced l ring (andThen (memcpy dst d src s n) k)"
  by (simp add: memcpy_def)

lemma balanced_mod_size:
  "(\<And>m. balanced l ring (k m)) \<Longrightarrow> balanced l ring (andThen (mod_size a b) k)"
  by (simp add: mod_size_def)

lemma balanced_copy_out:
  "(\<And>mem. balanced l ring (k mem)) \<Longrightarrow> balanced l ring (andThen (copy_out rb d n) k)"
  by (simp add: copy_out_def memcpy_def Let_def)

lemma balanced_unlock:
  "rb_lock rb2 = hold (rb_lock rb) \<Longrightarrow> unlocked rb \<Longrightarrow> ring (f (rb2\<lparr>rb_lock := rb_lock rb\<rparr>)) = rb2\<lparr>rb_lock := rb_lock rb\<rparr> \<Longrightarrow>
   balanced (rb_lock rb) ring (andThen (unlock_rb rb2) (\<lambda>rb. Inr (f rb)))"
  by (simp add: unlock_rb_hold)

lemmas balanced_intros = balanced_memcpy balanced_mod_size balanced_copy_out

lemma held_lock [simp]: "rb_lock rb = MutexLock True \<Longrightarrow> lock_rb rb = Inl Deadlock"
  by (simp add: lock_rb_def)

end
