(* ===== verification/SessionId.thy ===== *)
theory SessionId
  imports Prelude
begin

text \<open>
  The session identifiers of \<open>MO_MiniGames_Server/IOCPServer.h\<close>, class \<open>CSession\<close>: a
  signed 64-bit value whose upper 16 bits are the slot of the session in the server's table
  and whose lower 48 bits are a unique number.
\<close>

unbundle bit_operations_syntax

definition SESSION_UNIQUE_MASK :: int64_t where
  "SESSION_UNIQUE_MASK = 0x0000FFFFFFFFFFFF"

definition ExtractIndex :: "int64_t \<Rightarrow> uint16_t" where
  "ExtractIndex sessionId = ucast (signed_drop_bit 48 sessionId AND 0xFFFF)"

definition ExtractUniqueId :: "int64_t \<Rightarrow> int64_t" where
  "ExtractUniqueId sessionId = sessionId AND SESSION_UNIQUE_MASK"

definition MakeSessionId :: "uint16_t \<Rightarrow> int64_t \<Rightarrow> int64_t" where
  "MakeSessionId index uniqueId = push_bit 48 (ucast index) OR (uniqueId AND SESSION_UNIQUE_MASK)"

lemma unique_mask: "SESSION_UNIQUE_MASK = mask 48"
  by (simp add: SESSION_UNIQUE_MASK_def mask_eq_exp_minus_1)

lemma bit_unique_mask: "bit SESSION_UNIQUE_MASK n \<longleftrightarrow> n < 48"
  by (auto simp: unique_mask bit_simps)

lemma index_mask: "(0xFFFF :: int64_t) = mask 16"
  by (simp add: mask_eq_exp_minus_1)

lemma ExtractIndex_Make: "ExtractIndex (MakeSessionId i u) = i"
  by (rule bit_word_eqI)
    (auto simp: ExtractIndex_def MakeSessionId_def index_mask unique_mask bit_simps min_def
      dest: bit_imp_le_length)

lemma ExtractUniqueId_Make: "ExtractUniqueId (MakeSessionId i u) = u AND SESSION_UNIQUE_MASK"
  by (rule bit_word_eqI)
    (auto simp: ExtractUniqueId_def MakeSessionId_def unique_mask bit_simps)

lemma Make_Extract: "MakeSessionId (ExtractIndex s) (ExtractUniqueId s) = s"
  by (rule bit_word_eqI)
    (auto simp: ExtractIndex_def ExtractUniqueId_def MakeSessionId_def index_mask unique_mask
      bit_simps min_def)

lemma session_id_eq_iff:
  "s = t \<longleftrightarrow> ExtractIndex s = ExtractIndex t \<and> ExtractUniqueId s = ExtractUniqueId t"
  by (metis Make_Extract)

end
