(* ===== verification/Codec.thy ===== *)
theory Codec
  imports Prelude
begin

text \<open>
  The memory image of the packed structs: little-endian integers (the sources are built for
  Windows on x86), reads through \<open>reinterpret_cast\<close> that must stay inside the buffer, and
  C strings in fixed-size character arrays.
\<close>

unbundle bit_operations_syntax

section \<open>Integers\<close>

definition put16 :: "uint16_t \<Rightarrow> byte list" where
  "put16 w = [ucast w, ucast (drop_bit 8 w)]"

definition put32 :: "int32_t \<Rightarrow> byte list" where
  "put32 w = [ucast w, ucast (drop_bit 8 w), ucast (drop_bit 16 w), ucast (drop_bit 24 w)]"

definition join16 :: "byte \<Rightarrow> byte \<Rightarrow> uint16_t" where
  "join16 a b = ucast a OR push_bit 8 (ucast b)"

definition join32 :: "byte \<Rightarrow> byte \<Rightarrow> byte \<Rightarrow> byte \<Rightarrow> int32_t" where
  "join32 a b c d = ucast a OR push_bit 8 (ucast b) OR push_bit 16 (ucast c) OR push_bit 24 (ucast d)"

definition read8 :: "byte list \<Rightarrow> nat \<Rightarrow> byte res" where
  "read8 mem off = (if off < length mem then Inr (mem ! off) else Inl OutOfBounds)"

definition read16 :: "byte list \<Rightarrow> nat \<Rightarrow> uint16_t res" where
  "read16 mem off =
     (if off + 2 \<le> length mem then Inr (join16 (mem ! off) (mem ! (off + 1))) else Inl OutOfBounds)"

definition read32 :: "byte list \<Rightarrow> nat \<Rightarrow> int32_t res" where
  "read32 mem off =
     (if off + 4 \<le> length mem
      then Inr (join32 (mem ! off) (mem ! (off + 1)) (mem ! (off + 2)) (mem ! (off + 3)))
      else Inl OutOfBounds)"

lemma length_put [simp]: "length (put16 w) = 2" "length (put32 v) = 4"
  by (simp_all add: put16_def put32_def)

lemma join16_split: "join16 (ucast w) (ucast (drop_bit 8 w)) = w"
  by (rule bit_word_eqI) (auto simp: join16_def bit_simps)

lemma join32_split:
  "join32 (ucast w) (ucast (drop_bit 8 w)) (ucast (drop_bit 16 w)) (ucast (drop_bit 24 w)) = w"
proof (rule bit_word_eqI)
  fix n assume "n < LENGTH(32)"
  then consider "n < 8" | "8 \<le> n" "n < 16" | "16 \<le> n" "n < 24" | "24 \<le> n" "n < 32"
    by fastforce
  then show "bit (join32 (ucast w) (ucast (drop_bit 8 w)) (ucast (drop_bit 16 w)) (ucast (drop_bit 24 w))) n
      = bit w n"
    by cases (auto simp: join32_def bit_simps)
qed

lemma read16_put: "length pre = off \<Longrightarrow> read16 (pre @ put16 w @ rest) off = Inr w"
  by (auto simp: read16_def put16_def nth_append join16_split)

lemma read32_put: "length pre = off \<Longrightarrow> read32 (pre @ put32 w @ rest) off = Inr w"
  by (auto simp: read32_def put32_def nth_append join32_split)

lemma read16_put0: "read16 (put16 w @ rest) 0 = Inr w"
  using read16_put [of "[]" 0] by simp

lemma read16_prefix: "2 \<le> n \<Longrightarrow> 2 \<le> length mem \<Longrightarrow> read16 (take n mem) 0 = read16 mem 0"
  by (simp add: read16_def)

section \<open>C strings\<close>

text \<open>The characters up to the first NUL from offset \<open>off\<close> on, as \<open>std::string(const char*)\<close> reads them.\<close>

fun c_str :: "byte list \<Rightarrow> byte list res" where
  "c_str [] = Inl OutOfBounds"
| "c_str (c # cs) = (if c = 0 then Inr [] else andThen (c_str cs) (\<lambda>s. Inr (c # s)))"

text \<open>
  \<open>strncpy_s(dst, src, count)\<close> for an array \<open>dst\<close> with \<open>count < sizeof dst\<close>: at most \<open>count\<close>
  characters of the C string, then a NUL; the bytes behind keep the value they had.
\<close>

definition strncpy_s :: "byte list \<Rightarrow> byte list \<Rightarrow> nat \<Rightarrow> byte list" where
  "strncpy_s dst src count =
     (let s = take count (takeWhile (\<lambda>c. c \<noteq> 0) src) in s @ [0] @ drop (length s + 1) dst)"

lemma length_strncpy_s: "count < length dst \<Longrightarrow> length (strncpy_s dst src count) = length dst"
  by (simp add: strncpy_s_def Let_def)

lemma c_str_app: "0 \<notin> set s \<Longrightarrow> c_str (s @ 0 # rest) = Inr s"
  by (induction s) auto

lemma c_str_strncpy_s:
  "c_str (strncpy_s dst src count @ rest) = Inr (take count (takeWhile (\<lambda>c. c \<noteq> 0) src))"
proof -
  have "0 \<notin> set (take count (takeWhile (\<lambda>c. c \<noteq> 0) src))"
    by (auto dest!: in_set_takeD set_takeWhileD)
  then show ?thesis by (simp add: strncpy_s_def Let_def c_str_app)
qed

lemma c_str_no_nul: "0 \<notin> set s \<Longrightarrow> c_str s = Inl OutOfBounds"
  by (induction s) auto

end
