(* ===== verification/IOCPServer.thy ===== *)
theory IOCPServer
  imports RingBuffer SessionId Codec
begin

text \<open>
  The network layer of the server: \<open>CSession\<close>, \<open>NetworkEvent\<close>, \<open>ThreadSafeQueue\<close> and
  \<open>CIOCPServer\<close> of \<open>MO_MiniGames_Server/IOCPServer.h\<close> and \<open>IOCPServer.cpp\<close>.

  The operating system is a parameter: every call to it is recorded in a log, and \<open>os log\<close>
  is the result of the call at the head of the log.  A session pointer, also as the
  completion key, is the slot of the session in the table of the server.
\<close>

section \<open>Data\<close>

type_synonym SOCKET = "64 word"

definition INVALID_SOCKET :: SOCKET where
  "INVALID_SOCKET = - 1"

datatype IOOperation = RECV | SEND | ACCEPT

datatype ServerArchitectureType = EchoTest | Centralized | Partitioned | UnifiedStrand

text \<open>\<open>OverlappedEx\<close>; the \<open>OVERLAPPED\<close> block itself belongs to the kernel.\<close>

record OverlappedEx =
  ov_sessionId :: int64_t
  ov_operation :: IOOperation

record CSession =
  cs_socket :: SOCKET
  cs_sessionId :: int64_t
  cs_valid :: bool
  cs_sending :: bool
  cs_recvQ :: ring_buffer
  cs_sendQ :: ring_buffer
  cs_recvOverlapped :: OverlappedEx
  cs_sendOverlapped :: OverlappedEx

datatype NetworkEventType = CONNECTED | DISCONNECTED | RECEIVED

record NetworkEvent =
  ev_type :: NetworkEventType
  ev_sessionId :: int64_t
  ev_data :: "byte list"

text \<open>Commands from the game logic; the game logic calls the server directly and creates none.\<close>

datatype NetworkCommandType = SEND_MSG | DISCONNECT_SESSION

record NetworkCommand =
  cmd_type :: NetworkCommandType
  cmd_sessionId :: int64_t
  cmd_data :: "byte list"

definition NetworkCommand_plain :: "NetworkCommandType \<Rightarrow> int64_t \<Rightarrow> NetworkCommand" where
  "NetworkCommand_plain t sid = \<lparr>cmd_type = t, cmd_sessionId = sid, cmd_data = []\<rparr>"

text \<open>The constructors with data read \<open>length\<close> bytes of the buffer.\<close>

definition NetworkCommand_data :: "NetworkCommandType \<Rightarrow> int64_t \<Rightarrow> byte list \<Rightarrow> nat \<Rightarrow> NetworkCommand res" where
  "NetworkCommand_data t sid buffer len =
     (if len \<le> length buffer then Inr \<lparr>cmd_type = t, cmd_sessionId = sid, cmd_data = take len buffer\<rparr>
      else Inl OutOfBounds)"

definition NetworkCommand_broadcast :: "NetworkCommandType \<Rightarrow> byte list \<Rightarrow> nat \<Rightarrow> NetworkCommand res" where
  "NetworkCommand_broadcast t buffer len = NetworkCommand_data t (- 1) buffer len"

text \<open>A \<open>WSABUF\<close>: offset into the ring's array and length.\<close>

record WSABUF =
  wb_buf :: size_t
  wb_len :: "32 word"

datatype os_call =
    OsCloseSocket SOCKET
  | OsBindIOCP SOCKET nat
  | OsSetLinger SOCKET
  | OsRecv SOCKET "WSABUF list"
  | OsSend SOCKET "byte list"
  | OsWSAStartup
  | OsWSACleanup
  | OsCreateIOCP
  | OsCloseIOCP
  | OsWSASocket
  | OsBindPort SOCKET
  | OsListen SOCKET
  | OsStartThreads
  | OsWakeAndJoinThreads

type_synonym os = "os_call list \<Rightarrow> 64 word"

record CIOCPServer =
  srv_maxClients :: int32_t
  srv_architectureType :: ServerArchitectureType
  srv_running :: bool
  srv_sessionIdCounter :: int64_t
  srv_listenSocket :: SOCKET
  srv_iocpHandle :: "64 word"               \<comment> \<open>\<open>0\<close> is \<open>NULL\<close>\<close>
  srv_sessions :: "CSession option list"    \<comment> \<open>\<open>None\<close> is an empty \<open>unique_ptr\<close>\<close>
  srv_availableIndices :: "uint16_t list"   \<comment> \<open>front of the queue first\<close>
  srv_pendingDisconStack :: "64 word list"  \<comment> \<open>top of the stack first\<close>
  srv_eventQueue :: "NetworkEvent list"     \<comment> \<open>front of the queue first\<close>
  srv_log :: "os_call list"                 \<comment> \<open>latest call first\<close>

section \<open>Helpers of the model\<close>

definition syscall :: "os_call \<Rightarrow> CIOCPServer \<Rightarrow> CIOCPServer" where
  "syscall c srv = srv\<lparr>srv_log := c # srv_log srv\<rparr>"

definition os_result :: "os \<Rightarrow> CIOCPServer \<Rightarrow> 64 word" where
  "os_result os srv = os (srv_log srv)"

definition session_at :: "CIOCPServer \<Rightarrow> nat \<Rightarrow> CSession option" where
  "session_at srv i = (if i < length (srv_sessions srv) then srv_sessions srv ! i else None)"

definition set_session :: "CIOCPServer \<Rightarrow> nat \<Rightarrow> CSession \<Rightarrow> CIOCPServer" where
  "set_session srv i s = srv\<lparr>srv_sessions := (srv_sessions srv)[i := Some s]\<rparr>"

text \<open>Dereferencing the session pointer \<open>i\<close>.\<close>

definition deref :: "CIOCPServer \<Rightarrow> nat \<Rightarrow> CSession res" where
  "deref srv i = (case session_at srv i of None \<Rightarrow> Inl NullDeref | Some s \<Rightarrow> Inr s)"

section \<open>CSession\<close>

definition Initialize :: "CSession \<Rightarrow> SOCKET \<Rightarrow> int64_t \<Rightarrow> CSession res" where
  "Initialize s socket sessionId =
     andThen (Clear (cs_recvQ s)) (\<lambda>recvQ.
     andThen (Clear (cs_sendQ s)) (\<lambda>sendQ.
     Inr (s\<lparr>cs_socket := socket, cs_sessionId := sessionId, cs_valid := True, cs_sending := False,
            cs_recvQ := recvQ, cs_sendQ := sendQ,
            cs_recvOverlapped := \<lparr>ov_sessionId = sessionId, ov_operation = RECV\<rparr>,
            cs_sendOverlapped := \<lparr>ov_sessionId = sessionId, ov_operation = SEND\<rparr>\<rparr>)))"

text \<open>
  The constructor: default-constructed queues of 65536 bytes, then \<open>Initialize\<close>.  The other
  members are uninitialised before that call; \<open>Initialize\<close> overwrites all of them.
\<close>

definition CSession_new :: "(size_t \<Rightarrow> byte list option) \<Rightarrow> CSession res" where
  "CSession_new alloc =
     Initialize
       \<lparr>cs_socket = INVALID_SOCKET, cs_sessionId = 0, cs_valid = False, cs_sending = False,
        cs_recvQ = CRingBufferT alloc NoLock 65536,
        cs_sendQ = CRingBufferT alloc (MutexLock False) 65536,
        cs_recvOverlapped = \<lparr>ov_sessionId = 0, ov_operation = RECV\<rparr>,
        cs_sendOverlapped = \<lparr>ov_sessionId = 0, ov_operation = SEND\<rparr>\<rparr>
       INVALID_SOCKET 0"

definition Close :: "CIOCPServer \<Rightarrow> nat \<Rightarrow> CSession \<Rightarrow> CIOCPServer" where
  "Close srv i s =
     (if cs_socket s \<noteq> INVALID_SOCKET
      then set_session (syscall (OsCloseSocket (cs_socket s)) srv) i (s\<lparr>cs_socket := INVALID_SOCKET\<rparr>)
      else srv)"

section \<open>The event queue (ThreadSafeQueue)\<close>

definition Push :: "'a list \<Rightarrow> 'a \<Rightarrow> 'a list" where
  "Push q item = q @ [item]"

definition TryPop :: "'a list \<Rightarrow> ('a \<times> 'a list) option" where
  "TryPop q = (case q of [] \<Rightarrow> None | x # xs \<Rightarrow> Some (x, xs))"

definition IsEmpty :: "'a list \<Rightarrow> bool" where
  "IsEmpty q \<longleftrightarrow> q = []"

definition PushNetworkEvent :: "CIOCPServer \<Rightarrow> NetworkEvent \<Rightarrow> CIOCPServer" where
  "PushNetworkEvent srv event = srv\<lparr>srv_eventQueue := Push (srv_eventQueue srv) event\<rparr>"

definition PopNetworkEvent :: "CIOCPServer \<Rightarrow> (NetworkEvent \<times> CIOCPServer) option" where
  "PopNetworkEvent srv =
     (case TryPop (srv_eventQueue srv) of None \<Rightarrow> None
      | Some (event, q) \<Rightarrow> Some (event, srv\<lparr>srv_eventQueue := q\<rparr>))"

section \<open>Sessions: lookup and disconnection\<close>

definition FindSession :: "CIOCPServer \<Rightarrow> int64_t \<Rightarrow> nat option" where
  "FindSession srv sessionId =
     (let index = ExtractIndex sessionId; uniqueId = ExtractUniqueId sessionId in
      if length (srv_sessions srv) \<le> unat index then None
      else case srv_sessions srv ! unat index of
        None \<Rightarrow> None
      | Some session \<Rightarrow>
          if ExtractUniqueId (cs_sessionId session) = uniqueId then Some (unat index) else None)"

definition DisconnectSessionInternal :: "CIOCPServer \<Rightarrow> nat \<Rightarrow> bool \<times> CIOCPServer" where
  "DisconnectSessionInternal srv i =
     (case session_at srv i of
        None \<Rightarrow> (False, srv)
      | Some s0 \<Rightarrow>
          if \<not> cs_valid s0 then (False, srv)
          else
            let s = s0\<lparr>cs_valid := False\<rparr>;
                srv = set_session srv i s;
                srv = Close srv i s;
                s = the (session_at srv i)\<lparr>cs_sending := False\<rparr>;
                srv = set_session srv i s;
                srv = srv\<lparr>srv_pendingDisconStack := cs_sessionId s # srv_pendingDisconStack srv\<rparr>
            in (True,
                case srv_architectureType srv of
                  Centralized \<Rightarrow> PushNetworkEvent srv
                    \<lparr>ev_type = DISCONNECTED, ev_sessionId = cs_sessionId s, ev_data = []\<rparr>
                | _ \<Rightarrow> srv))"

definition RequestDisconnectSession :: "CIOCPServer \<Rightarrow> int64_t \<Rightarrow> bool \<times> CIOCPServer" where
  "RequestDisconnectSession srv sessionId =
     (case FindSession srv sessionId of
        None \<Rightarrow> (False, srv)
      | Some i \<Rightarrow> DisconnectSessionInternal srv i)"

text \<open>The loop of \<open>ReleaseSession\<close> pops the stack until it is empty: recursion over the stack.\<close>

fun release_loop :: "64 word list \<Rightarrow> CIOCPServer \<Rightarrow> CIOCPServer" where
  "release_loop [] srv = srv"
| "release_loop (sessionid # rest) srv =
     (let srv = srv\<lparr>srv_pendingDisconStack := rest\<rparr> in
      release_loop rest
        (case FindSession srv sessionid of
           None \<Rightarrow> srv
         | Some i \<Rightarrow>
             let srv = Close srv i (the (session_at srv i)) in
             srv\<lparr>srv_availableIndices := srv_availableIndices srv @ [ExtractIndex sessionid]\<rparr>))"

definition ReleaseSession :: "CIOCPServer \<Rightarrow> CIOCPServer" where
  "ReleaseSession srv = release_loop (srv_pendingDisconStack srv) srv"

definition GetArchitectureType :: "CIOCPServer \<Rightarrow> ServerArchitectureType" where
  "GetArchitectureType srv = srv_architectureType srv"

section \<open>Reading and updating the session table\<close>

lemma session_at_set_session [simp]:
  "session_at (set_session srv i s) j = (if i = j \<and> j < length (srv_sessions srv) then Some s else session_at srv j)"
  by (simp add: session_at_def set_session_def)

lemma session_at_Some_less: "session_at srv i = Some s \<Longrightarrow> i < length (srv_sessions srv)"
  by (simp add: session_at_def split: if_splits)

lemma set_session_same: "session_at srv i = Some s \<Longrightarrow> set_session srv i s = srv"
  by (simp add: session_at_def set_session_def split: if_splits)
    (metis CIOCPServer.surjective CIOCPServer.update_convs(7) list_update_id)

lemma set_session_frame [simp]:
  "srv_availableIndices (set_session srv i s) = srv_availableIndices srv"
  "srv_pendingDisconStack (set_session srv i s) = srv_pendingDisconStack srv"
  "srv_eventQueue (set_session srv i s) = srv_eventQueue srv"
  "srv_log (set_session srv i s) = srv_log srv"
  "srv_architectureType (set_session srv i s) = srv_architectureType srv"
  "srv_running (set_session srv i s) = srv_running srv"
  "srv_sessionIdCounter (set_session srv i s) = srv_sessionIdCounter srv"
  "srv_maxClients (set_session srv i s) = srv_maxClients srv"
  "length (srv_sessions (set_session srv i s)) = length (srv_sessions srv)"
  by (simp_all add: set_session_def)

lemma set_session_twice [simp]: "set_session (set_session srv i s) i t = set_session srv i t"
  by (simp add: set_session_def)

lemma syscall_frame [simp]:
  "srv_availableIndices (syscall c srv) = srv_availableIndices srv"
  "srv_pendingDisconStack (syscall c srv) = srv_pendingDisconStack srv"
  "srv_eventQueue (syscall c srv) = srv_eventQueue srv"
  "srv_log (syscall c srv) = c # srv_log srv"
  "srv_architectureType (syscall c srv) = srv_architectureType srv"
  "srv_running (syscall c srv) = srv_running srv"
  "srv_sessionIdCounter (syscall c srv) = srv_sessionIdCounter srv"
  "srv_maxClients (syscall c srv) = srv_maxClients srv"
  "srv_sessions (syscall c srv) = srv_sessions srv"
  "session_at (syscall c srv) = session_at srv"
  by (simp_all add: syscall_def session_at_def fun_eq_iff)

lemma set_session_syscall: "set_session (syscall c srv) i s = syscall c (set_session srv i s)"
  by (simp add: set_session_def syscall_def)

lemma deref_Some [simp]: "session_at srv i = Some s \<Longrightarrow> deref srv i = Inr s"
  by (simp add: deref_def)

section \<open>Well-formed sessions\<close>

text \<open>
  Both queues are usable rings of the default capacity, and the two \<open>OverlappedEx\<close> members
  carry the id of the session they are embedded in.
\<close>

definition session_ok :: "CSession \<Rightarrow> bool" where
  "session_ok s \<longleftrightarrow> rb_ok (cs_recvQ s) \<and> rb_capacity (cs_recvQ s) = 65536 \<and>
     rb_ok (cs_sendQ s) \<and> rb_capacity (cs_sendQ s) = 65536 \<and>
     cs_recvOverlapped s = \<lparr>ov_sessionId = cs_sessionId s, ov_operation = RECV\<rparr> \<and>
     cs_sendOverlapped s = \<lparr>ov_sessionId = cs_sessionId s, ov_operation = SEND\<rparr>"

definition srv_ok :: "CIOCPServer \<Rightarrow> bool" where
  "srv_ok srv \<longleftrightarrow> list_all (\<lambda>so. case so of None \<Rightarrow> True | Some s \<Rightarrow> session_ok s) (srv_sessions srv)"

lemma srv_ok_at: "srv_ok srv \<Longrightarrow> session_at srv i = Some s \<Longrightarrow> session_ok s"
  by (auto simp: srv_ok_def session_at_def list_all_length split: if_splits option.splits)

lemma srv_ok_iff: "srv_ok srv \<longleftrightarrow> (\<forall>i s. session_at srv i = Some s \<longrightarrow> session_ok s)"
  by (auto simp: srv_ok_def session_at_def list_all_length split: option.splits)

lemma srv_ok_set [intro]: "srv_ok srv \<Longrightarrow> session_ok s \<Longrightarrow> srv_ok (set_session srv i s)"
  by (auto simp: srv_ok_iff)

lemma srv_ok_frame [simp]:
  "srv_ok (syscall c srv) = srv_ok srv"
  "srv_ok (srv\<lparr>srv_pendingDisconStack := p\<rparr>) = srv_ok srv"
  "srv_ok (srv\<lparr>srv_availableIndices := a\<rparr>) = srv_ok srv"
  "srv_ok (srv\<lparr>srv_sessionIdCounter := n\<rparr>) = srv_ok srv"
  "srv_ok (PushNetworkEvent srv e) = srv_ok srv"
  by (simp_all add: srv_ok_def PushNetworkEvent_def syscall_def)

lemma session_at_frame [simp]:
  "session_at (srv\<lparr>srv_pendingDisconStack := p\<rparr>) = session_at srv"
  "session_at (srv\<lparr>srv_availableIndices := a\<rparr>) = session_at srv"
  "session_at (srv\<lparr>srv_sessionIdCounter := c\<rparr>) = session_at srv"
  "session_at (PushNetworkEvent srv e) = session_at srv"
  by (simp_all add: session_at_def PushNetworkEvent_def fun_eq_iff)

lemma PushNetworkEvent_frame [simp]:
  "srv_availableIndices (PushNetworkEvent srv e) = srv_availableIndices srv"
  "srv_pendingDisconStack (PushNetworkEvent srv e) = srv_pendingDisconStack srv"
  "srv_eventQueue (PushNetworkEvent srv e) = srv_eventQueue srv @ [e]"
  "srv_log (PushNetworkEvent srv e) = srv_log srv"
  "srv_architectureType (PushNetworkEvent srv e) = srv_architectureType srv"
  "srv_running (PushNetworkEvent srv e) = srv_running srv"
  "srv_sessionIdCounter (PushNetworkEvent srv e) = srv_sessionIdCounter srv"
  "srv_sessions (PushNetworkEvent srv e) = srv_sessions srv"
  by (simp_all add: PushNetworkEvent_def Push_def)

lemma session_ok_update [simp]:
  "session_ok (s\<lparr>cs_valid := v\<rparr>) = session_ok s"
  "session_ok (s\<lparr>cs_sending := v\<rparr>) = session_ok s"
  "session_ok (s\<lparr>cs_socket := k\<rparr>) = session_ok s"
  by (simp_all add: session_ok_def)

lemma session_ok_queues:
  "session_ok s \<Longrightarrow> rb_ok q \<Longrightarrow> rb_capacity q = 65536 \<Longrightarrow> session_ok (s\<lparr>cs_recvQ := q\<rparr>)"
  "session_ok s \<Longrightarrow> rb_ok q \<Longrightarrow> rb_capacity q = 65536 \<Longrightarrow> session_ok (s\<lparr>cs_sendQ := q\<rparr>)"
  by (simp_all add: session_ok_def)

lemma restamp_overlapped [simp]:
  "session_ok s \<Longrightarrow> s\<lparr>cs_sendOverlapped := \<lparr>ov_sessionId = cs_sessionId s, ov_operation = SEND\<rparr>\<rparr> = s"
  "session_ok s \<Longrightarrow> s\<lparr>cs_recvOverlapped := \<lparr>ov_sessionId = cs_sessionId s, ov_operation = RECV\<rparr>\<rparr> = s"
  by (simp_all add: session_ok_def)

lemma Initialize_ok:
  assumes "session_ok s"
  shows "\<exists>s'. Initialize s k sid = Inr s' \<and> session_ok s' \<and> cs_socket s' = k \<and> cs_sessionId s' = sid \<and>
    cs_valid s' \<and> \<not> cs_sending s' \<and> contents (cs_recvQ s') = [] \<and> contents (cs_sendQ s') = []"
  using assms by (simp add: Initialize_def session_ok_def Clear_ok)

lemma CSession_new_ok:
  assumes "alloc 65536 = Some mem" "length mem = 65536"
  shows "\<exists>s. CSession_new alloc = Inr s \<and> session_ok s \<and> cs_valid s \<and> cs_sessionId s = 0 \<and>
    cs_socket s = INVALID_SOCKET \<and> \<not> cs_sending s \<and> contents (cs_recvQ s) = [] \<and> contents (cs_sendQ s) = []"
proof -
  have r: "rb_ok (CRingBufferT alloc NoLock 65536)" "rb_ok (CRingBufferT alloc (MutexLock False) 65536)"
    using assms CRingBufferT_ok [of alloc 65536 mem NoLock] CRingBufferT_ok [of alloc 65536 mem "MutexLock False"]
    by simp_all
  have c: "rb_capacity (CRingBufferT alloc p 65536) = 65536" for p
    by (simp add: CRingBufferT_def)
  show ?thesis
    by (simp add: CSession_new_def Initialize_def session_ok_def r c Clear_ok)
qed

section \<open>Disconnection\<close>

text \<open>The session after its disconnection, and the server around it.\<close>

definition closed_session :: "CSession \<Rightarrow> CSession" where
  "closed_session s = s\<lparr>cs_valid := False, cs_socket := INVALID_SOCKET, cs_sending := False\<rparr>"

lemma closed_session_simps [simp]:
  "cs_valid (closed_session s) = False" "cs_sessionId (closed_session s) = cs_sessionId s"
  "cs_recvQ (closed_session s) = cs_recvQ s" "cs_sendQ (closed_session s) = cs_sendQ s"
  "cs_socket (closed_session s) = INVALID_SOCKET" "session_ok (closed_session s) = session_ok s"
  by (simp_all add: closed_session_def session_ok_def)

definition disconnected :: "CIOCPServer \<Rightarrow> nat \<Rightarrow> CSession \<Rightarrow> CIOCPServer" where
  "disconnected srv i s =
     (let srv = (if cs_socket s \<noteq> INVALID_SOCKET then syscall (OsCloseSocket (cs_socket s)) srv else srv);
          srv = set_session srv i (closed_session s);
          srv = srv\<lparr>srv_pendingDisconStack := cs_sessionId s # srv_pendingDisconStack srv\<rparr>
      in if srv_architectureType srv = Centralized
         then PushNetworkEvent srv \<lparr>ev_type = DISCONNECTED, ev_sessionId = cs_sessionId s, ev_data = []\<rparr>
         else srv)"

lemma Disconnect_valid:
  assumes "session_at srv i = Some s" "cs_valid s"
  shows "DisconnectSessionInternal srv i = (True, disconnected srv i s)"
proof -
  have s: "s\<lparr>cs_valid := False, cs_sending := False\<rparr> = closed_session s" if "cs_socket s = INVALID_SOCKET"
    using that by (cases s) (simp add: closed_session_def)
  note defs = DisconnectSessionInternal_def disconnected_def Close_def Let_def set_session_syscall
  show ?thesis
  proof (cases "cs_socket s = INVALID_SOCKET")
    case True
    then show ?thesis
      using assms session_at_Some_less [OF assms(1)]
      by (simp add: defs s split: ServerArchitectureType.splits)
  next
    case False
    then show ?thesis
      using assms session_at_Some_less [OF assms(1)]
      by (simp add: defs closed_session_def split: ServerArchitectureType.splits)
  qed
qed

lemma Disconnect_invalid:
  assumes "\<And>s. session_at srv i = Some s \<Longrightarrow> \<not> cs_valid s"
  shows "DisconnectSessionInternal srv i = (False, srv)"
  using assms by (auto simp: DisconnectSessionInternal_def split: option.splits)

lemma disconnected_frame [simp]:
  "srv_availableIndices (disconnected srv i s) = srv_availableIndices srv"
  "srv_pendingDisconStack (disconnected srv i s) = cs_sessionId s # srv_pendingDisconStack srv"
  "srv_architectureType (disconnected srv i s) = srv_architectureType srv"
  "srv_sessionIdCounter (disconnected srv i s) = srv_sessionIdCounter srv"
  "srv_running (disconnected srv i s) = srv_running srv"
  "length (srv_sessions (disconnected srv i s)) = length (srv_sessions srv)"
  by (simp_all add: disconnected_def Let_def)

lemma session_at_disconnected [simp]:
  "session_at (disconnected srv i s) j =
     (if i = j \<and> j < length (srv_sessions srv) then Some (closed_session s) else session_at srv j)"
  by (auto simp: disconnected_def Let_def)

lemma srv_eventQueue_disconnected [simp]:
  "srv_eventQueue (disconnected srv i s) = srv_eventQueue srv @
     (if srv_architectureType srv = Centralized
      then [\<lparr>ev_type = DISCONNECTED, ev_sessionId = cs_sessionId s, ev_data = []\<rparr>] else [])"
  by (simp add: disconnected_def Let_def)

lemma srv_ok_disconnected: "srv_ok srv \<Longrightarrow> session_ok s \<Longrightarrow> srv_ok (disconnected srv i s)"
  by (auto simp: srv_ok_iff)

lemma srv_ok_Disconnect: "srv_ok srv \<Longrightarrow> srv_ok (snd (DisconnectSessionInternal srv i))"
proof -
  assume ok: "srv_ok srv"
  show ?thesis
  proof (cases "\<exists>s. session_at srv i = Some s \<and> cs_valid s")
    case True
    with ok show ?thesis by (auto simp: Disconnect_valid srv_ok_disconnected srv_ok_at)
  next
    case False
    with ok show ?thesis by (simp add: Disconnect_invalid)
  qed
qed

section \<open>Lookup\<close>

lemma FindSession_Some:
  "FindSession srv sid = Some i \<longleftrightarrow> i = unat (ExtractIndex sid) \<and>
     (\<exists>s. session_at srv i = Some s \<and> ExtractUniqueId (cs_sessionId s) = ExtractUniqueId sid)"
  by (auto simp: FindSession_def session_at_def Let_def not_less split: option.splits)

end
