(* ===== verification/IOCPTransfer.thy ===== *)
theory IOCPTransfer
  imports IOCPServer
begin

text \<open>
  Data transfer of \<open>CIOCPServer\<close>: posting sends and receives, their completions, packet
  extraction and the body of the worker thread (\<open>IOCPServer.cpp\<close>, from \<open>WorkerThread\<close>
  to \<open>EchoTestSend\<close>).
\<close>

section \<open>Memory the kernel reads and writes\<close>

definition ring_mem :: "ring_buffer \<Rightarrow> byte list" where
  "ring_mem rb = (case rb_buffer rb of None \<Rightarrow> [] | Some mem \<Rightarrow> mem)"

text \<open>\<open>WSASend\<close> reads the buffers in order, \<open>WSARecv\<close> fills them in order.\<close>

fun gather :: "byte list \<Rightarrow> WSABUF list \<Rightarrow> byte list res" where
  "gather mem [] = Inr []"
| "gather mem (b # bs) =
     (if unat (wb_buf b) + unat (wb_len b) \<le> length mem
      then andThen (gather mem bs) (\<lambda>rest.
             Inr (take (unat (wb_len b)) (drop (unat (wb_buf b)) mem) @ rest))
      else Inl OutOfBounds)"

fun kernel_fill :: "byte list \<Rightarrow> WSABUF list \<Rightarrow> byte list \<Rightarrow> byte list res" where
  "kernel_fill mem [] xs = (if xs = [] then Inr mem else Inl OutOfBounds)"
| "kernel_fill mem (b # bs) xs =
     andThen (memcpy mem (unat (wb_buf b)) xs 0 (min (unat (wb_len b)) (length xs))) (\<lambda>mem.
       kernel_fill mem bs (drop (unat (wb_len b)) xs))"

section \<open>Sending\<close>

text \<open>The \<open>WSABUF\<close> array that \<open>PostSend\<close> and \<open>ProcessSend\<close> fill from one \<open>SendInfo\<close>.\<close>

definition send_bufs :: "SendInfo \<Rightarrow> WSABUF list" where
  "send_bufs info =
     (if si_directReadSize info > 0
      then \<lparr>wb_buf = si_readPtr info, wb_len = ucast (si_directReadSize info)\<rparr> #
           (if si_dataSize info > si_directReadSize info
            then [\<lparr>wb_buf = 0, wb_len = ucast (si_dataSize info - si_directReadSize info)\<rparr>]
            else [])
      else [])"

text \<open>The call of \<open>WSASend\<close> and its error branch.\<close>

definition start_send :: "os \<Rightarrow> CIOCPServer \<Rightarrow> nat \<Rightarrow> WSABUF list \<Rightarrow> CIOCPServer res" where
  "start_send os srv i bufs =
     andThen (deref srv i) (\<lambda>s.
     andThen (gather (ring_mem (cs_sendQ s)) bufs) (\<lambda>data.
     let srv = syscall (OsSend (cs_socket s) data) srv in
     if os_result os srv \<noteq> 0
     then Inr (snd (DisconnectSessionInternal (set_session srv i (s\<lparr>cs_sending := False\<rparr>)) i))
     else Inr srv))"

definition PostSend :: "os \<Rightarrow> CIOCPServer \<Rightarrow> nat \<Rightarrow> CIOCPServer res" where
  "PostSend os srv i =
     (case session_at srv i of
        None \<Rightarrow> Inr srv
      | Some s \<Rightarrow>
          if \<not> cs_valid s then Inr srv
          else if cs_sending s then Inr srv
          else
            let s = s\<lparr>cs_sending := True\<rparr> in
            andThen (GetSendInfo (cs_sendQ s)) (\<lambda>(info, q).
            let s = s\<lparr>cs_sendQ := q\<rparr> in
            if si_dataSize info = 0 then Inr (set_session srv i (s\<lparr>cs_sending := False\<rparr>))
            else
              let s = s\<lparr>cs_sendOverlapped := \<lparr>ov_sessionId = cs_sessionId s, ov_operation = SEND\<rparr>\<rparr>;
                  bufs = send_bufs info in
              if bufs = [] then Inr (set_session srv i (s\<lparr>cs_sending := False\<rparr>))
              else if wb_len (bufs ! 0) = 0 \<and> (1 < length bufs \<longrightarrow> wb_len (bufs ! 1) = 0)
              then Inr (set_session srv i (s\<lparr>cs_sending := False\<rparr>))
              else start_send os (set_session srv i s) i bufs))"

definition ProcessSend :: "os \<Rightarrow> CIOCPServer \<Rightarrow> nat \<Rightarrow> 32 word \<Rightarrow> CIOCPServer res" where
  "ProcessSend os srv i bytesTransferred =
     (case session_at srv i of
        None \<Rightarrow> Inr srv
      | Some s \<Rightarrow>
          if \<not> cs_valid s then Inr srv
          else
            andThen (Consume (cs_sendQ s) (ucast bytesTransferred)) (\<lambda>(consumed, q).
            let s = s\<lparr>cs_sendQ := q\<rparr>; srv = set_session srv i s in
            if consumed \<noteq> ucast bytesTransferred
            then Inr (snd (DisconnectSessionInternal srv i))
            else
              andThen (GetSendInfo (cs_sendQ s)) (\<lambda>(info, q).
              let s = s\<lparr>cs_sendQ := q\<rparr>;
                  s = (if si_dataSize info > 0
                       then s\<lparr>cs_sendOverlapped := \<lparr>ov_sessionId = cs_sessionId s, ov_operation = SEND\<rparr>\<rparr>
                       else s);
                  srv = set_session srv i s in
              if si_dataSize info > 0 \<and> send_bufs info \<noteq> []
              then start_send os srv i (send_bufs info)
              else
                let s = s\<lparr>cs_sending := False\<rparr> in
                andThen (GetDataSize (cs_sendQ s)) (\<lambda>(dataSize, q).
                let srv = set_session srv i (s\<lparr>cs_sendQ := q\<rparr>) in
                if dataSize > 0 then PostSend os srv i else Inr srv))))"

text \<open>\<open>int length\<close> is converted to \<open>size_t\<close> where it meets the queue's sizes.\<close>

definition RequestSendMsg ::
  "os \<Rightarrow> CIOCPServer \<Rightarrow> int64_t \<Rightarrow> byte list \<Rightarrow> int32_t \<Rightarrow> CIOCPServer res" where
  "RequestSendMsg os srv sessionId data len =
     (case FindSession srv sessionId of
        None \<Rightarrow> Inr srv
      | Some i \<Rightarrow>
          andThen (deref srv i) (\<lambda>s.
          if \<not> cs_valid s then Inr srv
          else
            andThen (Enqueue (cs_sendQ s) (Some data) (scast len)) (\<lambda>(enqueued, q).
            let srv = set_session srv i (s\<lparr>cs_sendQ := q\<rparr>) in
            if enqueued \<noteq> scast len
            then Inr (snd (DisconnectSessionInternal srv i))
            else PostSend os srv i)))"

definition EchoTestSend :: "os \<Rightarrow> CIOCPServer \<Rightarrow> nat \<Rightarrow> byte list \<Rightarrow> size_t \<Rightarrow> CIOCPServer res" where
  "EchoTestSend os srv i data len =
     andThen (deref srv i) (\<lambda>s. RequestSendMsg os srv (cs_sessionId s) data (ucast len))"

section \<open>Receiving\<close>

text \<open>The \<open>WSABUF\<close> array of \<open>PostRecv\<close>: the free part of the receive queue.\<close>

definition recv_bufs :: "size_t \<Rightarrow> size_t \<Rightarrow> size_t \<Rightarrow> WSABUF list" where
  "recv_bufs writePtr directWriteSize freeSize =
     (if directWriteSize > 0
      then \<lparr>wb_buf = writePtr, wb_len = ucast directWriteSize\<rparr> #
           (if freeSize > directWriteSize
            then [\<lparr>wb_buf = 0, wb_len = ucast (freeSize - directWriteSize)\<rparr>]
            else [])
      else [])"

definition PostRecv :: "os \<Rightarrow> CIOCPServer \<Rightarrow> nat \<Rightarrow> CIOCPServer res" where
  "PostRecv os srv i =
     (case session_at srv i of
        None \<Rightarrow> Inr srv
      | Some s \<Rightarrow>
          if \<not> cs_valid s then Inr srv
          else
            let s = s\<lparr>cs_recvOverlapped := \<lparr>ov_sessionId = cs_sessionId s, ov_operation = RECV\<rparr>\<rparr> in
            andThen (GetWritePtr (cs_recvQ s)) (\<lambda>(writePtr, q).
            andThen (GetDirectWriteSize q) (\<lambda>(directWriteSize, q).
            andThen (GetFreeSize q) (\<lambda>(freeSize, q).
            let s = s\<lparr>cs_recvQ := q\<rparr>; srv = set_session srv i s;
                bufs = recv_bufs writePtr directWriteSize freeSize in
            if bufs = [] then Inr (snd (DisconnectSessionInternal srv i))
            else
              let srv = syscall (OsRecv (cs_socket s) bufs) srv in
              if os_result os srv \<noteq> 0 then Inr (snd (DisconnectSessionInternal srv i))
              else Inr srv))))"

definition MAX_PACKET_SIZE :: size_t where
  "MAX_PACKET_SIZE = 65536"

text \<open>\<open>struct MsgHeader\<close> of the server's \<open>Protocol.h\<close>: its only member is \<open>uint16_t size\<close>.\<close>

definition sizeof_MsgHeader :: nat where
  "sizeof_MsgHeader = 2"

definition MIN_PACKET_SIZE :: size_t where
  "MIN_PACKET_SIZE = of_nat sizeof_MsgHeader"

datatype loop_exit = Continue | Break | Return

text \<open>One turn of the loop of \<open>ParsePackets\<close> and how it is left.\<close>

definition parse_step :: "os \<Rightarrow> CIOCPServer \<Rightarrow> nat \<Rightarrow> (loop_exit \<times> CIOCPServer) res" where
  "parse_step os srv i =
     andThen (deref srv i) (\<lambda>s.
     andThen (GetDataSize (cs_recvQ s)) (\<lambda>(dataSize, q).
     let s = s\<lparr>cs_recvQ := q\<rparr>; srv = set_session srv i s in
     if dataSize < of_nat sizeof_MsgHeader then Inr (Break, srv)
     else
       andThen (Peek (cs_recvQ s) (Some (replicate sizeof_MsgHeader 0)) (of_nat sizeof_MsgHeader))
         (\<lambda>(peekedSize, header, q).
       let s = s\<lparr>cs_recvQ := q\<rparr>; srv = set_session srv i s in
       if peekedSize \<noteq> of_nat sizeof_MsgHeader then Inr (Break, srv)
       else
         andThen (read16 (the header) 0) (\<lambda>hsize.
         let hsize = (if srv_architectureType srv = EchoTest
                      then hsize + of_nat sizeof_MsgHeader else hsize);
             packetSize = (ucast hsize :: size_t) in
         if packetSize < MIN_PACKET_SIZE \<or> packetSize > MAX_PACKET_SIZE
         then Inr (Return, snd (DisconnectSessionInternal srv i))
         else if dataSize < packetSize then Inr (Break, srv)
         else
           andThen (Dequeue (cs_recvQ s) (Some (replicate (unat packetSize) 0)) packetSize)
             (\<lambda>(dequeuedSize, packet, q).
           let s = s\<lparr>cs_recvQ := q\<rparr>; srv = set_session srv i s in
           if dequeuedSize \<noteq> packetSize
           then Inr (Return, snd (DisconnectSessionInternal srv i))
           else
             (case srv_architectureType srv of
                EchoTest \<Rightarrow>
                  andThen (EchoTestSend os srv i (the packet) packetSize) (\<lambda>srv. Inr (Continue, srv))
              | Centralized \<Rightarrow>
                  Inr (Continue, PushNetworkEvent srv
                    \<lparr>ev_type = RECEIVED, ev_sessionId = cs_sessionId s, ev_data = the packet\<rparr>)
              | _ \<Rightarrow> Inr (Continue, srv)))))))"

fun parse_loop :: "nat \<Rightarrow> os \<Rightarrow> CIOCPServer \<Rightarrow> nat \<Rightarrow> CIOCPServer res" where
  "parse_loop 0 os srv i = Inl OutOfFuel"
| "parse_loop (Suc fuel) os srv i =
     andThen (parse_step os srv i) (\<lambda>(exit, srv).
     case exit of Continue \<Rightarrow> parse_loop fuel os srv i | _ \<Rightarrow> Inr srv)"

text \<open>
  Every turn that continues takes a packet of at least two bytes out of the queue, so the
  number of queued bytes bounds the number of turns.
\<close>

definition ParsePackets :: "os \<Rightarrow> CIOCPServer \<Rightarrow> nat \<Rightarrow> CIOCPServer res" where
  "ParsePackets os srv i =
     andThen (deref srv i) (\<lambda>s.
     parse_loop (Suc (unat (GetDataSize_Internal (cs_recvQ s)))) os srv i)"

definition ProcessRecv :: "os \<Rightarrow> CIOCPServer \<Rightarrow> nat \<Rightarrow> 32 word \<Rightarrow> CIOCPServer res" where
  "ProcessRecv os srv i bytesTransferred =
     (if bytesTransferred = 0 then Inr (snd (DisconnectSessionInternal srv i))
      else
        andThen (deref srv i) (\<lambda>s.
        andThen (MoveWritePtr (cs_recvQ s) (ucast bytesTransferred)) (\<lambda>(movedSize, q).
        let srv = set_session srv i (s\<lparr>cs_recvQ := q\<rparr>) in
        if movedSize \<noteq> ucast bytesTransferred
        then Inr (snd (DisconnectSessionInternal srv i))
        else
          andThen (ParsePackets os srv i) (\<lambda>srv. PostRecv os srv i))))"

section \<open>Completions\<close>

text \<open>A pointer to the \<open>OverlappedEx\<close> member of the session in a slot.\<close>

datatype ov_pointer = RecvOv nat | SendOv nat

fun read_overlapped :: "CIOCPServer \<Rightarrow> ov_pointer \<Rightarrow> OverlappedEx res" where
  "read_overlapped srv (RecvOv j) = andThen (deref srv j) (\<lambda>s. Inr (cs_recvOverlapped s))"
| "read_overlapped srv (SendOv j) = andThen (deref srv j) (\<lambda>s. Inr (cs_sendOverlapped s))"

text \<open>What \<open>GetQueuedCompletionStatus\<close> returns.\<close>

record completion =
  cp_result :: bool
  cp_bytes :: "32 word"
  cp_key :: "nat option"
  cp_overlapped :: "ov_pointer option"

text \<open>The body of the loop of \<open>WorkerThread\<close> for one completion.\<close>

definition worker_step :: "os \<Rightarrow> CIOCPServer \<Rightarrow> completion \<Rightarrow> CIOCPServer res" where
  "worker_step os srv c =
     (if \<not> srv_running srv then Inr srv
      else if \<not> cp_result c \<or> cp_bytes c = 0
      then (case cp_overlapped c of
              None \<Rightarrow> Inr srv
            | Some _ \<Rightarrow>
                (case cp_key c of
                   None \<Rightarrow> Inr srv
                 | Some i \<Rightarrow> Inr (snd (DisconnectSessionInternal srv i))))
      else (case (cp_overlapped c, cp_key c) of
              (Some ov, Some i) \<Rightarrow>
                andThen (deref srv i) (\<lambda>s.
                if \<not> cs_valid s then Inr srv
                else
                  andThen (read_overlapped srv ov) (\<lambda>overlappedEx.
                  if ov_sessionId overlappedEx \<noteq> cs_sessionId s then Inr srv
                  else (case ov_operation overlappedEx of
                          RECV \<Rightarrow> ProcessRecv os srv i (cp_bytes c)
                        | SEND \<Rightarrow> ProcessSend os srv i (cp_bytes c)
                        | ACCEPT \<Rightarrow> Inr srv)))
            | _ \<Rightarrow> Inr srv))"

end
