(* ===== verification/TransferSpec.thy ===== *)
theory TransferSpec
  imports IOCPTransfer
begin

text \<open>
  What the transfer operations of \<open>IOCPTransfer\<close> do on a server with well-formed sessions:
  one equation per operation over the abstract contents of the queues, and the framing of
  the byte stream into packets.
\<close>

section \<open>The buffers handed to the kernel\<close>

definition send_info :: "ring_buffer \<Rightarrow> SendInfo" where
  "send_info rb = \<lparr>si_readPtr = rb_readPos rb, si_dataSize = GetDataSize_Internal rb,
     si_directReadSize = direct_read_size rb\<rparr>"

lemma GetSendInfo_unlocked: "unlocked rb \<Longrightarrow> GetSendInfo rb = Inr (send_info rb, rb)"
  unfolding GetSendInfo_def send_info_def by (rule with_lock_unlocked) simp_all

lemma unat_ucast_32: "unat (x :: size_t) < 2 ^ 32 \<Longrightarrow> unat (ucast x :: 32 word) = unat x"
  by (simp add: unsigned_ucast_eq take_bit_nat_eq_self)

lemma unat_ucast_64:
  assumes "LENGTH('w) \<le> 64"
  shows "unat (ucast (x :: 'w::len word) :: size_t) = unat x"
proof -
  have "unat x < 2 ^ LENGTH('w)" by (rule unsigned_less)
  also have "\<dots> \<le> 2 ^ 64" using assms by (intro power_increasing) simp_all
  finally show ?thesis by (simp add: unsigned_ucast_eq take_bit_nat_eq_self)
qed

lemma gather_contents:
  assumes ok: "rb_ok rb" and small: "unat (rb_capacity rb) < 2 ^ 32"
  shows "gather (ring_mem rb) (send_bufs (send_info rb)) = Inr (contents rb)"
    and "send_bufs (send_info rb) = [] \<longleftrightarrow> contents rb = []"
    and "contents rb \<noteq> [] \<Longrightarrow> wb_len (send_bufs (send_info rb) ! 0) \<noteq> 0"
proof -
  let ?r = "unat (rb_readPos rb)" and ?c = "unat (rb_capacity rb)" and ?n = "length (contents rb)"
  from ok obtain buf where b: "rb_buffer rb = Some buf" "length buf = ?c" "?r < ?c"
      "unat (rb_writePos rb) < ?c" "contents rb = ring_list buf ?r (unat (rb_writePos rb))"
    by (auto elim!: rb_okE)
  have n: "?n < ?c" using ok by (rule length_contents_less)
  have d: "unat (direct_read_size rb) = min ?n (?c - ?r)"
    using ok by (rule unat_direct_read_size)
  have d32: "unat (ucast (direct_read_size rb) :: 32 word) = min ?n (?c - ?r)"
    using d n small by (subst unat_ucast_32) auto
  have rest: "unat (GetDataSize_Internal rb - direct_read_size rb) = ?n - min ?n (?c - ?r)"
    using d unat_data_size [OF ok] by (simp add: unat_sub_le)
  then have rest32: "unat (ucast (GetDataSize_Internal rb - direct_read_size rb) :: 32 word) = ?n - min ?n (?c - ?r)"
    using n small by (subst unat_ucast_32) auto
  have all: "take ?n (contents rb) = (if ?n \<le> ?c - ?r then take ?n (drop ?r buf) else drop ?r buf @ take (?n - (?c - ?r)) buf)"
    using b(2-4) unfolding b(5) by (subst take_ring_list) auto
  have pos: "direct_read_size rb > 0 \<longleftrightarrow> 0 < ?n"
    using d b by (simp add: word_less_nat_alt)
  have more: "GetDataSize_Internal rb > direct_read_size rb \<longleftrightarrow> ?c - ?r < ?n"
    using d unat_data_size [OF ok] by (simp add: word_less_nat_alt min_def)
  show "send_bufs (send_info rb) = [] \<longleftrightarrow> contents rb = []"
    using pos by (simp add: send_bufs_def send_info_def)
  show "contents rb \<noteq> [] \<Longrightarrow> wb_len (send_bufs (send_info rb) ! 0) \<noteq> 0"
    using pos d32 b by (auto simp: send_bufs_def send_info_def unat_eq_zero [symmetric])
  show "gather (ring_mem rb) (send_bufs (send_info rb)) = Inr (contents rb)"
  proof (cases "?c - ?r < ?n")
    case True
    moreover have "?n - (?c - ?r) \<le> ?c" using n by linarith
    ultimately show ?thesis
      using pos more d32 rest32 n b all
      by (simp add: send_bufs_def send_info_def ring_mem_def min_def)
  next
    case False
    then show ?thesis
      using pos more d32 b all
      by (cases "?n = 0") (simp_all add: send_bufs_def send_info_def ring_mem_def min_def)
  qed
qed

lemma kernel_fill_scatter:
  assumes ok: "rb_ok rb" and small: "unat (rb_capacity rb) < 2 ^ 32" and fits: "length xs \<le> room rb"
  shows "0 < room rb \<Longrightarrow> kernel_fill (ring_mem rb)
      (recv_bufs (rb_writePos rb) (direct_write_size rb) (GetFreeSize_Internal rb)) xs =
      Inr (ring_mem (scatter rb xs))"
    and "recv_bufs (rb_writePos rb) (direct_write_size rb) (GetFreeSize_Internal rb) = [] \<longleftrightarrow> room rb = 0"
proof -
  let ?w = "unat (rb_writePos rb)" and ?c = "unat (rb_capacity rb)" and ?n = "room rb" and ?l = "length xs"
  let ?bufs = "recv_bufs (rb_writePos rb) (direct_write_size rb) (GetFreeSize_Internal rb)"
  from ok obtain buf where b: "rb_buffer rb = Some buf" "length buf = ?c" "?w < ?c"
    by (auto elim!: rb_okE)
  have n: "?n < ?c" using ok by (rule room_less)
  have d: "unat (direct_write_size rb) = min ?n (?c - ?w)"
    using ok by (rule unat_direct_write_size)
  have d32: "unat (ucast (direct_write_size rb) :: 32 word) = min ?n (?c - ?w)"
    using d n small by (subst unat_ucast_32) auto
  have "unat (GetFreeSize_Internal rb - direct_write_size rb) = ?n - min ?n (?c - ?w)"
    using d unat_free_size [OF ok] by (simp add: unat_sub_le)
  then have rest32: "unat (ucast (GetFreeSize_Internal rb - direct_write_size rb) :: 32 word) = ?n - min ?n (?c - ?w)"
    using n small by (subst unat_ucast_32) auto
  have pos: "direct_write_size rb > 0 \<longleftrightarrow> 0 < ?n"
    using d b by (simp add: word_less_nat_alt)
  have more: "GetFreeSize_Internal rb > direct_write_size rb \<longleftrightarrow> ?c - ?w < ?n"
    using d unat_free_size [OF ok] by (simp add: word_less_nat_alt min_def)
  show "?bufs = [] \<longleftrightarrow> ?n = 0"
    using pos by (simp add: recv_bufs_def)
  assume room: "0 < ?n"
  show "kernel_fill (ring_mem rb) ?bufs xs = Inr (ring_mem (scatter rb xs))"
  proof (cases "?c - ?w < ?n")
    case False
    then have "min ?n (?c - ?w) = ?n" by simp
    then show ?thesis
      using False room pos more d32 fits b n
      by (simp add: recv_bufs_def ring_mem_def scatter_def memcpy_ok ring_write_short)
  next
    case True
    then have m: "min ?n (?c - ?w) = ?c - ?w" by simp
    show ?thesis
    proof (cases "?l \<le> ?c - ?w")
      case short: True
      then show ?thesis
        using True m room pos more d32 rest32 fits b n
        by (simp add: recv_bufs_def ring_mem_def scatter_def memcpy_ok ring_write_short)
    next
      case long: False
      have len: "?l < length buf" using fits n b by simp
      have "kernel_fill (ring_mem rb) ?bufs xs =
          andThen (memcpy buf ?w xs 0 (?c - ?w)) (\<lambda>mem.
          andThen (memcpy mem 0 (drop (?c - ?w) xs) 0 (?l - (?c - ?w))) (\<lambda>mem.
          if drop (?n - (?c - ?w)) (drop (?c - ?w) xs) = [] then Inr mem else Inl OutOfBounds))"
        using True m long room pos more d32 rest32 fits b by (simp add: recv_bufs_def ring_mem_def)
      moreover have "memcpy mem 0 (drop (?c - ?w) xs) 0 (?l - (?c - ?w)) = memcpy mem 0 xs (?c - ?w) (?l - (?c - ?w))"
        for mem :: "byte list"
        using long by (simp add: memcpy_def)
      ultimately show ?thesis
        using two_copies [of ?w buf ?l xs] b long len fits True
        by (simp add: ring_mem_def scatter_def)
    qed
  qed
qed

section \<open>Sending\<close>

lemma session_small: "session_ok s \<Longrightarrow> unat (rb_capacity (cs_sendQ s)) < 2 ^ 32"
  "session_ok s \<Longrightarrow> unat (rb_capacity (cs_recvQ s)) < 2 ^ 32"
  by (simp_all add: session_ok_def)

lemma session_rings: "session_ok s \<Longrightarrow> rb_ok (cs_sendQ s)" "session_ok s \<Longrightarrow> rb_ok (cs_recvQ s)"
  "session_ok s \<Longrightarrow> unlocked (cs_sendQ s)" "session_ok s \<Longrightarrow> unlocked (cs_recvQ s)"
  by (simp_all add: session_ok_def unlocked_ok)

text \<open>\<open>WSASend\<close> of the whole queue of session \<open>s\<close> in slot \<open>i\<close>.\<close>

definition posted_send :: "os \<Rightarrow> CIOCPServer \<Rightarrow> nat \<Rightarrow> CSession \<Rightarrow> CIOCPServer" where
  "posted_send os srv i s =
     (let srv1 = syscall (OsSend (cs_socket s) (contents (cs_sendQ s))) (set_session srv i s) in
      if os_result os srv1 \<noteq> 0
      then snd (DisconnectSessionInternal (set_session srv1 i (s\<lparr>cs_sending := False\<rparr>)) i)
      else srv1)"

lemma start_send_eq:
  assumes "session_at srv i = Some s" "session_ok s"
  shows "start_send os srv i (send_bufs (send_info (cs_sendQ s))) = Inr (posted_send os srv i s)"
  using assms gather_contents(1) [OF session_rings(1) session_small(1), OF assms(2) assms(2)]
  by (simp add: start_send_def posted_send_def set_session_same Let_def)

lemma PostSend_eq:
  assumes at: "session_at srv i = Some s" and ok: "session_ok s"
  shows "PostSend os srv i =
    Inr (if \<not> cs_valid s \<or> cs_sending s \<or> contents (cs_sendQ s) = [] then srv
         else posted_send os srv i (s\<lparr>cs_sending := True\<rparr>))"
proof -
  have ds: "GetDataSize_Internal (cs_sendQ s) = 0 \<longleftrightarrow> contents (cs_sendQ s) = []"
    using unat_data_size [OF session_rings(1) [OF ok]] by (simp add: unat_eq_zero [symmetric])
  have ok': "session_ok (s\<lparr>cs_sending := True\<rparr>)" using ok by simp
  have same: "set_session srv i (s\<lparr>cs_sending := False\<rparr>) = srv" if "\<not> cs_sending s"
    using that at by (cases s) (simp add: set_session_same)
  have send: "start_send os (set_session srv i (s\<lparr>cs_sending := True\<rparr>)) i (send_bufs (send_info (cs_sendQ s)))
      = Inr (posted_send os srv i (s\<lparr>cs_sending := True\<rparr>))"
    using at ok start_send_eq [of "set_session srv i (s\<lparr>cs_sending := True\<rparr>)" i "s\<lparr>cs_sending := True\<rparr>" os]
      session_at_Some_less [OF at]
    by (simp add: posted_send_def)
  have stamp: "s\<lparr>cs_sending := True, cs_sendOverlapped := \<lparr>ov_sessionId = cs_sessionId s, ov_operation = SEND\<rparr>\<rparr>
      = s\<lparr>cs_sending := True\<rparr>"
    using restamp_overlapped(1) [OF ok'] by simp
  note g = gather_contents(2,3) [OF session_rings(1) session_small(1), OF ok ok]
  have si: "si_dataSize (send_info (cs_sendQ s)) = GetDataSize_Internal (cs_sendQ s)"
    by (simp add: send_info_def)
  show ?thesis
  proof (cases "\<not> cs_valid s \<or> cs_sending s \<or> contents (cs_sendQ s) = []")
    case True
    then show ?thesis
      using at same
      by (auto simp: PostSend_def GetSendInfo_unlocked session_rings [OF ok] ds si)
  next
    case False
    then show ?thesis
      using at send stamp g
      by (simp add: PostSend_def GetSendInfo_unlocked session_rings [OF ok] ds si Let_def)
  qed
qed

lemma RequestSendMsg_eq:
  fixes len :: int32_t
  defines "n \<equiv> scast len :: size_t"
  assumes find: "FindSession srv sid = Some i" and at: "session_at srv i = Some s"
    and ok: "session_ok s" and v: "cs_valid s"
    and mem: "unat n \<le> room (cs_sendQ s) \<Longrightarrow> unat n \<le> length data"
  shows "RequestSendMsg os srv sid data len =
    (if unat n \<le> room (cs_sendQ s)
     then PostSend os (set_session srv i
            (if n = 0 then s else s\<lparr>cs_sendQ := write_bytes (cs_sendQ s) (take (unat n) data)\<rparr>)) i
     else Inr (disconnected srv i s))"
proof -
  have e: "Enqueue (cs_sendQ s) (Some data) n =
      Inr (if n \<noteq> 0 \<and> unat n \<le> room (cs_sendQ s)
           then (n, write_bytes (cs_sendQ s) (take (unat n) data)) else (0, cs_sendQ s))"
    using session_rings(1) [OF ok] mem by (rule Enqueue_ok)
  show ?thesis
  proof (cases "unat n \<le> room (cs_sendQ s)")
    case True
    then show ?thesis
      using find at v e by (auto simp: RequestSendMsg_def n_def [symmetric])
  next
    case False
    then have "n \<noteq> 0" by auto
    with False show ?thesis
      using find at v e
      by (simp add: RequestSendMsg_def n_def [symmetric] set_session_same Disconnect_valid)
  qed
qed

lemma ProcessSend_eq:
  fixes bytes :: "32 word"
  assumes at: "session_at srv i = Some s" and ok: "session_ok s"
  shows "ProcessSend os srv i bytes =
    Inr (if \<not> cs_valid s then srv
         else if length (contents (cs_sendQ s)) < unat bytes then disconnected srv i s
         else
           let s' = (if bytes = 0 then s else s\<lparr>cs_sendQ := drop_bytes (cs_sendQ s) (unat bytes)\<rparr>) in
           if contents (cs_sendQ s') \<noteq> [] then posted_send os srv i s'
           else set_session srv i (s'\<lparr>cs_sending := False\<rparr>))"
proof (cases "cs_valid s")
  case False
  then show ?thesis using at by (simp add: ProcessSend_def)
next
  case v: True
  let ?n = "ucast bytes :: size_t"
  have n: "unat ?n = unat bytes" by (rule unat_ucast_64) simp
  have nz: "?n = 0 \<longleftrightarrow> bytes = 0" using n by (metis unat_eq_zero)
  have c: "Consume (cs_sendQ s) ?n =
      Inr (if ?n \<noteq> 0 \<and> unat ?n \<le> length (contents (cs_sendQ s))
           then (?n, drop_bytes (cs_sendQ s) (unat ?n)) else (0, cs_sendQ s))"
    using session_rings(1) [OF ok] by (rule Consume_ok)
  show ?thesis
  proof (cases "length (contents (cs_sendQ s)) < unat bytes")
    case True
    then have "bytes \<noteq> 0" by auto
    then show ?thesis
      using True at v c n nz by (simp add: ProcessSend_def set_session_same Disconnect_valid Let_def)
  next
    case False
    define s' where "s' = (if bytes = 0 then s else s\<lparr>cs_sendQ := drop_bytes (cs_sendQ s) (unat bytes)\<rparr>)"
    have s'ok: "session_ok s'"
      using ok False by (auto simp: s'_def session_ok_def drop_bytes_ok)
    have s'v: "cs_sessionId s' = cs_sessionId s" "cs_valid s'" using v by (auto simp: s'_def)
    have cc: "Consume (cs_sendQ s) ?n = Inr (?n, cs_sendQ s')"
      using c False n nz by (auto simp: s'_def)
    have stamp: "s'\<lparr>cs_sendOverlapped := \<lparr>ov_sessionId = cs_sessionId s, ov_operation = SEND\<rparr>\<rparr> = s'"
      using restamp_overlapped(1) [OF s'ok] s'v by simp
    have upd: "s\<lparr>cs_sendQ := cs_sendQ s'\<rparr> = s'" by (simp add: s'_def)
    have ds: "GetDataSize_Internal (cs_sendQ s') = 0 \<longleftrightarrow> contents (cs_sendQ s') = []"
      using unat_data_size [OF session_rings(1) [OF s'ok]] by (simp add: unat_eq_zero [symmetric])
    have at': "session_at (set_session srv i t) i = Some t" for t
      using session_at_Some_less [OF at] by simp
    note g = gather_contents(2) [OF session_rings(1) session_small(1), OF s'ok s'ok]
    note send = start_send_eq [OF at' s'ok, of os]
    have ps: "posted_send os (set_session srv i s') i s' = posted_send os srv i s'"
      by (simp add: posted_send_def)
    have si: "si_dataSize (send_info (cs_sendQ s')) = GetDataSize_Internal (cs_sendQ s')"
      by (simp add: send_info_def)
    have pos: "0 < GetDataSize_Internal (cs_sendQ s') \<longleftrightarrow> contents (cs_sendQ s') \<noteq> []"
      using ds by (metis word_gt_0)
    show ?thesis
      using v at False s'ok s'v
      by (simp add: ProcessSend_def cc upd GetSendInfo_unlocked GetDataSize_unlocked session_rings ds g
          send ps si pos stamp s'_def [symmetric] Let_def)
  qed
qed

section \<open>Receiving\<close>

lemma PostRecv_eq:
  assumes at: "session_at srv i = Some s" and ok: "session_ok s"
  shows "PostRecv os srv i =
    Inr (if \<not> cs_valid s then srv
         else if room (cs_recvQ s) = 0 then disconnected srv i s
         else
           let srv1 = syscall (OsRecv (cs_socket s)
                 (recv_bufs (rb_writePos (cs_recvQ s)) (direct_write_size (cs_recvQ s))
                   (GetFreeSize_Internal (cs_recvQ s)))) srv in
           if os_result os srv1 \<noteq> 0 then disconnected srv1 i s else srv1)"
proof -
  have u: "unlocked (cs_recvQ s)" using ok by (rule session_rings)
  have w: "GetWritePtr (cs_recvQ s) = Inr (rb_writePos (cs_recvQ s), cs_recvQ s)"
    using u unfolding GetWritePtr_def by (rule with_lock_unlocked) simp
  have d: "GetDirectWriteSize (cs_recvQ s) = Inr (direct_write_size (cs_recvQ s), cs_recvQ s)"
    using u unfolding GetDirectWriteSize_def by (rule with_lock_unlocked) simp
  have e: "recv_bufs (rb_writePos (cs_recvQ s)) (direct_write_size (cs_recvQ s))
      (GetFreeSize_Internal (cs_recvQ s)) = [] \<longleftrightarrow> room (cs_recvQ s) = 0"
    using kernel_fill_scatter(2) [OF session_rings(2) session_small(2), OF ok ok, of "[]"] by simp
  have st: "session_at (syscall c srv) i = Some s" for c using at by simp
  show ?thesis
    using at ok
    by (auto simp: PostRecv_def w d e GetFreeSize_unlocked u set_session_same Disconnect_valid Let_def)
qed

section \<open>What sending leaves unchanged\<close>

definition same_recv :: "CIOCPServer \<Rightarrow> CIOCPServer \<Rightarrow> bool" where
  "same_recv srv srv' \<longleftrightarrow>
     srv_architectureType srv' = srv_architectureType srv \<and>
     srv_availableIndices srv' = srv_availableIndices srv \<and>
     srv_running srv' = srv_running srv \<and>
     srv_sessionIdCounter srv' = srv_sessionIdCounter srv \<and>
     length (srv_sessions srv') = length (srv_sessions srv) \<and>
     (\<forall>j. map_option (\<lambda>s. (cs_sessionId s, cs_recvQ s)) (session_at srv' j) =
          map_option (\<lambda>s. (cs_sessionId s, cs_recvQ s)) (session_at srv j))"

lemma same_recv_refl [simp]: "same_recv srv srv"
  by (simp add: same_recv_def)

lemma same_recv_trans: "same_recv a b \<Longrightarrow> same_recv b c \<Longrightarrow> same_recv a c"
  by (simp add: same_recv_def)

lemma same_recv_syscall [simp]: "same_recv srv (syscall c srv') = same_recv srv srv'"
  by (simp add: same_recv_def)

lemma same_recv_set:
  "session_at srv i = Some s \<Longrightarrow> cs_sessionId t = cs_sessionId s \<Longrightarrow> cs_recvQ t = cs_recvQ s \<Longrightarrow>
   same_recv srv (set_session srv i t)"
  by (simp add: same_recv_def)

lemma same_recv_Disconnect: "same_recv srv (snd (DisconnectSessionInternal srv i))"
proof (cases "\<exists>s. session_at srv i = Some s \<and> cs_valid s")
  case True
  then show ?thesis by (auto simp: Disconnect_valid same_recv_def)
next
  case False
  then show ?thesis by (simp add: Disconnect_invalid)
qed

lemma same_recv_at:
  assumes "same_recv srv srv'" "session_at srv j = Some s"
  obtains s' where "session_at srv' j = Some s'" "cs_sessionId s' = cs_sessionId s" "cs_recvQ s' = cs_recvQ s"
  using assms by (auto simp: same_recv_def dest!: spec [of _ j])

lemma posted_send_ok:
  assumes "session_at srv i = Some s" "srv_ok srv" "session_ok t"
    and "cs_sessionId t = cs_sessionId s" "cs_recvQ t = cs_recvQ s"
  shows "srv_ok (posted_send os srv i t) \<and> same_recv srv (posted_send os srv i t)"
proof -
  let ?srv1 = "syscall (OsSend (cs_socket t) (contents (cs_sendQ t))) (set_session srv i t)"
  let ?srv2 = "set_session ?srv1 i (t\<lparr>cs_sending := False\<rparr>)"
  have 1: "srv_ok ?srv1" "same_recv srv ?srv1"
    using assms by (auto intro: same_recv_set)
  have "session_at ?srv1 i = Some t"
    using session_at_Some_less [OF assms(1)] by simp
  then have 2: "srv_ok ?srv2" "same_recv ?srv1 ?srv2"
    using 1 assms by (auto intro: same_recv_set)
  have 3: "srv_ok (snd (DisconnectSessionInternal ?srv2 i))"
      "same_recv ?srv2 (snd (DisconnectSessionInternal ?srv2 i))"
    using 2 by (simp_all add: srv_ok_Disconnect same_recv_Disconnect)
  show ?thesis
    using 1 2 3 same_recv_trans [OF same_recv_trans [OF 1(2) 2(2)] 3(2)]
    by (simp add: posted_send_def Let_def)
qed

lemma PostSend_total:
  assumes "srv_ok srv" "session_at srv i = Some s"
  shows "\<exists>srv'. PostSend os srv i = Inr srv' \<and> srv_ok srv' \<and> same_recv srv srv'"
  using assms posted_send_ok [OF assms(2,1), of "s\<lparr>cs_sending := True\<rparr>" os]
  by (simp add: PostSend_eq [OF assms(2) srv_ok_at [OF assms]] srv_ok_at)

lemma RequestSendMsg_total:
  fixes len :: int32_t
  assumes ok: "srv_ok srv" and mem: "unat (scast len :: size_t) \<le> length data \<or> 65536 \<le> unat (scast len :: size_t)"
  shows "\<exists>srv'. RequestSendMsg os srv sid data len = Inr srv' \<and> srv_ok srv' \<and> same_recv srv srv'"
proof (cases "\<exists>i s. FindSession srv sid = Some i \<and> session_at srv i = Some s \<and> cs_valid s")
  case False
  then have "RequestSendMsg os srv sid data len = Inr srv"
    by (auto simp: RequestSendMsg_def FindSession_Some split: option.splits)
  with ok show ?thesis by simp
next
  case True
  then obtain i s where find: "FindSession srv sid = Some i" and at: "session_at srv i = Some s"
    and v: "cs_valid s" by blast
  have sok: "session_ok s" using ok at by (rule srv_ok_at)
  let ?n = "unat (scast len :: size_t)"
  let ?t = "if (scast len :: size_t) = 0 then s else s\<lparr>cs_sendQ := write_bytes (cs_sendQ s) (take ?n data)\<rparr>"
  have "room (cs_sendQ s) < 65536"
    using room_less [OF session_rings(1) [OF sok]] sok by (simp add: session_ok_def)
  then have mem': "?n \<le> room (cs_sendQ s) \<Longrightarrow> ?n \<le> length data" using mem by linarith
  note eq = RequestSendMsg_eq [OF find at sok v mem', of os]
  show ?thesis
  proof (cases "?n \<le> room (cs_sendQ s)")
    case fits: True
    have t: "session_ok ?t" "cs_sessionId ?t = cs_sessionId s" "cs_recvQ ?t = cs_recvQ s"
      using sok fits mem' by (auto simp: session_ok_def write_bytes_ok)
    have "srv_ok (set_session srv i ?t)" "same_recv srv (set_session srv i ?t)"
      using ok t at by (auto intro: same_recv_set)
    moreover have "session_at (set_session srv i ?t) i = Some ?t"
      using session_at_Some_less [OF at] by simp
    ultimately show ?thesis
      using PostSend_total [of "set_session srv i ?t" i ?t os] fits eq
      by (auto intro: same_recv_trans)
  next
    case False
    then show ?thesis
      using eq ok sok same_recv_Disconnect [of srv i]
      by (simp add: srv_ok_disconnected Disconnect_valid [OF at v])
  qed
qed

end
