(* ===== verification/Framing.thy ===== *)
theory Framing
  imports TransferSpec
begin

text \<open>
  The framing of the received byte stream: a pure function that cuts a stream into packets,
  and the proof that \<open>ParsePackets\<close> of \<open>IOCPServer.cpp\<close> computes it on the receive queue,
  terminates, and treats a stream the same way however it is cut into receptions.
\<close>

section \<open>Cutting a stream into packets\<close>

text \<open>The size of the packet at the front of a stream, as \<open>uint16_t\<close> arithmetic gives it.\<close>

definition packet_size :: "bool \<Rightarrow> byte list \<Rightarrow> nat" where
  "packet_size echo bs =
     (let hsize = join16 (bs ! 0) (bs ! 1) in
      unat (if echo then hsize + of_nat sizeof_MsgHeader else hsize))"

text \<open>The packets, the bytes left over, and whether the stream ends in a malformed header.\<close>

function split_packets :: "bool \<Rightarrow> byte list \<Rightarrow> byte list list \<times> byte list \<times> bool" where
  "split_packets echo bs =
     (if length bs < 2 then ([], bs, False)
      else if packet_size echo bs < 2 then ([], bs, True)
      else if length bs < packet_size echo bs then ([], bs, False)
      else
        let (ps, rest, bad) = split_packets echo (drop (packet_size echo bs) bs)
        in (take (packet_size echo bs) bs # ps, rest, bad))"
  by pat_completeness auto
termination by (relation "measure (\<lambda>(echo, bs). length bs)") auto

declare split_packets.simps [simp del]

lemma packet_size_le: "packet_size echo bs \<le> 65535"
proof -
  have "unat (x :: uint16_t) \<le> 65535" for x
    using unsigned_less [of x, where 'a = nat] by simp
  then show ?thesis by (simp add: packet_size_def Let_def)
qed

lemma packet_size_append: "2 \<le> length xs \<Longrightarrow> packet_size echo (xs @ ys) = packet_size echo xs"
  by (cases xs) (auto simp: packet_size_def nth_append)

lemma split_short: "length bs < 2 \<Longrightarrow> split_packets echo bs = ([], bs, False)"
  by (simp add: split_packets.simps)

lemma split_bad: "2 \<le> length bs \<Longrightarrow> packet_size echo bs < 2 \<Longrightarrow> split_packets echo bs = ([], bs, True)"
  by (simp add: split_packets.simps)

lemma split_partial:
  "2 \<le> length bs \<Longrightarrow> length bs < packet_size echo bs \<Longrightarrow> split_packets echo bs = ([], bs, False)"
  by (simp add: split_packets.simps [of echo bs])

lemma split_packet:
  "2 \<le> length bs \<Longrightarrow> 2 \<le> packet_size echo bs \<Longrightarrow> packet_size echo bs \<le> length bs \<Longrightarrow>
   split_packets echo bs =
     (case split_packets echo (drop (packet_size echo bs) bs) of
        (ps, rest, bad) \<Rightarrow> (take (packet_size echo bs) bs # ps, rest, bad))"
  by (simp add: split_packets.simps [of echo bs])

lemmas split_cases = split_short split_bad split_partial split_packet

text \<open>
  Without a malformed header, what is left over does not hold a whole packet; it always
  fits into the receive queue with at least one byte to spare.
\<close>

lemma split_rest:
  "split_packets echo bs = (ps, rest, False) \<Longrightarrow> length rest \<le> 65534"
proof (induction echo bs arbitrary: ps rest rule: split_packets.induct)
  case (1 echo bs)
  consider "length bs < 2" | "2 \<le> length bs" "packet_size echo bs < 2"
    | "2 \<le> length bs" "2 \<le> packet_size echo bs" "length bs < packet_size echo bs"
    | "2 \<le> length bs" "2 \<le> packet_size echo bs" "packet_size echo bs \<le> length bs" by linarith
  then show ?case
  proof cases
    case 3
    then show ?thesis using "1.prems" packet_size_le [of echo bs] by (simp add: split_partial)
  next
    case 4
    then show ?thesis
      using "1.prems" "1.IH" by (auto simp: split_packet split: prod.splits)
  qed (use "1.prems" in \<open>auto simp: split_short split_bad\<close>)
qed

lemma split_append_bad:
  "split_packets echo xs = (ps, rest, True) \<Longrightarrow> snd (snd (split_packets echo (xs @ ys)))"
proof (induction echo xs arbitrary: ps rest rule: split_packets.induct)
  case (1 echo xs)
  consider "length xs < 2" | "2 \<le> length xs" "packet_size echo xs < 2"
    | "2 \<le> length xs" "2 \<le> packet_size echo xs" "length xs < packet_size echo xs"
    | "2 \<le> length xs" "2 \<le> packet_size echo xs" "packet_size echo xs \<le> length xs" by linarith
  then show ?case
  proof cases
    case 2
    then show ?thesis by (simp add: split_bad packet_size_append)
  next
    case 4
    let ?n = "packet_size echo xs"
    obtain ps1 where "split_packets echo (drop ?n xs) = (ps1, rest, True)"
      using 4 "1.prems" by (auto simp: split_packet split: prod.splits)
    then have "snd (snd (split_packets echo (drop ?n xs @ ys)))"
      using 4 "1.IH" by simp
    with 4 show ?thesis
      by (auto simp: split_packet [of "xs @ ys"] packet_size_append split: prod.splits)
  qed (use "1.prems" in \<open>auto simp: split_cases\<close>)
qed

lemma split_concat: "split_packets echo bs = (ps, rest, bad) \<Longrightarrow> bs = concat ps @ rest"
proof (induction echo bs arbitrary: ps rest bad rule: split_packets.induct)
  case (1 echo bs)
  consider "length bs < 2" | "2 \<le> length bs" "packet_size echo bs < 2"
    | "2 \<le> length bs" "length bs < packet_size echo bs"
    | "2 \<le> length bs" "2 \<le> packet_size echo bs" "packet_size echo bs \<le> length bs" by linarith
  then show ?case
  proof cases
    case 4
    obtain ps' rest' bad' where r: "split_packets echo (drop (packet_size echo bs) bs) = (ps', rest', bad')"
      by (cases "split_packets echo (drop (packet_size echo bs) bs)")
    with 4 "1.IH" have "drop (packet_size echo bs) bs = concat ps' @ rest'" by auto
    then have "bs = take (packet_size echo bs) bs @ concat ps' @ rest'"
      by (metis append_take_drop_id)
    moreover have "ps = take (packet_size echo bs) bs # ps'" "rest = rest'"
      using r 4 "1.prems" by (simp_all add: split_packet)
    ultimately show ?thesis by simp
  qed (use "1.prems" in \<open>auto simp: split_cases\<close>)
qed

text \<open>Cutting a stream in two receptions gives the same packets.\<close>

lemma split_append:
  "split_packets echo xs = (ps, rest, False) \<Longrightarrow>
   split_packets echo (xs @ ys) =
     (case split_packets echo (rest @ ys) of (ps', rest', bad) \<Rightarrow> (ps @ ps', rest', bad))"
proof (induction echo xs arbitrary: ps rest rule: split_packets.induct)
  case (1 echo xs)
  consider "length xs < 2" | "2 \<le> length xs" "packet_size echo xs < 2"
    | "2 \<le> length xs" "2 \<le> packet_size echo xs" "length xs < packet_size echo xs"
    | "2 \<le> length xs" "2 \<le> packet_size echo xs" "packet_size echo xs \<le> length xs" by linarith
  then show ?case
  proof cases
    case 4
    let ?n = "packet_size echo xs"
    obtain ps1 where r: "split_packets echo (drop ?n xs) = (ps1, rest, False)" and ps: "ps = take ?n xs # ps1"
      using 4 "1.prems" by (auto simp: split_packet split: prod.splits)
    have "split_packets echo (drop ?n xs @ ys) =
        (case split_packets echo (rest @ ys) of (ps', rest', bad) \<Rightarrow> (ps1 @ ps', rest', bad))"
      using 4 r "1.IH" by simp
    with 4 ps show ?thesis
      by (simp add: split_packet [of "xs @ ys"] packet_size_append split: prod.splits)
  qed (use "1.prems" in \<open>auto simp: split_cases split: prod.splits\<close>)
qed

section \<open>One turn of the loop\<close>

definition deliver :: "os \<Rightarrow> CIOCPServer \<Rightarrow> nat \<Rightarrow> int64_t \<Rightarrow> byte list \<Rightarrow> (loop_exit \<times> CIOCPServer) res" where
  "deliver os srv i sid p =
     (case srv_architectureType srv of
        EchoTest \<Rightarrow> andThen (RequestSendMsg os srv sid p (of_nat (length p))) (\<lambda>srv. Inr (Continue, srv))
      | Centralized \<Rightarrow> Inr (Continue, PushNetworkEvent srv
          \<lparr>ev_type = RECEIVED, ev_sessionId = sid, ev_data = p\<rparr>)
      | _ \<Rightarrow> Inr (Continue, srv))"

definition is_echo :: "CIOCPServer \<Rightarrow> bool" where
  "is_echo srv \<longleftrightarrow> srv_architectureType srv = EchoTest"

lemma ucast_of_nat_32: "n \<le> 65535 \<Longrightarrow> (ucast (of_nat n :: size_t) :: int32_t) = of_nat n"
  by (rule word_unat_eq_iff [THEN iffD2])
    (simp add: unsigned_ucast_eq unat_of_nat_small take_bit_nat_eq_self)

lemma peek_header:
  assumes "rb_ok q" "2 \<le> length (contents q)"
  shows "Peek q (Some (replicate sizeof_MsgHeader 0)) (of_nat sizeof_MsgHeader) =
           Inr (2, Some (take 2 (contents q)), q)"
    and "read16 (take 2 (contents q)) 0 = Inr (join16 (contents q ! 0) (contents q ! 1))"
  using assms by (simp_all add: Peek_ok sizeof_MsgHeader_def read16_def)

lemma parse_step_eq:
  assumes at: "session_at srv i = Some s" and ok: "session_ok s"
  defines "bs \<equiv> contents (cs_recvQ s)" and "n \<equiv> packet_size (is_echo srv) (contents (cs_recvQ s))"
  shows "parse_step os srv i =
    (if length bs < 2 then Inr (Break, srv)
     else if n < 2 then Inr (Return, snd (DisconnectSessionInternal srv i))
     else if length bs < n then Inr (Break, srv)
     else deliver os (set_session srv i (s\<lparr>cs_recvQ := drop_bytes (cs_recvQ s) n\<rparr>)) i
            (cs_sessionId s) (take n bs))"
proof -
  have q: "rb_ok (cs_recvQ s)" "unlocked (cs_recvQ s)" using ok by (simp_all add: session_rings)
  have ds: "GetDataSize_Internal (cs_recvQ s) < k \<longleftrightarrow> length bs < unat k" for k
    using q by (simp add: data_size_less bs_def)
  show ?thesis
  proof (cases "length bs < 2")
    case True
    then show ?thesis
      using at by (simp add: parse_step_def GetDataSize_unlocked q ds sizeof_MsgHeader_def set_session_same)
  next
    case False
    define h where "h = (if is_echo srv then join16 (bs ! 0) (bs ! 1) + of_nat sizeof_MsgHeader
                         else join16 (bs ! 0) (bs ! 1))"
    have n: "n = unat h" by (simp add: n_def h_def bs_def packet_size_def Let_def)
    define z where "z = (ucast h :: size_t)"
    have z: "unat z = n" unfolding z_def n by (rule unat_ucast_64) simp
    have n_le: "n \<le> 65535" unfolding n_def by (rule packet_size_le)
    have zs: "z < MIN_PACKET_SIZE \<longleftrightarrow> n < 2" "\<not> MAX_PACKET_SIZE < z" "z = of_nat n"
      using z n_le by (simp_all add: word_less_nat_alt MIN_PACKET_SIZE_def MAX_PACKET_SIZE_def
          sizeof_MsgHeader_def word_unat_eq_iff unat_of_nat_small)
    note ph = peek_header [OF q(1), folded bs_def]
    have arch: "srv_architectureType srv = EchoTest \<Longrightarrow> (ucast (join16 (bs ! 0) (bs ! 1) + of_nat sizeof_MsgHeader) :: size_t) = z"
      "srv_architectureType srv \<noteq> EchoTest \<Longrightarrow> (ucast (join16 (bs ! 0) (bs ! 1)) :: size_t) = z"
      by (simp_all add: z_def h_def is_echo_def)
    have step: "parse_step os srv i =
        (if n < 2 then Inr (Return, snd (DisconnectSessionInternal srv i))
         else if length bs < n then Inr (Break, srv)
         else andThen (Dequeue (cs_recvQ s) (Some (replicate n 0)) z) (\<lambda>(dequeuedSize, packet, q).
           let s = s\<lparr>cs_recvQ := q\<rparr>; srv = set_session srv i s in
           if dequeuedSize \<noteq> z
           then Inr (Return, snd (DisconnectSessionInternal srv i))
           else
             (case srv_architectureType srv of
                EchoTest \<Rightarrow> andThen (EchoTestSend os srv i (the packet) z) (\<lambda>srv. Inr (Continue, srv))
              | Centralized \<Rightarrow> Inr (Continue, PushNetworkEvent srv
                    \<lparr>ev_type = RECEIVED, ev_sessionId = cs_sessionId s, ev_data = the packet\<rparr>)
              | _ \<Rightarrow> Inr (Continue, srv))))"
      using at False ph arch
      by (cases "srv_architectureType srv")
        (simp_all add: parse_step_def GetDataSize_unlocked q ds sizeof_MsgHeader_def set_session_same
          z zs(1,2) Let_def del: replicate.simps cong del: if_weak_cong)
    show ?thesis
    proof (cases "n < 2 \<or> length bs < n")
      case True
      then show ?thesis using False by (auto simp: step)
    next
      case deq: False
      then have "z \<noteq> 0" using z by auto
      then have d: "Dequeue (cs_recvQ s) (Some (replicate n 0)) z =
          Inr (z, Some (take n bs), drop_bytes (cs_recvQ s) n)"
        using deq z q by (simp add: Dequeue_ok bs_def)
      have l: "length (take n bs) = n" using deq by simp
      have at': "deref (set_session srv i t) i = Inr t" for t
        using session_at_Some_less [OF at] by simp
      have uz: "(ucast z :: int32_t) = of_nat n"
        using n_le by (simp add: zs(3) ucast_of_nat_32)
      show ?thesis
        using False deq l uz
        by (simp add: step d deliver_def EchoTestSend_def at' Let_def
            split: ServerArchitectureType.splits)
    qed
  qed
qed

section \<open>The whole loop\<close>

lemma scast_of_nat_32: "n \<le> 65535 \<Longrightarrow> unat (scast (of_nat n :: int32_t) :: size_t) = n"
proof -
  assume n: "n \<le> 65535"
  then have u: "uint (of_nat n :: int32_t) = int n"
    by (simp add: uint_nat unat_of_nat_small)
  then have "sint (of_nat n :: int32_t) = int n"
    using n by (simp add: sint_uint signed_take_bit_int_eq_self)
  then have "(scast (of_nat n :: int32_t) :: size_t) = of_nat n"
    by (simp add: scast_eq)
  then show ?thesis using n by (simp add: unat_of_nat_small)
qed

lemma same_recv_Push: "same_recv srv (PushNetworkEvent srv e)"
  by (simp add: same_recv_def)

lemma deliver_total:
  assumes "srv_ok srv" "length p \<le> 65535"
  shows "\<exists>srv'. deliver os srv i sid p = Inr (Continue, srv') \<and> srv_ok srv' \<and> same_recv srv srv'"
proof -
  obtain srv' where "RequestSendMsg os srv sid p (of_nat (length p)) = Inr srv'" "srv_ok srv'" "same_recv srv srv'"
    using RequestSendMsg_total [OF assms(1), of "of_nat (length p)" p os sid] assms(2)
    by (auto simp: scast_of_nat_32)
  then show ?thesis
    using assms by (cases "srv_architectureType srv") (simp_all add: deliver_def same_recv_Push)
qed

text \<open>A session after its packet of \<open>n\<close> bytes was taken out of the receive queue.\<close>

lemma taken_ok:
  assumes "srv_ok srv" "session_at srv i = Some s" "n \<le> length (contents (cs_recvQ s))"
  defines "t \<equiv> s\<lparr>cs_recvQ := drop_bytes (cs_recvQ s) n\<rparr>"
  shows "srv_ok (set_session srv i t)" "session_at (set_session srv i t) i = Some t"
    "contents (cs_recvQ t) = drop n (contents (cs_recvQ s))" "session_ok t"
proof -
  have s: "session_ok s" using assms(1,2) by (rule srv_ok_at)
  then show t: "session_ok t"
    using assms(3) by (simp add: t_def session_ok_def drop_bytes_ok)
  then show "srv_ok (set_session srv i t)" using assms(1) by blast
  show "session_at (set_session srv i t) i = Some t"
    using session_at_Some_less [OF assms(2)] by simp
  show "contents (cs_recvQ t) = drop n (contents (cs_recvQ s))"
    using assms(3) session_rings(2) [OF s] by (simp add: t_def drop_bytes_ok)
qed

text \<open>The four ways a turn of the loop goes.\<close>

lemma parse_step_cases:
  assumes "session_at srv i = Some s" "session_ok s"
  obtains (stop) "parse_step os srv i = Inr (Break, srv)"
      "split_packets (is_echo srv) (contents (cs_recvQ s)) = ([], contents (cs_recvQ s), False)"
    | (bad) "parse_step os srv i = Inr (Return, snd (DisconnectSessionInternal srv i))"
      "split_packets (is_echo srv) (contents (cs_recvQ s)) = ([], contents (cs_recvQ s), True)"
    | (packet) n ps rest bad where "n = packet_size (is_echo srv) (contents (cs_recvQ s))"
      "2 \<le> n" "n \<le> 65535" "n \<le> length (contents (cs_recvQ s))"
      "parse_step os srv i = deliver os (set_session srv i (s\<lparr>cs_recvQ := drop_bytes (cs_recvQ s) n\<rparr>)) i
            (cs_sessionId s) (take n (contents (cs_recvQ s)))"
      "split_packets (is_echo srv) (drop n (contents (cs_recvQ s))) = (ps, rest, bad)"
      "split_packets (is_echo srv) (contents (cs_recvQ s)) = (take n (contents (cs_recvQ s)) # ps, rest, bad)"
proof -
  let ?bs = "contents (cs_recvQ s)"
  let ?n = "packet_size (is_echo srv) ?bs"
  note step = parse_step_eq [OF assms, of os]
  obtain ps rest b where r: "split_packets (is_echo srv) (drop ?n ?bs) = (ps, rest, b)"
    by (cases "split_packets (is_echo srv) (drop ?n ?bs)")
  consider "length ?bs < 2" | "2 \<le> length ?bs" "?n < 2" | "2 \<le> length ?bs" "2 \<le> ?n" "length ?bs < ?n"
    | "2 \<le> length ?bs" "2 \<le> ?n" "?n \<le> length ?bs" by linarith
  then show thesis
  proof cases
    case 1
    then show ?thesis using step stop by (simp add: split_short)
  next
    case 2
    then show ?thesis using step bad by (simp add: split_bad)
  next
    case 3
    then show ?thesis using step stop by (simp add: split_partial)
  next
    case 4
    then show ?thesis
      using step r packet_size_le [of "is_echo srv" ?bs] by (intro packet) (simp_all add: split_packet)
  qed
qed

lemma parse_loop_total:
  assumes "srv_ok srv" "session_at srv i = Some s" "length (contents (cs_recvQ s)) < fuel"
  shows "\<exists>srv' s'. parse_loop fuel os srv i = Inr srv' \<and> srv_ok srv' \<and> session_at srv' i = Some s' \<and>
    cs_sessionId s' = cs_sessionId s \<and> srv_architectureType srv' = srv_architectureType srv \<and>
    contents (cs_recvQ s') = fst (snd (split_packets (is_echo srv) (contents (cs_recvQ s))))"
  using assms
proof (induction fuel arbitrary: srv s)
  case 0
  then show ?case by simp
next
  case (Suc fuel)
  have ok: "session_ok s" using Suc.prems by (metis srv_ok_at)
  show ?case
  proof (cases rule: parse_step_cases [OF Suc.prems(2) ok, of os, case_names stop bad packet])
    case stop
    then show ?thesis using Suc.prems by simp
  next
    case bad
    obtain s' where "session_at (snd (DisconnectSessionInternal srv i)) i = Some s'"
        "cs_sessionId s' = cs_sessionId s" "cs_recvQ s' = cs_recvQ s"
      using same_recv_at [OF same_recv_Disconnect Suc.prems(2)] by blast
    with bad show ?thesis
      using Suc.prems same_recv_Disconnect [of srv i] by (simp add: srv_ok_Disconnect same_recv_def)
  next
    case (packet n ps rest bad)
    let ?t = "s\<lparr>cs_recvQ := drop_bytes (cs_recvQ s) n\<rparr>"
    note t = taken_ok [OF Suc.prems(1,2) packet(4)]
    obtain srv' where d: "parse_step os srv i = Inr (Continue, srv')" "srv_ok srv'"
        "same_recv (set_session srv i ?t) srv'"
      using deliver_total [OF t(1), of "take n (contents (cs_recvQ s))" os i] packet by auto
    obtain s' where s': "session_at srv' i = Some s'" "cs_sessionId s' = cs_sessionId s" "cs_recvQ s' = cs_recvQ ?t"
      using same_recv_at [OF d(3) t(2)] by auto
    have arch: "srv_architectureType srv' = srv_architectureType srv"
      using d(3) by (simp add: same_recv_def)
    have len: "length (contents (cs_recvQ s')) < fuel"
      using s' t(3) packet(2,4) Suc.prems(3) by simp
    from Suc.IH [OF d(2) s'(1) len] show ?thesis
      using d(1) s' t(3) packet arch by (auto simp: is_echo_def)
  qed
qed

lemma ParsePackets_loop:
  assumes "session_at srv i = Some s" "session_ok s"
  shows "ParsePackets os srv i = parse_loop (Suc (length (contents (cs_recvQ s)))) os srv i"
  using assms by (simp add: ParsePackets_def unat_data_size session_rings del: parse_loop.simps)

section \<open>Packets become events\<close>

definition received :: "int64_t \<Rightarrow> byte list \<Rightarrow> NetworkEvent" where
  "received sid p = \<lparr>ev_type = RECEIVED, ev_sessionId = sid, ev_data = p\<rparr>"

definition gone :: "int64_t \<Rightarrow> NetworkEvent" where
  "gone sid = \<lparr>ev_type = DISCONNECTED, ev_sessionId = sid, ev_data = []\<rparr>"

text \<open>
  What \<open>ParsePackets\<close> leaves behind in the \<open>Centralized\<close> mode: one event per packet, in
  order, the incomplete rest in the queue, and the session disconnected after a malformed header.
\<close>

definition parsed_central ::
  "CIOCPServer \<Rightarrow> CIOCPServer \<Rightarrow> nat \<Rightarrow> CSession \<Rightarrow> byte list \<Rightarrow> bool" where
  "parsed_central srv srv' i s bs \<longleftrightarrow>
     (case split_packets False bs of (ps, rest, bad) \<Rightarrow>
        \<exists>s'. session_at srv' i = Some s' \<and> cs_sessionId s' = cs_sessionId s \<and>
          cs_socket s' = (if bad then INVALID_SOCKET else cs_socket s) \<and>
          contents (cs_recvQ s') = rest \<and> cs_sendQ s' = cs_sendQ s \<and>
          cs_valid s' = (\<not> bad) \<and> srv_architectureType srv' = Centralized \<and> srv_ok srv' \<and>
          srv_running srv' = srv_running srv \<and>
          srv_eventQueue srv' = srv_eventQueue srv @ map (received (cs_sessionId s)) ps @
            (if bad then [gone (cs_sessionId s)] else []))"

lemma parse_loop_central:
  assumes "srv_ok srv" "session_at srv i = Some s" "length (contents (cs_recvQ s)) < fuel"
    and "srv_architectureType srv = Centralized" "cs_valid s"
  shows "\<exists>srv'. parse_loop fuel os srv i = Inr srv' \<and> parsed_central srv srv' i s (contents (cs_recvQ s))"
  using assms
proof (induction fuel arbitrary: srv s)
  case 0
  then show ?case by simp
next
  case (Suc fuel)
  have ok: "session_ok s" using Suc.prems by (metis srv_ok_at)
  have echo: "\<not> is_echo srv" using Suc.prems by (simp add: is_echo_def)
  show ?case
  proof (cases rule: parse_step_cases [OF Suc.prems(2) ok, of os, case_names stop bad packet])
    case stop
    then show ?thesis using Suc.prems echo by (simp add: parsed_central_def)
  next
    case bad
    then show ?thesis
      using Suc.prems echo session_at_Some_less [OF Suc.prems(2)] ok
      by (simp add: parsed_central_def Disconnect_valid srv_ok_disconnected gone_def)
  next
    case (packet n ps rest bad)
    let ?t = "s\<lparr>cs_recvQ := drop_bytes (cs_recvQ s) n\<rparr>"
    let ?p = "take n (contents (cs_recvQ s))"
    note t = taken_ok [OF Suc.prems(1,2) packet(4)]
    define srv1 where "srv1 = PushNetworkEvent (set_session srv i ?t) (received (cs_sessionId s) ?p)"
    have step: "parse_step os srv i = Inr (Continue, srv1)"
      using packet(5) Suc.prems(4) by (simp add: deliver_def srv1_def received_def)
    have "srv_ok srv1" "session_at srv1 i = Some ?t" "srv_architectureType srv1 = Centralized" "cs_valid ?t"
      using t Suc.prems by (simp_all add: srv1_def)
    moreover have "length (contents (cs_recvQ ?t)) < fuel"
      using t(3) packet(2,4) Suc.prems(3) by simp
    ultimately obtain srv' where "parse_loop fuel os srv1 i = Inr srv'" "parsed_central srv1 srv' i ?t (contents (cs_recvQ ?t))"
      using Suc.IH by blast
    then show ?thesis
      using step t(3) packet(6,7) echo by (auto simp: parsed_central_def srv1_def)
  qed
qed

section \<open>Packets are echoed\<close>

text \<open>The kernel accepts every send and every receive.\<close>

definition transfers_succeed :: "os \<Rightarrow> bool" where
  "transfers_succeed os \<longleftrightarrow>
     (\<forall>sock data log. os (OsSend sock data # log) = 0) \<and> (\<forall>sock bufs log. os (OsRecv sock bufs # log) = 0)"

text \<open>
  What \<open>ParsePackets\<close> leaves behind in the \<open>EchoTest\<close> mode when the kernel accepts every
  send: all packets, in order, at the back of the send queue.
\<close>

definition parsed_echo ::
  "CIOCPServer \<Rightarrow> CIOCPServer \<Rightarrow> nat \<Rightarrow> CSession \<Rightarrow> byte list \<Rightarrow> bool" where
  "parsed_echo srv srv' i s bs \<longleftrightarrow>
     (case split_packets True bs of (ps, rest, bad) \<Rightarrow>
        \<exists>s'. session_at srv' i = Some s' \<and> cs_sessionId s' = cs_sessionId s \<and>
          contents (cs_recvQ s') = rest \<and> contents (cs_sendQ s') = contents (cs_sendQ s) @ concat ps \<and>
          cs_valid s' = (\<not> bad) \<and> srv_architectureType srv' = EchoTest \<and> srv_ok srv' \<and>
          srv_running srv' = srv_running srv)"

lemma echo_packet:
  assumes "srv_ok srv" "session_at srv i = Some t" "cs_valid t" "FindSession srv (cs_sessionId t) = Some i"
    and "length p \<le> room (cs_sendQ t)" "length p \<le> 65535" "p \<noteq> []" "transfers_succeed os"
  shows "\<exists>srv' t'. RequestSendMsg os srv (cs_sessionId t) p (of_nat (length p)) = Inr srv' \<and>
    srv_ok srv' \<and> same_recv srv srv' \<and> session_at srv' i = Some t' \<and> cs_valid t' \<and>
    contents (cs_sendQ t') = contents (cs_sendQ t) @ p \<and> room (cs_sendQ t') = room (cs_sendQ t) - length p"
proof -
  have ok: "session_ok t" using assms(1,2) by (rule srv_ok_at)
  have n: "unat (scast (of_nat (length p) :: int32_t) :: size_t) = length p"
    using assms(6) by (rule scast_of_nat_32)
  then have nz: "(scast (of_nat (length p) :: int32_t) :: size_t) \<noteq> 0"
    using assms(7) by auto
  let ?u = "t\<lparr>cs_sendQ := write_bytes (cs_sendQ t) p\<rparr>"
  have u: "session_ok ?u" "contents (cs_sendQ ?u) = contents (cs_sendQ t) @ p"
      "room (cs_sendQ ?u) = room (cs_sendQ t) - length p"
    using ok assms(5) by (simp_all add: session_ok_def write_bytes_ok room_write_bytes)
  let ?srv1 = "set_session srv i ?u"
  have eq: "RequestSendMsg os srv (cs_sessionId t) p (of_nat (length p)) = PostSend os ?srv1 i"
    using RequestSendMsg_eq [OF assms(4,2) ok assms(3), of "of_nat (length p)" p os] n nz assms(5) by simp
  have at1: "session_at ?srv1 i = Some ?u"
    using session_at_Some_less [OF assms(2)] by simp
  obtain srv' where s': "RequestSendMsg os srv (cs_sessionId t) p (of_nat (length p)) = Inr srv'"
      "srv_ok srv'" "same_recv srv srv'"
    using RequestSendMsg_total [OF assms(1), of "of_nat (length p)" p os "cs_sessionId t"] n by auto
  have "\<exists>t'. session_at srv' i = Some t' \<and> cs_valid t' \<and> cs_sendQ t' = cs_sendQ ?u"
    using s'(1) eq PostSend_eq [OF at1 u(1), of os] at1 assms(3,8) session_at_Some_less [OF assms(2)]
    by (auto simp: posted_send_def Let_def os_result_def transfers_succeed_def split: if_splits)
  with s' u show ?thesis by auto
qed

lemma parse_loop_echo:
  assumes "srv_ok srv" "session_at srv i = Some s" "length (contents (cs_recvQ s)) < fuel"
    and "srv_architectureType srv = EchoTest" "cs_valid s" "i = unat (ExtractIndex (cs_sessionId s))"
    and "length (concat (fst (split_packets True (contents (cs_recvQ s))))) \<le> room (cs_sendQ s)"
    and "transfers_succeed os"
  shows "\<exists>srv'. parse_loop fuel os srv i = Inr srv' \<and> parsed_echo srv srv' i s (contents (cs_recvQ s))"
  using assms(1-7)
proof (induction fuel arbitrary: srv s)
  case 0
  then show ?case by simp
next
  case (Suc fuel)
  have ok: "session_ok s" using Suc.prems by (metis srv_ok_at)
  have echo: "is_echo srv" using Suc.prems by (simp add: is_echo_def)
  show ?case
  proof (cases rule: parse_step_cases [OF Suc.prems(2) ok, of os, case_names stop bad packet])
    case stop
    then show ?thesis using Suc.prems echo by (simp add: parsed_echo_def)
  next
    case bad
    then show ?thesis
      using Suc.prems echo session_at_Some_less [OF Suc.prems(2)] ok
      by (simp add: parsed_echo_def Disconnect_valid srv_ok_disconnected)
  next
    case (packet n ps rest bad)
    let ?t = "s\<lparr>cs_recvQ := drop_bytes (cs_recvQ s) n\<rparr>"
    let ?p = "take n (contents (cs_recvQ s))"
    note t = taken_ok [OF Suc.prems(1,2) packet(4)]
    have find: "FindSession (set_session srv i ?t) (cs_sessionId ?t) = Some i"
      using Suc.prems(6) t(2) by (simp add: FindSession_Some)
    have p: "length ?p \<le> room (cs_sendQ ?t)" "length ?p \<le> 65535" "?p \<noteq> []"
      "length (concat ps) + length ?p \<le> room (cs_sendQ s)"
      using Suc.prems(7) packet echo by auto
    obtain srv1 t1 where r: "RequestSendMsg os (set_session srv i ?t) (cs_sessionId ?t) ?p (of_nat (length ?p)) = Inr srv1"
        "srv_ok srv1" "same_recv (set_session srv i ?t) srv1" "session_at srv1 i = Some t1" "cs_valid t1"
        "contents (cs_sendQ t1) = contents (cs_sendQ s) @ ?p" "room (cs_sendQ t1) = room (cs_sendQ s) - length ?p"
      using echo_packet [OF t(1,2) _ find p(1-3) assms(8)] Suc.prems(5) by auto
    have step: "parse_step os srv i = Inr (Continue, srv1)"
      using packet(5) Suc.prems(4) r(1) by (simp add: deliver_def)
    have t1: "cs_sessionId t1 = cs_sessionId s" "cs_recvQ t1 = cs_recvQ ?t"
      "srv_architectureType srv1 = EchoTest" "srv_running srv1 = srv_running srv"
      using same_recv_at [OF r(3) t(2)] r(3,4) Suc.prems(4) by (auto simp: same_recv_def)
    have "length (contents (cs_recvQ t1)) < fuel"
      using t1 t(3) packet(2,4) Suc.prems(3) by simp
    moreover have "length (concat ps) \<le> room (cs_sendQ s) - length ?p" using p(4) by linarith
    ultimately obtain srv' where "parse_loop fuel os srv1 i = Inr srv'" "parsed_echo srv1 srv' i t1 (contents (cs_recvQ t1))"
      using Suc.IH [OF r(2,4)] t1 r(5,7) Suc.prems(6) t(3) packet(6) p(4) echo by auto
    then show ?thesis
      using step t(3) t1 r(6) packet(6,7) echo by (auto simp: parsed_echo_def)
  qed
qed

section \<open>Reception\<close>

text \<open>
  The kernel stores \<open>xs\<close> in the buffers that \<open>PostRecv\<close> handed out for the session in slot
  \<open>i\<close> and queues the completion, which a worker thread handles.
\<close>

definition posted_buffers :: "ring_buffer \<Rightarrow> WSABUF list" where
  "posted_buffers q = recv_bufs (rb_writePos q) (direct_write_size q) (GetFreeSize_Internal q)"

definition arrive :: "os \<Rightarrow> CIOCPServer \<Rightarrow> nat \<Rightarrow> byte list \<Rightarrow> CIOCPServer res" where
  "arrive os srv i xs =
     andThen (deref srv i) (\<lambda>s.
     andThen (kernel_fill (ring_mem (cs_recvQ s)) (posted_buffers (cs_recvQ s)) xs) (\<lambda>mem.
     worker_step os (set_session srv i (s\<lparr>cs_recvQ := (cs_recvQ s)\<lparr>rb_buffer := Some mem\<rparr>\<rparr>))
       \<lparr>cp_result = True, cp_bytes = of_nat (length xs), cp_key = Some i, cp_overlapped = Some (RecvOv i)\<rparr>))"

fun arrive_all :: "os \<Rightarrow> CIOCPServer \<Rightarrow> nat \<Rightarrow> byte list list \<Rightarrow> CIOCPServer res" where
  "arrive_all os srv i [] = Inr srv"
| "arrive_all os srv i (c # cs) = andThen (arrive os srv i c) (\<lambda>srv. arrive_all os srv i cs)"

text \<open>Each reception is not empty and fits into the queue beside the bytes left over before it.\<close>

fun chunks_fit :: "byte list \<Rightarrow> byte list list \<Rightarrow> bool" where
  "chunks_fit rest [] = True"
| "chunks_fit rest (c # cs) =
     (c \<noteq> [] \<and> length rest + length c \<le> 65535 \<and>
      chunks_fit (fst (snd (split_packets False (rest @ c)))) cs)"

lemma worker_step_recv:
  assumes "srv_running srv" "session_at srv i = Some s" "session_ok s" "cs_valid s" "n \<noteq> 0"
  shows "worker_step os srv \<lparr>cp_result = True, cp_bytes = n, cp_key = Some i, cp_overlapped = Some (RecvOv i)\<rparr>
    = ProcessRecv os srv i n"
  using assms by (simp add: worker_step_def session_ok_def)

lemma arrive_eq:
  assumes run: "srv_running srv" and at: "session_at srv i = Some s" and ok: "session_ok s" and v: "cs_valid s"
    and xs: "xs \<noteq> []" "length xs \<le> room (cs_recvQ s)"
  defines "t \<equiv> s\<lparr>cs_recvQ := write_bytes (cs_recvQ s) xs\<rparr>"
  shows "arrive os srv i xs =
    andThen (ParsePackets os (set_session srv i t) i) (\<lambda>srv. PostRecv os srv i)"
    and "session_ok t" "contents (cs_recvQ t) = contents (cs_recvQ s) @ xs"
    and "session_at (set_session srv i t) i = Some t"
proof -
  let ?q = "cs_recvQ s" and ?n = "of_nat (length xs) :: 32 word"
  have q: "rb_ok ?q" "unat (rb_capacity ?q) = 65536" using ok by (simp_all add: session_ok_def)
  have len: "length xs < 65536" using xs(2) room_less [OF q(1)] q(2) by simp
  have fill: "kernel_fill (ring_mem ?q) (posted_buffers ?q) xs = Inr (ring_mem (scatter ?q xs))"
    unfolding posted_buffers_def using q xs by (intro kernel_fill_scatter) (auto intro: Nat.gr0I)
  have sc: "?q\<lparr>rb_buffer := Some (ring_mem (scatter ?q xs))\<rparr> = scatter ?q xs"
    by (simp add: scatter_def ring_mem_def)
  let ?u = "s\<lparr>cs_recvQ := scatter ?q xs\<rparr>"
  have u: "session_ok ?u" using ok scatter_ok [OF q(1) xs(2)] by (simp add: session_ok_def)
  have at_u: "session_at (set_session srv i w) i = Some w" for w
    using session_at_Some_less [OF at] by simp
  have n: "unat ?n = length xs" "?n \<noteq> 0"
    using len xs(1) by (auto simp: unat_of_nat_small word_unat_eq_iff)
  have un: "unat (ucast ?n :: size_t) = length xs" using n by (simp add: unat_ucast_64)
  then have unz: "(ucast ?n :: size_t) \<noteq> 0" using xs(1) by auto
  have "room (scatter ?q xs) = room ?q" using scatter_ok [OF q(1) xs(2)] by (simp add: room_def)
  then have mv: "MoveWritePtr (scatter ?q xs) (ucast ?n) = Inr (ucast ?n, write_bytes ?q xs)"
    using MoveWritePtr_ok [OF scatter_ok(1) [OF q(1) xs(2)], of "ucast ?n"] un unz xs(2)
    by (simp add: advance_scatter)
  have "worker_step os (set_session srv i ?u)
      \<lparr>cp_result = True, cp_bytes = ?n, cp_key = Some i, cp_overlapped = Some (RecvOv i)\<rparr>
      = ProcessRecv os (set_session srv i ?u) i ?n"
    using run v n u by (intro worker_step_recv [of _ _ ?u]) (simp_all add: at_u del: session_at_set_session)
  also have "\<dots> = andThen (ParsePackets os (set_session srv i t) i) (\<lambda>srv. PostRecv os srv i)"
    using n(2) at_u [of ?u] mv by (simp add: ProcessRecv_def t_def del: session_at_set_session)
  finally show "arrive os srv i xs = andThen (ParsePackets os (set_session srv i t) i) (\<lambda>srv. PostRecv os srv i)"
    using at fill by (simp add: arrive_def sc)
  show "session_ok t" using ok xs by (simp add: t_def session_ok_def write_bytes_ok)
  show "contents (cs_recvQ t) = contents (cs_recvQ s) @ xs"
    using q xs by (simp add: t_def write_bytes_ok)
  show "session_at (set_session srv i t) i = Some t" by (rule at_u)
qed

text \<open>
  After \<open>ParsePackets\<close> a session that is still connected has room for at least one byte,
  so the branch "Recv buffer full" of \<open>PostRecv\<close> is never taken there.
\<close>

lemma PostRecv_after_parse:
  assumes "session_at srv i = Some s" "session_ok s" "transfers_succeed os"
    and "cs_valid s \<Longrightarrow> length (contents (cs_recvQ s)) \<le> 65534"
  shows "\<exists>log. PostRecv os srv i = Inr (srv\<lparr>srv_log := log\<rparr>)"
proof (cases "cs_valid s")
  case True
  have "0 < room (cs_recvQ s)" using assms(2,4) True by (simp add: room_def session_ok_def)
  then show ?thesis
    using PostRecv_eq [OF assms(1,2), of os] True assms(3)
    by (auto simp: os_result_def transfers_succeed_def syscall_def)
next
  case False
  then show ?thesis
    using PostRecv_eq [OF assms(1,2), of os] by (auto intro: exI [of _ "srv_log srv"])
qed

lemma session_at_log [simp]: "session_at (srv\<lparr>srv_log := l\<rparr>) = session_at srv"
  by (simp add: session_at_def fun_eq_iff)

lemma parsed_log:
  "parsed_central srv (srv'\<lparr>srv_log := l\<rparr>) i s bs = parsed_central srv srv' i s bs"
  "parsed_echo srv (srv'\<lparr>srv_log := l\<rparr>) i s bs = parsed_echo srv srv' i s bs"
  by (simp_all add: parsed_central_def parsed_echo_def srv_ok_def)

lemma arrive_parsed_central:
  assumes ok: "srv_ok srv" and run: "srv_running srv" and arch: "srv_architectureType srv = Centralized"
    and at: "session_at srv i = Some s" and v: "cs_valid s"
    and xs: "xs \<noteq> []" "length xs \<le> room (cs_recvQ s)" and os: "transfers_succeed os"
  shows "\<exists>srv'. arrive os srv i xs = Inr srv' \<and>
    parsed_central srv srv' i s (contents (cs_recvQ s) @ xs)"
proof -
  have sok: "session_ok s" using ok at by (rule srv_ok_at)
  let ?t = "s\<lparr>cs_recvQ := write_bytes (cs_recvQ s) xs\<rparr>"
  let ?bs = "contents (cs_recvQ s) @ xs"
  note a = arrive_eq [OF run at sok v xs]
  obtain srv1 where p: "ParsePackets os (set_session srv i ?t) i = Inr srv1"
      "parsed_central (set_session srv i ?t) srv1 i ?t ?bs"
    using parse_loop_central [of "set_session srv i ?t" i ?t _ os] a(2,3,4) ok arch v
    by (auto simp: ParsePackets_loop [OF a(4,2)] srv_ok_set simp del: parse_loop.simps session_at_set_session)
  then obtain s' where s': "session_at srv1 i = Some s'" "srv_ok srv1"
      "contents (cs_recvQ s') = fst (snd (split_packets False ?bs))"
      "cs_valid s' = (\<not> snd (snd (split_packets False ?bs)))"
    by (auto simp: parsed_central_def split: prod.splits)
  have "cs_valid s' \<Longrightarrow> length (contents (cs_recvQ s')) \<le> 65534"
    using s'(3,4) split_rest [of False ?bs] by (cases "split_packets False ?bs") auto
  then obtain log where "PostRecv os srv1 i = Inr (srv1\<lparr>srv_log := log\<rparr>)"
    using PostRecv_after_parse [OF s'(1) srv_ok_at [OF s'(2,1)] os] by blast
  with p a(1) have "arrive os srv i xs = Inr (srv1\<lparr>srv_log := log\<rparr>)" by simp
  moreover have "parsed_central srv srv1 i s ?bs"
    using p(2) by (cases "split_packets False ?bs") (auto simp: parsed_central_def)
  ultimately show ?thesis by (auto simp: parsed_log)
qed

lemma arrive_parsed_echo:
  assumes ok: "srv_ok srv" and run: "srv_running srv" and arch: "srv_architectureType srv = EchoTest"
    and at: "session_at srv i = Some s" and v: "cs_valid s" and slot: "i = unat (ExtractIndex (cs_sessionId s))"
    and xs: "xs \<noteq> []" "length xs \<le> room (cs_recvQ s)" and os: "transfers_succeed os"
    and fits: "length (concat (fst (split_packets True (contents (cs_recvQ s) @ xs)))) \<le> room (cs_sendQ s)"
  shows "\<exists>srv'. arrive os srv i xs = Inr srv' \<and>
    parsed_echo srv srv' i s (contents (cs_recvQ s) @ xs)"
proof -
  have sok: "session_ok s" using ok at by (rule srv_ok_at)
  let ?t = "s\<lparr>cs_recvQ := write_bytes (cs_recvQ s) xs\<rparr>"
  let ?bs = "contents (cs_recvQ s) @ xs"
  note a = arrive_eq [OF run at sok v xs]
  have t: "srv_ok (set_session srv i ?t)" "cs_valid ?t" "cs_sendQ ?t = cs_sendQ s"
      "srv_architectureType (set_session srv i ?t) = EchoTest" "i = unat (ExtractIndex (cs_sessionId ?t))"
      "length (concat (fst (split_packets True (contents (cs_recvQ ?t))))) \<le> room (cs_sendQ ?t)"
    using ok a(2,3) arch v slot fits by (auto intro: srv_ok_set)
  obtain srv1 where p: "ParsePackets os (set_session srv i ?t) i = Inr srv1"
      "parsed_echo (set_session srv i ?t) srv1 i ?t ?bs"
    using parse_loop_echo [OF t(1) a(4) lessI t(4,2,5,6) os] a(3)
    by (auto simp: ParsePackets_loop [OF a(4,2)] simp del: parse_loop.simps session_at_set_session)
  then obtain s' where s': "session_at srv1 i = Some s'" "srv_ok srv1"
      "contents (cs_recvQ s') = fst (snd (split_packets True ?bs))"
      "cs_valid s' = (\<not> snd (snd (split_packets True ?bs)))"
    by (auto simp: parsed_echo_def split: prod.splits)
  have "cs_valid s' \<Longrightarrow> length (contents (cs_recvQ s')) \<le> 65534"
    using s'(3,4) split_rest [of True ?bs] by (cases "split_packets True ?bs") auto
  then obtain log where "PostRecv os srv1 i = Inr (srv1\<lparr>srv_log := log\<rparr>)"
    using PostRecv_after_parse [OF s'(1) srv_ok_at [OF s'(2,1)] os] by blast
  with p a(1) have "arrive os srv i xs = Inr (srv1\<lparr>srv_log := log\<rparr>)" by simp
  moreover have "parsed_echo srv srv1 i s ?bs"
    using p(2) by (cases "split_packets True ?bs") (auto simp: parsed_echo_def)
  ultimately show ?thesis by (auto simp: parsed_log)
qed

lemma arrive_all_parsed:
  assumes "srv_ok srv" "srv_running srv" "srv_architectureType srv = Centralized"
    and "session_at srv i = Some s" "cs_valid s" "transfers_succeed os"
    and "chunks_fit (contents (cs_recvQ s)) cs"
    and "split_packets False (contents (cs_recvQ s)) = ([], contents (cs_recvQ s), False)"
    and "split_packets False (contents (cs_recvQ s) @ concat cs) = (ps, rest, False)"
  shows "\<exists>srv' s'. arrive_all os srv i cs = Inr srv' \<and> session_at srv' i = Some s' \<and> cs_valid s' \<and>
    srv_eventQueue srv' = srv_eventQueue srv @ map (received (cs_sessionId s)) ps \<and>
    contents (cs_recvQ s') = rest"
  using assms
proof (induction cs arbitrary: srv s ps)
  case Nil
  then show ?case by simp
next
  case (Cons c cs)
  let ?bs = "contents (cs_recvQ s) @ c"
  obtain ps1 rest1 bad1 where e: "split_packets False ?bs = (ps1, rest1, bad1)"
    by (cases "split_packets False ?bs")
  have whole: "split_packets False (?bs @ concat cs) = (ps, rest, False)" using Cons.prems(9) by simp
  have "\<not> bad1"
  proof
    assume "bad1"
    with e have "split_packets False ?bs = (ps1, rest1, True)" by simp
    from split_append_bad [OF this, of "concat cs"] whole show False by simp
  qed
  with e have 1: "split_packets False ?bs = (ps1, rest1, False)" by simp
  obtain ps2 where 2: "split_packets False (rest1 @ concat cs) = (ps2, rest, False)" "ps = ps1 @ ps2"
    using split_append [OF 1, of "concat cs"] whole by (auto split: prod.splits)
  have c: "c \<noteq> []" "length (contents (cs_recvQ s)) + length c \<le> 65535" "chunks_fit rest1 cs"
    using Cons.prems(7) 1 by simp_all
  have "length c \<le> room (cs_recvQ s)"
    using c(2) srv_ok_at [OF Cons.prems(1,4)] by (simp add: room_def session_ok_def)
  then obtain srv1 where a: "arrive os srv i c = Inr srv1" "parsed_central srv srv1 i s ?bs"
    using arrive_parsed_central [OF Cons.prems(1-5) c(1) _ Cons.prems(6)] by auto
  then obtain s1 where s1: "session_at srv1 i = Some s1" "cs_sessionId s1 = cs_sessionId s"
      "contents (cs_recvQ s1) = rest1" "cs_valid s1" "srv_architectureType srv1 = Centralized" "srv_ok srv1"
      "srv_running srv1" "srv_eventQueue srv1 = srv_eventQueue srv @ map (received (cs_sessionId s)) ps1"
    using 1 Cons.prems(2) by (auto simp: parsed_central_def)
  have "split_packets False rest1 = ([], rest1, False)"
    using split_append [OF 1, of "[]"] 1 by (auto split: prod.splits)
  then show ?case
    using Cons.IH [OF s1(6,7,5,1,4) Cons.prems(6)] c(3) s1 2 a(1) by auto
qed

end
