(* ===== verification/SessionStep.thy ===== *)
theory SessionStep
  imports Framing
begin

text \<open>
  What one operation on one session can do to the server.  The locale \<open>send_effect\<close> is the
  contract of an effect that holds of the elementary changes of the state and composes: it then
  holds of sending and of posting a receive as a whole.  With \<open>session_effect\<close>, which adds the
  delivery of a packet, it holds of packet extraction and of the worker thread.
\<close>

section \<open>The elementary changes\<close>

locale send_effect =
  fixes E :: "nat \<Rightarrow> CIOCPServer \<Rightarrow> CIOCPServer \<Rightarrow> bool"
  assumes effect_refl: "E i a a"
    and effect_trans: "E i a b \<Longrightarrow> E i b c \<Longrightarrow> E i a c"
    and effect_set: "session_at a i = Some s \<Longrightarrow> cs_sessionId t = cs_sessionId s \<Longrightarrow> cs_valid t = cs_valid s \<Longrightarrow>
      E i a (set_session a i t)"
    and effect_syscall: "E i a (syscall call a)"
    and effect_Disconnect: "E i a (snd (DisconnectSessionInternal a i))"

locale session_effect = send_effect +
  assumes effect_received: "E i a (PushNetworkEvent a (received sid packet))"

section \<open>Returning with an effect\<close>

text \<open>The operation returns, keeps the server well-formed, and has the effect \<open>E\<close> on slot \<open>i\<close>.\<close>

definition runs_on ::
  "(nat \<Rightarrow> CIOCPServer \<Rightarrow> CIOCPServer \<Rightarrow> bool) \<Rightarrow> nat \<Rightarrow> CIOCPServer \<Rightarrow> CIOCPServer res \<Rightarrow> bool" where
  "runs_on E i srv r \<longleftrightarrow> (case r of Inl e \<Rightarrow> False | Inr srv' \<Rightarrow> srv_ok srv' \<and> E i srv srv')"

lemma runs_on_Inr [simp]: "runs_on E i srv (Inr srv') \<longleftrightarrow> srv_ok srv' \<and> E i srv srv'"
  by (simp add: runs_on_def)

lemma runs_onE:
  assumes "runs_on E i srv r" obtains srv' where "r = Inr srv'" "srv_ok srv'" "E i srv srv'"
  using assms by (auto simp: runs_on_def split: sum.splits)

text \<open>A completion: its key and its overlapped block belong to sessions of the table.\<close>

definition completion_ok :: "CIOCPServer \<Rightarrow> completion \<Rightarrow> bool" where
  "completion_ok srv c \<longleftrightarrow>
     (case cp_key c of None \<Rightarrow> True
      | Some i \<Rightarrow> (case session_at srv i of None \<Rightarrow> False
          | Some s \<Rightarrow> cs_sessionId s \<noteq> 0 \<and> i = unat (ExtractIndex (cs_sessionId s)))) \<and>
     (case cp_overlapped c of None \<Rightarrow> True
      | Some (RecvOv j) \<Rightarrow> session_at srv j \<noteq> None
      | Some (SendOv j) \<Rightarrow> session_at srv j \<noteq> None)"

context send_effect
begin

lemma runs_on_refl: "srv_ok srv \<Longrightarrow> runs_on E i srv (Inr srv)"
  by (simp add: effect_refl)

lemma runs_on_trans: "E i a b \<Longrightarrow> runs_on E i b r \<Longrightarrow> runs_on E i a r"
  by (auto elim!: runs_onE intro: effect_trans)

lemma runs_on_Disconnect: "srv_ok srv \<Longrightarrow> runs_on E i srv (Inr (snd (DisconnectSessionInternal srv i)))"
  by (simp add: srv_ok_Disconnect effect_Disconnect)

lemma runs_on_disconnected:
  "srv_ok srv \<Longrightarrow> session_at srv i = Some s \<Longrightarrow> cs_valid s \<Longrightarrow> runs_on E i srv (Inr (disconnected srv i s))"
  using runs_on_Disconnect [of srv i] by (simp add: Disconnect_valid)

lemma posted_send_runs:
  assumes "srv_ok srv" "session_at srv i = Some s" "session_ok t"
    and t: "cs_sessionId t = cs_sessionId s" "cs_valid t = cs_valid s"
  shows "runs_on E i srv (Inr (posted_send os srv i t))"
proof -
  let ?srv1 = "syscall (OsSend (cs_socket t) (contents (cs_sendQ t))) (set_session srv i t)"
  let ?srv2 = "set_session ?srv1 i (t\<lparr>cs_sending := False\<rparr>)"
  have ok: "srv_ok ?srv1" "srv_ok ?srv2" using assms by (simp_all add: srv_ok_set)
  have 1: "E i srv ?srv1" by (rule effect_trans [OF effect_set [OF assms(2) t] effect_syscall])
  have "session_at ?srv1 i = Some t" using session_at_Some_less [OF assms(2)] by simp
  then have "E i ?srv1 ?srv2" by (rule effect_set) simp_all
  with 1 have "E i srv ?srv2" by (rule effect_trans)
  then show ?thesis
    using 1 ok runs_on_trans [OF _ runs_on_Disconnect [OF ok(2)]] by (simp add: posted_send_def Let_def)
qed

lemma PostSend_runs:
  assumes "srv_ok srv" shows "runs_on E i srv (PostSend os srv i)"
proof (cases "session_at srv i")
  case None
  then show ?thesis using runs_on_refl [OF assms] by (simp add: PostSend_def)
next
  case (Some s)
  then show ?thesis
    using PostSend_eq [OF Some srv_ok_at [OF assms Some], of os] runs_on_refl [OF assms, of i]
      posted_send_runs [OF assms Some, of "s\<lparr>cs_sending := True\<rparr>" os] srv_ok_at [OF assms Some]
    by simp
qed

lemma RequestSendMsg_runs:
  fixes len :: int32_t
  assumes ok: "srv_ok srv" and mem: "unat (scast len :: size_t) \<le> length data \<or> 65536 \<le> unat (scast len :: size_t)"
    and find: "FindSession srv sid = Some i"
  shows "runs_on E i srv (RequestSendMsg os srv sid data len)"
proof -
  obtain s where at: "session_at srv i = Some s" using find by (auto simp: FindSession_Some)
  have sok: "session_ok s" using ok at by (rule srv_ok_at)
  show ?thesis
  proof (cases "cs_valid s")
    case False
    then show ?thesis using find at runs_on_refl [OF ok] by (simp add: RequestSendMsg_def)
  next
    case v: True
    let ?n = "unat (scast len :: size_t)"
    define t where "t = (if (scast len :: size_t) = 0 then s
      else s\<lparr>cs_sendQ := write_bytes (cs_sendQ s) (take ?n data)\<rparr>)"
    have "room (cs_sendQ s) < 65536"
      using room_less [OF session_rings(1) [OF sok]] sok by (simp add: session_ok_def)
    then have mem': "?n \<le> room (cs_sendQ s) \<Longrightarrow> ?n \<le> length data" using mem by linarith
    have fits: "srv_ok (set_session srv i t)" "E i srv (set_session srv i t)" if "?n \<le> room (cs_sendQ s)"
    proof -
      have "session_ok t"
        using sok that mem' by (auto simp: t_def session_ok_def write_bytes_ok)
      then show "srv_ok (set_session srv i t)" using ok by blast
      show "E i srv (set_session srv i t)" by (rule effect_set [OF at]) (simp_all add: t_def)
    qed
    have eq: "RequestSendMsg os srv sid data len =
        (if ?n \<le> room (cs_sendQ s) then PostSend os (set_session srv i t) i else Inr (disconnected srv i s))"
      unfolding t_def by (rule RequestSendMsg_eq [OF find at sok v mem'])
    show ?thesis
    proof (cases "?n \<le> room (cs_sendQ s)")
      case True
      then show ?thesis
        using eq runs_on_trans [OF fits(2) PostSend_runs [OF fits(1)]] by simp
    next
      case False
      then show ?thesis using eq runs_on_disconnected [OF ok at v] by (simp del: runs_on_Inr)
    qed
  qed
qed

lemma ProcessSend_runs:
  assumes ok: "srv_ok srv" shows "runs_on E i srv (ProcessSend os srv i bytes)"
proof (cases "session_at srv i")
  case None
  then show ?thesis using runs_on_refl [OF ok] by (simp add: ProcessSend_def)
next
  case (Some s)
  have sok: "session_ok s" using ok Some by (rule srv_ok_at)
  let ?s = "if bytes = 0 then s else s\<lparr>cs_sendQ := drop_bytes (cs_sendQ s) (unat bytes)\<rparr>"
  have t: "session_ok ?s" if "\<not> length (contents (cs_sendQ s)) < unat bytes"
    using sok that by (auto simp: session_ok_def drop_bytes_ok)
  have idle: "runs_on E i srv (Inr (set_session srv i (?s\<lparr>cs_sending := False\<rparr>)))" if "session_ok ?s"
    using ok Some that by (auto intro!: effect_set)
  note eq = ProcessSend_eq [OF Some sok, of os bytes]
  show ?thesis
  proof (cases "cs_valid s \<and> \<not> length (contents (cs_sendQ s)) < unat bytes")
    case True
    then show ?thesis
      using eq t idle posted_send_runs [OF ok Some, of ?s os]
      by (auto simp: Let_def simp del: runs_on_Inr)
  next
    case False
    then show ?thesis
      using eq runs_on_refl [OF ok, of i] runs_on_disconnected [OF ok Some]
      by (auto simp del: runs_on_Inr)
  qed
qed

lemma PostRecv_runs:
  assumes ok: "srv_ok srv" shows "runs_on E i srv (PostRecv os srv i)"
proof (cases "session_at srv i")
  case None
  then show ?thesis using runs_on_refl [OF ok] by (simp add: PostRecv_def)
next
  case (Some s)
  let ?c = "OsRecv (cs_socket s) (recv_bufs (rb_writePos (cs_recvQ s)) (direct_write_size (cs_recvQ s))
                   (GetFreeSize_Internal (cs_recvQ s)))"
  have 1: "runs_on E i srv (Inr (syscall ?c srv))" using ok by (simp add: effect_syscall)
  have 2: "runs_on E i srv (Inr (disconnected (syscall ?c srv) i s))" if "cs_valid s"
    using that Some ok by (intro runs_on_trans [OF effect_syscall runs_on_disconnected]) simp_all
  show ?thesis
    using PostRecv_eq [OF Some srv_ok_at [OF ok Some], of os] runs_on_refl [OF ok, of i] 1 2
      runs_on_disconnected [OF ok Some]
    by (auto simp: Let_def simp del: runs_on_Inr)
qed

end

context session_effect
begin

text \<open>The loop of \<open>ParsePackets\<close> on a session whose id names its slot.\<close>

lemma deliver_runs:
  assumes "srv_ok srv" "length p \<le> 65535" "FindSession srv sid = Some i"
  shows "\<exists>srv'. deliver os srv i sid p = Inr (Continue, srv') \<and> srv_ok srv' \<and> E i srv srv'"
proof -
  have "runs_on E i srv (RequestSendMsg os srv sid p (of_nat (length p)))"
    using assms by (intro RequestSendMsg_runs) (simp_all add: scast_of_nat_32)
  then obtain srv' where "RequestSendMsg os srv sid p (of_nat (length p)) = Inr srv'" "srv_ok srv'" "E i srv srv'"
    by (rule runs_onE)
  then show ?thesis
    using assms by (cases "srv_architectureType srv") (simp_all add: deliver_def effect_refl effect_received [unfolded received_def])
qed

lemma parse_loop_runs:
  "srv_ok srv \<Longrightarrow> session_at srv i = Some s \<Longrightarrow> i = unat (ExtractIndex (cs_sessionId s)) \<Longrightarrow>
   length (contents (cs_recvQ s)) < fuel \<Longrightarrow> runs_on E i srv (parse_loop fuel os srv i)"
proof (induction fuel arbitrary: srv s)
  case 0
  then show ?case by simp
next
  case (Suc fuel)
  note ok = Suc.prems(1) and at = Suc.prems(2)
  show ?case
  proof (cases rule: parse_step_cases [OF at srv_ok_at [OF ok at], of os, case_names stop bad packet])
    case stop
    then show ?thesis using runs_on_refl [OF ok] by simp
  next
    case bad
    then show ?thesis using runs_on_Disconnect [OF ok] by simp
  next
    case (packet n ps rest b)
    let ?t = "s\<lparr>cs_recvQ := drop_bytes (cs_recvQ s) n\<rparr>" and ?p = "take n (contents (cs_recvQ s))"
    note t = taken_ok [OF ok at packet(4)]
    have "FindSession (set_session srv i ?t) (cs_sessionId s) = Some i"
      using Suc.prems(3) t(2) by (auto simp: FindSession_Some)
    then obtain srv1 where d: "parse_step os srv i = Inr (Continue, srv1)" "srv_ok srv1"
        "E i (set_session srv i ?t) srv1"
      using deliver_runs [OF t(1), of ?p "cs_sessionId s" i os] packet by auto
    have eff: "E i srv srv1"
      by (rule effect_trans [OF effect_set [OF at] d(3)]) simp_all
    obtain srv2 where d2: "deliver os (set_session srv i ?t) i (cs_sessionId s) ?p = Inr (Continue, srv2)"
        "same_recv (set_session srv i ?t) srv2"
      using deliver_total [OF t(1), of ?p os i "cs_sessionId s"] packet(3) by (auto simp: min.coboundedI2)
    have "srv2 = srv1" using d(1) d2(1) packet(5) by simp
    then obtain s1 where s1: "session_at srv1 i = Some s1" "cs_sessionId s1 = cs_sessionId s" "cs_recvQ s1 = cs_recvQ ?t"
      using same_recv_at [OF d2(2) t(2)] by auto
    have "runs_on E i srv1 (parse_loop fuel os srv1 i)"
      using s1 t(3) packet(2,4) Suc.prems(3,4) by (intro Suc.IH [OF d(2) s1(1)]) simp_all
    then show ?thesis using d(1) runs_on_trans [OF eff] by simp
  qed
qed

lemma ProcessRecv_runs:
  assumes ok: "srv_ok srv" and at: "session_at srv i = Some s" and slot: "i = unat (ExtractIndex (cs_sessionId s))"
  shows "runs_on E i srv (ProcessRecv os srv i bytes)"
proof (cases "bytes = 0")
  case True
  then show ?thesis using runs_on_Disconnect [OF ok] by (simp add: ProcessRecv_def)
next
  case False
  have sok: "session_ok s" using ok at by (rule srv_ok_at)
  let ?n = "ucast bytes :: size_t"
  have n: "unat ?n = unat bytes" by (rule unat_ucast_64) simp
  with False have nz: "?n \<noteq> 0" by (metis unat_eq_zero)
  show ?thesis
  proof (cases "unat bytes \<le> room (cs_recvQ s)")
    case nofit: False
    then have "ProcessRecv os srv i bytes = Inr (snd (DisconnectSessionInternal srv i))"
      using MoveWritePtr_ok [OF session_rings(2) [OF sok], of ?n] n nz False at
      by (simp add: ProcessRecv_def set_session_same)
    then show ?thesis using runs_on_Disconnect [OF ok] by simp
  next
    case fits: True
    define t where "t = s\<lparr>cs_recvQ := advance_write (cs_recvQ s) (unat bytes)\<rparr>"
    let ?srv = "set_session srv i t"
    have eq: "ProcessRecv os srv i bytes = andThen (ParsePackets os ?srv i) (\<lambda>srv. PostRecv os srv i)"
      using MoveWritePtr_ok [OF session_rings(2) [OF sok], of ?n] n nz False at fits
      by (simp add: ProcessRecv_def t_def)
    have t: "session_ok t" using sok advance_write_ok [OF session_rings(2) [OF sok] fits] by (simp add: t_def session_ok_def)
    have srv: "srv_ok ?srv" "session_at ?srv i = Some t" "E i srv ?srv"
      using ok t session_at_Some_less [OF at] by (auto simp: t_def intro!: effect_set [OF at])
    have "runs_on E i ?srv (ParsePackets os ?srv i)"
      unfolding ParsePackets_loop [OF srv(2) t]
      by (rule parse_loop_runs [OF srv(1,2)]) (simp_all add: t_def slot [symmetric])
    then obtain srv1 where p: "ParsePackets os ?srv i = Inr srv1" "srv_ok srv1" "E i ?srv srv1"
      by (rule runs_onE)
    have "E i srv srv1" by (rule effect_trans [OF srv(3) p(3)])
    then show ?thesis using eq p runs_on_trans [OF _ PostRecv_runs [OF p(2)]] by simp
  qed
qed

lemma worker_step_runs:
  assumes ok: "srv_ok srv" and c: "completion_ok srv c"
  shows "\<exists>srv'. worker_step os srv c = Inr srv' \<and> srv_ok srv' \<and>
    (case cp_key c of None \<Rightarrow> srv' = srv | Some i \<Rightarrow> E i srv srv')"
proof (cases "cp_key c")
  case None
  then show ?thesis using ok by (auto simp: worker_step_def split: option.splits)
next
  case (Some i)
  then obtain s where s: "session_at srv i = Some s" "i = unat (ExtractIndex (cs_sessionId s))"
    using c by (auto simp: completion_ok_def split: option.splits)
  have ov: "\<exists>o'. read_overlapped srv ov = Inr o'" if "cp_overlapped c = Some ov" for ov
    using that c by (cases ov) (auto simp: completion_ok_def)
  have "runs_on E i srv (worker_step os srv c)"
    using ov runs_on_refl [OF ok, of i] runs_on_Disconnect [OF ok, of i] ProcessSend_runs [OF ok, of i os]
      ProcessRecv_runs [OF ok s, of os] Some s(1)
    by (auto simp: worker_step_def simp del: runs_on_Inr split: option.splits IOOperation.splits)
  then show ?thesis using Some by (auto elim!: runs_onE)
qed

end

end
