(* ===== verification/IOCPLifecycle.thy ===== *)
theory IOCPLifecycle
  imports IOCPTransfer
begin

text \<open>
  The life of the server and its sessions: start, accepting a connection, the body of the
  accept thread and the shutdown (\<open>IOCPServer.cpp\<close>, \<open>Start\<close> to \<open>ProcessAccept\<close>).
\<close>

section \<open>Start\<close>

text \<open>
  The loops over \<open>uint16_t i\<close> compare \<open>i\<close>, promoted to \<open>int\<close>, with \<open>int _maxClients\<close>; \<open>++i\<close>
  wraps at 65536.  The fuel bounds the number of turns.
\<close>

fun session_loop ::
  "nat \<Rightarrow> (size_t \<Rightarrow> byte list option) \<Rightarrow> int32_t \<Rightarrow> uint16_t \<Rightarrow> CSession option list \<Rightarrow>
   CSession option list res" where
  "session_loop 0 alloc maxClients i sessions = Inl OutOfFuel"
| "session_loop (Suc fuel) alloc maxClients i sessions =
     (if int (unat i) < sint maxClients
      then andThen (CSession_new alloc) (\<lambda>s.
           session_loop fuel alloc maxClients (i + 1) (sessions[unat i := Some s]))
      else Inr sessions)"

fun index_loop :: "nat \<Rightarrow> int32_t \<Rightarrow> uint16_t \<Rightarrow> uint16_t list \<Rightarrow> uint16_t list res" where
  "index_loop 0 maxClients i available = Inl OutOfFuel"
| "index_loop (Suc fuel) maxClients i available =
     (if int (unat i) < sint maxClients
      then index_loop fuel maxClients (i + 1) (available @ [i])
      else Inr available)"

text \<open>Enough turns for every run of these loops that ends: \<open>i\<close> takes at most 65535 values below the bound.\<close>

definition loop_fuel :: nat where
  "loop_fuel = 65537"

definition resize_sessions :: "CSession option list \<Rightarrow> int32_t \<Rightarrow> CSession option list res" where
  "resize_sessions sessions maxClients =
     (if sint maxClients < 0 then Inl LengthError
      else Inr (take (nat (sint maxClients)) sessions @
                replicate (nat (sint maxClients) - length sessions) None))"

definition CIOCPServer_new :: "int32_t \<Rightarrow> ServerArchitectureType \<Rightarrow> CIOCPServer" where
  "CIOCPServer_new maxClients type =
     \<lparr>srv_maxClients = maxClients, srv_architectureType = type, srv_running = False,
      srv_sessionIdCounter = 1, srv_listenSocket = INVALID_SOCKET, srv_iocpHandle = 0,
      srv_sessions = [], srv_availableIndices = [], srv_pendingDisconStack = [],
      srv_eventQueue = [], srv_log = []\<rparr>"

definition CreateListenSocket :: "os \<Rightarrow> CIOCPServer \<Rightarrow> bool \<times> CIOCPServer" where
  "CreateListenSocket os srv =
     (let srv = syscall OsWSASocket srv;
          srv = srv\<lparr>srv_listenSocket := os_result os srv\<rparr> in
      if srv_listenSocket srv = INVALID_SOCKET then (False, srv)
      else
        let srv = syscall (OsBindPort (srv_listenSocket srv)) srv in
        if os_result os srv \<noteq> 0
        then (False, syscall (OsCloseSocket (srv_listenSocket srv)) srv)
        else
          let srv = syscall (OsListen (srv_listenSocket srv)) srv in
          if os_result os srv \<noteq> 0
          then (False, syscall (OsCloseSocket (srv_listenSocket srv)) srv)
          else (True, srv))"

definition Start ::
  "(size_t \<Rightarrow> byte list option) \<Rightarrow> os \<Rightarrow> CIOCPServer \<Rightarrow> (bool \<times> CIOCPServer) res" where
  "Start alloc os srv =
     andThen (resize_sessions (srv_sessions srv) (srv_maxClients srv)) (\<lambda>sessions.
     andThen (session_loop loop_fuel alloc (srv_maxClients srv) 0 sessions) (\<lambda>sessions.
     andThen (index_loop loop_fuel (srv_maxClients srv) 0 (srv_availableIndices srv)) (\<lambda>available.
     let srv = srv\<lparr>srv_sessions := sessions, srv_availableIndices := available\<rparr>;
         srv = syscall OsWSAStartup srv in
     if os_result os srv \<noteq> 0 then Inr (False, srv)
     else
       let srv = syscall OsCreateIOCP srv;
           srv = srv\<lparr>srv_iocpHandle := os_result os srv\<rparr> in
       if srv_iocpHandle srv = 0 then Inr (False, syscall OsWSACleanup srv)
       else
         (case CreateListenSocket os srv of
            (False, srv) \<Rightarrow> Inr (False, syscall OsWSACleanup (syscall OsCloseIOCP srv))
          | (True, srv) \<Rightarrow>
              Inr (True, syscall OsStartThreads (srv\<lparr>srv_running := True\<rparr>))))))"

section \<open>Accepting\<close>

text \<open>The linger option makes \<open>closesocket\<close> reset the connection; the result of \<open>setsockopt\<close> is ignored.\<close>

definition SetSocketOptions :: "SOCKET \<Rightarrow> CIOCPServer \<Rightarrow> bool \<times> CIOCPServer" where
  "SetSocketOptions socket srv = (True, syscall (OsSetLinger socket) srv)"

definition BindIOCP :: "os \<Rightarrow> SOCKET \<Rightarrow> nat \<Rightarrow> CIOCPServer \<Rightarrow> bool \<times> CIOCPServer" where
  "BindIOCP os socket completionKey srv =
     (let srv = syscall (OsBindIOCP socket completionKey) srv;
          handle = os_result os srv in
      if handle = 0 then (False, srv) else (True, srv))"

definition ProcessAccept :: "os \<Rightarrow> CIOCPServer \<Rightarrow> SOCKET \<Rightarrow> CIOCPServer res" where
  "ProcessAccept os srv clientSocket =
     (case srv_availableIndices srv of
        [] \<Rightarrow> Inr (syscall (OsCloseSocket clientSocket) srv)
      | index # rest \<Rightarrow>
          let srv = srv\<lparr>srv_availableIndices := rest\<rparr>;
              uniqueId = ExtractUniqueId (srv_sessionIdCounter srv);
              srv = srv\<lparr>srv_sessionIdCounter := srv_sessionIdCounter srv + 1\<rparr>;
              sessionId = MakeSessionId index uniqueId;
              i = unat index in
          andThen (deref srv i) (\<lambda>s.
          andThen (Initialize s clientSocket sessionId) (\<lambda>s.
          case BindIOCP os clientSocket i (set_session srv i s) of
            (False, srv) \<Rightarrow>
              let srv = Close srv i s;
                  srv = srv\<lparr>srv_availableIndices := srv_availableIndices srv @ [index]\<rparr> in
              Inr (syscall (OsCloseSocket clientSocket) srv)
          | (True, srv) \<Rightarrow>
              let srv = (case srv_architectureType srv of
                           Centralized \<Rightarrow> PushNetworkEvent srv
                             \<lparr>ev_type = CONNECTED, ev_sessionId = sessionId, ev_data = []\<rparr>
                         | _ \<Rightarrow> srv) in
              PostRecv os srv i)))"

text \<open>The body of the loop of \<open>AcceptThread\<close>, for the socket that \<open>accept\<close> returned.\<close>

definition accept_step :: "os \<Rightarrow> CIOCPServer \<Rightarrow> SOCKET \<Rightarrow> CIOCPServer res" where
  "accept_step os srv clientSocket =
     (let srv = ReleaseSession srv in
      if clientSocket = INVALID_SOCKET then Inr srv
      else ProcessAccept os (snd (SetSocketOptions clientSocket srv)) clientSocket)"

section \<open>Shutdown\<close>

text \<open>The loop over all sessions: the socket is closed but \<open>_socket\<close> keeps its value.\<close>

fun disconnect_sessions :: "CSession option list \<Rightarrow> os_call list \<Rightarrow> CSession option list \<times> os_call list" where
  "disconnect_sessions [] log = ([], log)"
| "disconnect_sessions (None # ss) log =
     (let (ss, log) = disconnect_sessions ss log in (None # ss, log))"
| "disconnect_sessions (Some s # ss) log =
     (if cs_socket s \<noteq> INVALID_SOCKET
      then let (ss, log) = disconnect_sessions ss (OsCloseSocket (cs_socket s) # log)
           in (Some (s\<lparr>cs_valid := False\<rparr>) # ss, log)
      else let (ss, log) = disconnect_sessions ss log in (Some s # ss, log))"

definition Disconnect :: "CIOCPServer \<Rightarrow> CIOCPServer res" where
  "Disconnect srv =
     (if \<not> srv_running srv then Inr srv
      else
        let (sessions, log) = disconnect_sessions (srv_sessions srv) (srv_log srv);
            srv = srv\<lparr>srv_running := False, srv_sessions := sessions, srv_log := log\<rparr> in
        andThen (index_loop loop_fuel (srv_maxClients srv) 0 []) (\<lambda>available.
        let srv = srv\<lparr>srv_availableIndices := available\<rparr>;
            srv = (if srv_listenSocket srv \<noteq> INVALID_SOCKET
                   then (syscall (OsCloseSocket (srv_listenSocket srv)) srv)
                          \<lparr>srv_listenSocket := INVALID_SOCKET\<rparr>
                   else srv);
            srv = syscall OsWakeAndJoinThreads srv;
            srv = (if srv_iocpHandle srv \<noteq> 0
                   then (syscall OsCloseIOCP srv)\<lparr>srv_iocpHandle := 0\<rparr> else srv) in
        Inr (syscall OsWSACleanup srv)))"


section \<open>Destruction\<close>

text \<open>\<open>~CSession\<close> closes the socket; the object is gone afterwards, its effect is the log of calls.\<close>

definition CSession_destroy :: "CSession \<Rightarrow> os_call list \<Rightarrow> os_call list" where
  "CSession_destroy s log = (if cs_socket s \<noteq> INVALID_SOCKET then OsCloseSocket (cs_socket s) # log else log)"

text \<open>The sessions are destroyed with the vector that owns them, first to last.\<close>

fun destroy_sessions :: "CSession option list \<Rightarrow> os_call list \<Rightarrow> os_call list" where
  "destroy_sessions [] log = log"
| "destroy_sessions (None # ss) log = destroy_sessions ss log"
| "destroy_sessions (Some s # ss) log = destroy_sessions ss (CSession_destroy s log)"

text \<open>
  \<open>SignalProcessShutdown\<close> of \<open>main.cpp\<close>, on the flag \<open>running\<close> of the process; the notification wakes a
  waiting \<open>main\<close>, which looks at the flag.
\<close>

definition SignalProcessShutdown :: "bool \<Rightarrow> bool" where
  "SignalProcessShutdown running = False"

text \<open>\<open>~CIOCPServer\<close> and the destruction of the members: the flag of the process and the log.\<close>

definition CIOCPServer_destroy :: "CIOCPServer \<Rightarrow> bool \<Rightarrow> (bool \<times> os_call list) res" where
  "CIOCPServer_destroy srv running =
     andThen (Disconnect srv) (\<lambda>srv.
     let running = SignalProcessShutdown running in
     Inr (running, destroy_sessions (srv_sessions srv) (srv_log srv)))"

end
