(* ===== verification/SessionPool.thy ===== *)
theory SessionPool
  imports SessionStep IOCPLifecycle
begin

text \<open>
  The session pool of the server: the queue of free slots, the stack of sessions waiting for
  their release and the session table.  The invariant \<open>pool_ok\<close> says that every slot is free,
  waiting or live, and never two of these; \<open>server_step\<close> is one atomic step of one of the
  server's threads and \<open>reachable\<close> what \<open>Start\<close> and any sequence of steps lead to.
\<close>

section \<open>The invariant\<close>

text \<open>
  A slot of the table: never used, with the id \<open>0\<close> of the constructor, and then free; or
  used, with an id that names the slot and an earlier value of the counter, and then valid
  exactly while it is neither free nor waiting for release.
\<close>

definition slot_ok :: "CIOCPServer \<Rightarrow> nat \<Rightarrow> CSession \<Rightarrow> bool" where
  "slot_ok srv i s \<longleftrightarrow>
     (if cs_sessionId s = 0 then of_nat i \<in> set (srv_availableIndices srv)
      else unat (ExtractIndex (cs_sessionId s)) = i \<and>
        0 < unat (ExtractUniqueId (cs_sessionId s)) \<and>
        unat (ExtractUniqueId (cs_sessionId s)) < unat (srv_sessionIdCounter srv) \<and>
        (cs_valid s \<longleftrightarrow> of_nat i \<notin> set (srv_availableIndices srv) \<and>
           of_nat i \<notin> ExtractIndex ` set (srv_pendingDisconStack srv)))"

definition pool_ok :: "CIOCPServer \<Rightarrow> bool" where
  "pool_ok srv \<longleftrightarrow>
     length (srv_sessions srv) \<le> 65535 \<and> 0 < unat (srv_sessionIdCounter srv) \<and>
     distinct (srv_availableIndices srv @ map ExtractIndex (srv_pendingDisconStack srv)) \<and>
     list_all (\<lambda>i. unat i < length (srv_sessions srv))
       (srv_availableIndices srv @ map ExtractIndex (srv_pendingDisconStack srv)) \<and>
     list_all (\<lambda>sid. sid \<noteq> 0 \<and> FindSession srv sid = Some (unat (ExtractIndex sid))) (srv_pendingDisconStack srv) \<and>
     list_all (\<lambda>i. case session_at srv i of None \<Rightarrow> False | Some s \<Rightarrow> slot_ok srv i s) [0..<length (srv_sessions srv)]"

text \<open>What the pool depends on.\<close>

definition same_pool :: "CIOCPServer \<Rightarrow> CIOCPServer \<Rightarrow> bool" where
  "same_pool srv srv' \<longleftrightarrow>
     srv_availableIndices srv' = srv_availableIndices srv \<and>
     srv_pendingDisconStack srv' = srv_pendingDisconStack srv \<and>
     srv_sessionIdCounter srv' = srv_sessionIdCounter srv \<and>
     length (srv_sessions srv') = length (srv_sessions srv) \<and>
     (\<forall>j. map_option (\<lambda>s. (cs_sessionId s, cs_valid s)) (session_at srv' j) =
          map_option (\<lambda>s. (cs_sessionId s, cs_valid s)) (session_at srv j))"

lemma same_pool_refl [simp]: "same_pool srv srv"
  by (simp add: same_pool_def)

lemma same_pool_sym: "same_pool a b \<Longrightarrow> same_pool b a"
  by (simp add: same_pool_def)

lemma same_pool_trans: "same_pool a b \<Longrightarrow> same_pool b c \<Longrightarrow> same_pool a c"
  by (simp add: same_pool_def)

lemma same_pool_frame [simp]:
  "same_pool srv (syscall c srv') = same_pool srv srv'"
  "same_pool srv (PushNetworkEvent srv' e) = same_pool srv srv'"
  by (simp_all add: same_pool_def)

lemma same_pool_set:
  "session_at srv i = Some s \<Longrightarrow> cs_sessionId t = cs_sessionId s \<Longrightarrow> cs_valid t = cs_valid s \<Longrightarrow>
   same_pool srv (set_session srv i t)"
  by (simp add: same_pool_def)

lemma same_pool_at:
  assumes "same_pool srv srv'" "session_at srv j = Some s"
  obtains s' where "session_at srv' j = Some s'" "cs_sessionId s' = cs_sessionId s" "cs_valid s' = cs_valid s"
  using assms by (auto simp: same_pool_def dest!: spec [of _ j])

text \<open>Lookup depends on the ids in the table only.\<close>

lemma FindSession_cong:
  assumes "\<And>j. map_option cs_sessionId (session_at srv' j) = map_option cs_sessionId (session_at srv j)"
  shows "FindSession srv' sid = FindSession srv sid"
proof -
  have e: "FindSession srv sid = Some i \<longleftrightarrow> i = unat (ExtractIndex sid) \<and>
      (\<exists>x. map_option cs_sessionId (session_at srv i) = Some x \<and> ExtractUniqueId x = ExtractUniqueId sid)"
    for srv i by (auto simp: FindSession_Some)
  have "FindSession srv' sid = Some i \<longleftrightarrow> FindSession srv sid = Some i" for i
    by (simp only: e assms)
  then show ?thesis by (metis not_None_eq)
qed

lemma FindSession_same_pool:
  assumes "same_pool srv srv'" shows "FindSession srv' sid = FindSession srv sid"
proof (rule FindSession_cong)
  fix j
  show "map_option cs_sessionId (session_at srv' j) = map_option cs_sessionId (session_at srv j)"
    using assms by (cases "session_at srv j"; cases "session_at srv' j") (auto simp: same_pool_def dest!: spec [of _ j])
qed

lemma pool_ok_same:
  assumes "same_pool srv srv'" "pool_ok srv"
  shows "pool_ok srv'"
proof -
  have "case session_at srv' i of None \<Rightarrow> False | Some s \<Rightarrow> slot_ok srv' i s"
    if "case session_at srv i of None \<Rightarrow> False | Some s \<Rightarrow> slot_ok srv i s" for i
    using that assms(1) by (auto simp: slot_ok_def same_pool_def split: option.splits dest!: spec [of _ i])
  then show ?thesis
    using assms FindSession_same_pool [OF assms(1)]
    by (auto simp: pool_ok_def list_all_iff same_pool_def)
qed

lemma pool_slot:
  assumes "pool_ok srv" "session_at srv i = Some s"
  shows "slot_ok srv i s"
proof -
  have "i \<in> set [0..<length (srv_sessions srv)]" using session_at_Some_less [OF assms(2)] by simp
  then have "case session_at srv i of None \<Rightarrow> False | Some s \<Rightarrow> slot_ok srv i s"
    using assms(1) unfolding pool_ok_def list_all_iff by blast
  then show ?thesis using assms(2) by simp
qed

lemma pool_session:
  assumes "pool_ok srv" "i < length (srv_sessions srv)"
  obtains s where "session_at srv i = Some s"
proof -
  have "i \<in> set [0..<length (srv_sessions srv)]" using assms(2) by simp
  then show ?thesis using assms(1) that by (fastforce simp: pool_ok_def list_all_iff split: option.splits)
qed

text \<open>A slot number below 65536 and its 16-bit index.\<close>

lemma index_eq_iff:
  "i < 65536 \<Longrightarrow> (of_nat i :: uint16_t) = w \<longleftrightarrow> i = unat w"
  by (auto simp: word_unat_eq_iff unat_of_nat_small)

lemma unique_zero: "ExtractUniqueId sid \<noteq> 0 \<Longrightarrow> sid \<noteq> 0"
  by (auto simp: ExtractUniqueId_def)

section \<open>Disconnection and release\<close>

lemma pool_ok_disconnected:
  assumes ok: "pool_ok srv" and at: "session_at srv i = Some s" and v: "cs_valid s" and used: "cs_sessionId s \<noteq> 0"
  shows "pool_ok (disconnected srv i s)"
proof -
  let ?sid = "cs_sessionId s" and ?d = "disconnected srv i s"
  have i: "i < length (srv_sessions srv)" "i < 65536"
    using session_at_Some_less [OF at] ok by (auto simp: pool_ok_def)
  have slot: "unat (ExtractIndex ?sid) = i" "of_nat i \<notin> set (srv_availableIndices srv)"
    "of_nat i \<notin> ExtractIndex ` set (srv_pendingDisconStack srv)"
    using pool_slot [OF ok at] v used by (auto simp: slot_ok_def)
  then have idx: "ExtractIndex ?sid = of_nat i" by auto
  have find: "FindSession ?d x = FindSession srv x" for x
    using at by (intro FindSession_cong) auto
  have slots: "case session_at ?d j of None \<Rightarrow> False | Some t \<Rightarrow> slot_ok ?d j t"
    if j: "j < length (srv_sessions srv)" for j
  proof (cases "j = i")
    case True
    then show ?thesis using i slot used pool_slot [OF ok at] idx by (simp add: slot_ok_def)
  next
    case False
    obtain t where t: "session_at srv j = Some t" using pool_session [OF ok j] by blast
    have "(of_nat j :: uint16_t) \<noteq> of_nat i"
      using False i j ok by (simp add: index_eq_iff unat_of_nat_small pool_ok_def)
    then show ?thesis
      using False t pool_slot [OF ok t] idx by (auto simp: slot_ok_def)
  qed
  have "FindSession srv ?sid = Some (unat (ExtractIndex ?sid))"
    using at slot by (simp add: FindSession_Some)
  then show ?thesis
    using ok slots slot idx i used by (auto simp: pool_ok_def list_all_iff find image_iff unat_of_nat_small)
qed

text \<open>One turn of the loop of \<open>ReleaseSession\<close>: the slot moves from the stack to the free queue.\<close>

lemma pool_ok_pop:
  assumes ok: "pool_ok srv" and st: "srv_pendingDisconStack srv = sid # rest"
  shows "pool_ok (srv\<lparr>srv_pendingDisconStack := rest,
    srv_availableIndices := srv_availableIndices srv @ [ExtractIndex sid]\<rparr>)" (is "pool_ok ?p")
proof -
  have frame: "session_at ?p = session_at srv" "srv_sessions ?p = srv_sessions srv" by simp_all
  have find: "FindSession ?p x = FindSession srv x" for x by (intro FindSession_cong) simp
  have perm: "set (srv_availableIndices ?p) \<union> ExtractIndex ` set (srv_pendingDisconStack ?p) =
      set (srv_availableIndices srv) \<union> ExtractIndex ` set (srv_pendingDisconStack srv)"
    using st by auto
  have slots: "slot_ok ?p j t" if "slot_ok srv j t" for j t
    using that st by (auto simp: slot_ok_def)
  then have "case session_at ?p j of None \<Rightarrow> False | Some t \<Rightarrow> slot_ok ?p j t"
    if "case session_at srv j of None \<Rightarrow> False | Some t \<Rightarrow> slot_ok srv j t" for j
    using that frame by (auto split: option.splits)
  then show ?thesis
    using ok st by (auto simp: pool_ok_def list_all_iff find)
qed

lemma Close_same_pool:
  "session_at srv i = Some s \<Longrightarrow> same_pool srv (Close srv i s)"
  by (auto simp: Close_def set_session_syscall intro!: same_pool_set)

lemma same_pool_queues:
  "same_pool srv srv' \<Longrightarrow> same_pool (srv\<lparr>srv_availableIndices := a\<rparr>) (srv'\<lparr>srv_availableIndices := a\<rparr>)"
  by (simp add: same_pool_def)

lemma release_loop_pool:
  "pool_ok srv \<Longrightarrow> srv_pendingDisconStack srv = stack \<Longrightarrow>
   pool_ok (release_loop stack srv) \<and> srv_pendingDisconStack (release_loop stack srv) = [] \<and>
   srv_sessionIdCounter (release_loop stack srv) = srv_sessionIdCounter srv \<and>
   srv_availableIndices (release_loop stack srv) = srv_availableIndices srv @ map ExtractIndex stack"
proof (induction stack arbitrary: srv)
  case Nil
  then show ?case by simp
next
  case (Cons sid rest)
  let ?p = "srv\<lparr>srv_pendingDisconStack := rest\<rparr>" and ?i = "unat (ExtractIndex sid)"
  have "FindSession srv sid = Some ?i" using Cons.prems by (simp add: pool_ok_def)
  moreover have "FindSession ?p sid = FindSession srv sid" by (intro FindSession_cong) simp
  ultimately obtain s where f: "FindSession ?p sid = Some ?i" "session_at ?p ?i = Some s"
    by (auto simp: FindSession_Some)
  let ?c = "Close ?p ?i s"
  let ?a = "srv_availableIndices srv @ [ExtractIndex sid]"
  have same: "same_pool ?p ?c" using f(2) by (rule Close_same_pool)
  then have same': "same_pool (?p\<lparr>srv_availableIndices := ?a\<rparr>) (?c\<lparr>srv_availableIndices := ?a\<rparr>)"
    by (rule same_pool_queues)
  have "pool_ok (?c\<lparr>srv_availableIndices := ?a\<rparr>)"
    by (rule pool_ok_same [OF same']) (rule pool_ok_pop [OF Cons.prems])
  moreover have "release_loop (sid # rest) srv = release_loop rest (?c\<lparr>srv_availableIndices := ?a\<rparr>)"
    using f same by (simp add: same_pool_def)
  ultimately show ?case using Cons.IH [of "?c\<lparr>srv_availableIndices := ?a\<rparr>"] same
    by (simp add: same_pool_def)
qed

lemma ReleaseSession_pool:
  assumes "pool_ok srv"
  shows "pool_ok (ReleaseSession srv)" "srv_pendingDisconStack (ReleaseSession srv) = []"
    "srv_sessionIdCounter (ReleaseSession srv) = srv_sessionIdCounter srv"
    "srv_availableIndices (ReleaseSession srv) = srv_availableIndices srv @ map ExtractIndex (srv_pendingDisconStack srv)"
  using release_loop_pool [OF assms refl] by (simp_all add: ReleaseSession_def)

section \<open>What a step of one session does to the pool\<close>

text \<open>Nothing, or the disconnection of the session in slot \<open>i\<close> and nothing else.\<close>

definition pool_effect :: "nat \<Rightarrow> CIOCPServer \<Rightarrow> CIOCPServer \<Rightarrow> bool" where
  "pool_effect i srv srv' \<longleftrightarrow> same_pool srv srv' \<or>
     (\<exists>s. session_at srv i = Some s \<and> cs_valid s \<and> same_pool (disconnected srv i s) srv')"

lemma pool_effect_same: "same_pool srv srv' \<Longrightarrow> pool_effect i srv srv'"
  by (simp add: pool_effect_def)

lemma disconnected_same_pool:
  assumes "same_pool a b" "session_at a i = Some s" "session_at b i = Some t" "cs_sessionId t = cs_sessionId s"
  shows "same_pool (disconnected a i s) (disconnected b i t)"
  using assms by (auto simp: same_pool_def)

lemma pool_effect_trans:
  assumes "pool_effect i a b" "pool_effect i b c"
  shows "pool_effect i a c"
proof (cases "same_pool a b")
  case ab: True
  show ?thesis
  proof (cases "same_pool b c")
    case True
    show ?thesis by (rule pool_effect_same [OF same_pool_trans [OF ab True]])
  next
    case False
    then obtain s where s: "session_at b i = Some s" "cs_valid s" "same_pool (disconnected b i s) c"
      using assms(2) by (auto simp: pool_effect_def)
    obtain t where t: "session_at a i = Some t" "cs_sessionId t = cs_sessionId s" "cs_valid t"
      by (rule same_pool_at [OF same_pool_sym [OF ab] s(1)]) (simp add: s(2))
    then have "same_pool (disconnected a i t) (disconnected b i s)"
      using ab s by (intro disconnected_same_pool) simp_all
    from same_pool_trans [OF this s(3)] show ?thesis using t unfolding pool_effect_def by blast
  qed
next
  case False
  then obtain s where s: "session_at a i = Some s" "cs_valid s" "same_pool (disconnected a i s) b"
    using assms(1) by (auto simp: pool_effect_def)
  have "session_at (disconnected a i s) i = Some (closed_session s)"
    using session_at_Some_less [OF s(1)] by simp
  then obtain t where "session_at b i = Some t" "\<not> cs_valid t"
    by (rule same_pool_at [OF s(3)]) simp
  then have "same_pool b c" using assms(2) by (simp add: pool_effect_def)
  from same_pool_trans [OF s(3) this] show ?thesis using s(1,2) unfolding pool_effect_def by blast
qed

lemma pool_effect_Disconnect: "pool_effect i srv (snd (DisconnectSessionInternal srv i))"
proof (cases "\<exists>s. session_at srv i = Some s \<and> cs_valid s")
  case True
  then show ?thesis by (auto simp: Disconnect_valid pool_effect_def)
next
  case False
  then show ?thesis by (simp add: Disconnect_invalid pool_effect_same)
qed

lemma pool_effect_ok:
  assumes "pool_ok srv" "pool_effect i srv srv'"
    and "\<And>s. session_at srv i = Some s \<Longrightarrow> cs_valid s \<Longrightarrow> cs_sessionId s \<noteq> 0"
  shows "pool_ok srv'"
proof (cases "same_pool srv srv'")
  case True
  then show ?thesis using assms(1) by (rule pool_ok_same)
next
  case False
  then obtain s where "session_at srv i = Some s" "cs_valid s" "same_pool (disconnected srv i s) srv'"
    using assms(2) by (auto simp: pool_effect_def)
  then show ?thesis using pool_ok_same pool_ok_disconnected [OF assms(1)] assms(3) by blast
qed

lemma pool_effect_ids:
  assumes "pool_effect i srv srv'"
  shows "map_option cs_sessionId (session_at srv' j) = map_option cs_sessionId (session_at srv j)"
proof -
  have same: "map_option cs_sessionId (session_at b j) = map_option cs_sessionId (session_at a j)"
    if "same_pool a b" for a b
    using that by (cases "session_at a j"; cases "session_at b j") (auto simp: same_pool_def dest!: spec [of _ j])
  show ?thesis
  proof (cases "same_pool srv srv'")
    case True
    then show ?thesis by (rule same)
  next
    case False
    then obtain s where "session_at srv i = Some s" "same_pool (disconnected srv i s) srv'"
      using assms by (auto simp: pool_effect_def)
    then show ?thesis using same [of "disconnected srv i s" srv'] by auto
  qed
qed

lemma pool_effect_find: "pool_effect i srv srv' \<Longrightarrow> FindSession srv' sid = FindSession srv sid"
  by (rule FindSession_cong) (rule pool_effect_ids)

lemma pool_effect_at:
  assumes "pool_effect i srv srv'" "session_at srv j = Some s"
  obtains s' where "session_at srv' j = Some s'" "cs_sessionId s' = cs_sessionId s"
  using pool_effect_ids [OF assms(1), of j] assms(2) by auto

interpretation pool: session_effect pool_effect
proof
  show "pool_effect i a a" for i a by (simp add: pool_effect_same)
  show "pool_effect i a b \<Longrightarrow> pool_effect i b c \<Longrightarrow> pool_effect i a c" for i a b c by (rule pool_effect_trans)
  show "session_at a i = Some s \<Longrightarrow> cs_sessionId t = cs_sessionId s \<Longrightarrow> cs_valid t = cs_valid s \<Longrightarrow>
      pool_effect i a (set_session a i t)" for a i s t
    by (rule pool_effect_same) (rule same_pool_set)
qed (simp_all add: pool_effect_same pool_effect_Disconnect)

section \<open>Accepting\<close>

text \<open>The kernel binds every socket to the completion port.\<close>

definition binds_succeed :: "os \<Rightarrow> bool" where
  "binds_succeed os \<longleftrightarrow> (\<forall>k i log. os (OsBindIOCP k i # log) \<noteq> 0)"

text \<open>The server right after \<open>ProcessAccept\<close> has set up the session of slot \<open>index\<close>.\<close>

definition admitted :: "CIOCPServer \<Rightarrow> uint16_t \<Rightarrow> CSession \<Rightarrow> CIOCPServer" where
  "admitted srv index s =
     set_session (srv\<lparr>srv_availableIndices := tl (srv_availableIndices srv),
       srv_sessionIdCounter := srv_sessionIdCounter srv + 1\<rparr>) (unat index) s"

lemma ProcessAccept_eq:
  assumes av: "srv_availableIndices srv = index # rest" and at: "session_at srv (unat index) = Some s0"
    and ok: "session_ok s0" and os: "binds_succeed os"
  defines "sid \<equiv> MakeSessionId index (ExtractUniqueId (srv_sessionIdCounter srv))"
  shows "\<exists>s. Initialize s0 k sid = Inr s \<and> session_ok s \<and> cs_socket s = k \<and> cs_sessionId s = sid \<and> cs_valid s \<and>
    \<not> cs_sending s \<and> contents (cs_recvQ s) = [] \<and> contents (cs_sendQ s) = [] \<and>
    ProcessAccept os srv k =
      (let srv1 = syscall (OsBindIOCP k (unat index)) (admitted srv index s) in
       PostRecv os (if srv_architectureType srv = Centralized
         then PushNetworkEvent srv1 \<lparr>ev_type = CONNECTED, ev_sessionId = sid, ev_data = []\<rparr> else srv1) (unat index))"
proof -
  obtain s where s: "Initialize s0 k sid = Inr s" "session_ok s" "cs_socket s = k" "cs_sessionId s = sid"
      "cs_valid s" "\<not> cs_sending s" "contents (cs_recvQ s) = []" "contents (cs_sendQ s) = []"
    using Initialize_ok [OF ok] by blast
  have at': "session_at (srv\<lparr>srv_availableIndices := rest, srv_sessionIdCounter := c\<rparr>) (unat index) = Some s0" for c
    using at by simp
  have adm: "set_session (srv\<lparr>srv_availableIndices := rest, srv_sessionIdCounter := srv_sessionIdCounter srv + 1\<rparr>)
      (unat index) s = admitted srv index s"
    using av by (simp add: admitted_def)
  have "ProcessAccept os srv k =
      (let srv1 = syscall (OsBindIOCP k (unat index)) (admitted srv index s) in
       PostRecv os (if srv_architectureType srv = Centralized
         then PushNetworkEvent srv1 \<lparr>ev_type = CONNECTED, ev_sessionId = sid, ev_data = []\<rparr> else srv1) (unat index))"
    using av at' s(1) os adm
    by (auto simp: ProcessAccept_def BindIOCP_def Let_def sid_def [symmetric] os_result_def binds_succeed_def
        admitted_def split: ServerArchitectureType.splits)
  with s show ?thesis by blast
qed

lemma ExtractUniqueId_small:
  assumes "unat c < 2 ^ 48" shows "ExtractUniqueId c = c"
proof -
  have "ExtractUniqueId c = take_bit 48 c" by (simp add: ExtractUniqueId_def unique_mask take_bit_eq_mask)
  also have "\<dots> = c"
    using assms by (intro word_unat_eq_iff [THEN iffD2]) (simp add: unsigned_take_bit_eq take_bit_nat_eq_self)
  finally show ?thesis .
qed

lemma pool_ok_admitted:
  assumes ok: "pool_ok srv" and av: "srv_availableIndices srv = index # rest"
    and small: "unat (srv_sessionIdCounter srv) < 2 ^ 48"
    and s: "cs_sessionId s = MakeSessionId index (ExtractUniqueId (srv_sessionIdCounter srv))" "cs_valid s"
  shows "pool_ok (admitted srv index s)"
proof -
  let ?a = "admitted srv index s" and ?c = "srv_sessionIdCounter srv"
  have uid: "ExtractIndex (cs_sessionId s) = index" "ExtractUniqueId (cs_sessionId s) = ?c"
    using s(1) small by (simp_all add: ExtractIndex_Make ExtractUniqueId_Make
        ExtractUniqueId_small [OF small] ExtractUniqueId_small [OF small, unfolded ExtractUniqueId_def])
  have c: "0 < unat ?c" "unat (?c + 1) = unat ?c + 1"
    using ok small by (simp_all add: pool_ok_def unat_add_small)
  have n: "unat index < length (srv_sessions srv)" "length (srv_sessions srv) \<le> 65535"
    using ok av by (simp_all add: pool_ok_def)
  have fr: "srv_availableIndices ?a = rest" "srv_pendingDisconStack ?a = srv_pendingDisconStack srv"
    "srv_sessionIdCounter ?a = ?c + 1" "length (srv_sessions ?a) = length (srv_sessions srv)"
    using av by (simp_all add: admitted_def)
  have at: "session_at ?a j = (if j = unat index then Some s else session_at srv j)" for j
    using n by (auto simp: admitted_def)
  have notin: "index \<notin> set rest" "index \<notin> ExtractIndex ` set (srv_pendingDisconStack srv)"
    using ok av by (auto simp: pool_ok_def)
  have nz: "cs_sessionId s \<noteq> 0" using uid c by (auto simp: ExtractUniqueId_def)
  have slots: "case session_at ?a j of None \<Rightarrow> False | Some t \<Rightarrow> slot_ok ?a j t"
    if j: "j < length (srv_sessions srv)" for j
  proof (cases "j = unat index")
    case True
    then show ?thesis using at nz uid c notin s(2) fr by (simp add: slot_ok_def)
  next
    case False
    obtain t where t: "session_at srv j = Some t" using pool_session [OF ok j] by blast
    have "(of_nat j :: uint16_t) \<noteq> index" using False j n by (simp add: index_eq_iff)
    then show ?thesis
      using False t pool_slot [OF ok t] at fr av c by (auto simp: slot_ok_def)
  qed
  have find: "FindSession ?a sid = Some (unat (ExtractIndex sid))"
    if "sid \<in> set (srv_pendingDisconStack srv)" for sid
  proof -
    have "unat (ExtractIndex sid) \<noteq> unat index" using that notin by (auto simp: word_unat_eq_iff [symmetric])
    then show ?thesis using that ok at by (auto simp: pool_ok_def list_all_iff FindSession_Some)
  qed
  show ?thesis
    using ok av slots find c by (auto simp: pool_ok_def list_all_iff fr)
qed

lemma srv_ok_Close: "srv_ok srv \<Longrightarrow> session_at srv i = Some s \<Longrightarrow> srv_ok (Close srv i s)"
  by (auto simp: Close_def srv_ok_at)

lemma srv_ok_release_loop: "srv_ok srv \<Longrightarrow> srv_ok (release_loop stack srv)"
proof (induction stack arbitrary: srv)
  case (Cons sid rest)
  let ?p = "srv\<lparr>srv_pendingDisconStack := rest\<rparr>"
  have "srv_ok (case FindSession ?p sid of None \<Rightarrow> ?p
      | Some i \<Rightarrow> let srv = Close ?p i (the (session_at ?p i)) in
          srv\<lparr>srv_availableIndices := srv_availableIndices srv @ [ExtractIndex sid]\<rparr>)"
    using Cons.prems srv_ok_Close [of ?p] by (auto simp: Let_def FindSession_Some split: option.splits)
  then show ?case using Cons.IH by (simp add: Let_def)
qed simp

definition server_ok :: "CIOCPServer \<Rightarrow> bool" where
  "server_ok srv \<longleftrightarrow> srv_ok srv \<and> pool_ok srv"

lemma ReleaseSession_ok:
  assumes "server_ok srv"
  shows "server_ok (ReleaseSession srv)" "srv_sessionIdCounter (ReleaseSession srv) = srv_sessionIdCounter srv"
  using assms ReleaseSession_pool [of srv] srv_ok_release_loop [of srv "srv_pendingDisconStack srv"]
  by (simp_all add: server_ok_def ReleaseSession_def)

text \<open>The server when \<open>ProcessAccept\<close> posts the first receive of session \<open>s\<close> on socket \<open>k\<close>.\<close>

definition admission :: "CIOCPServer \<Rightarrow> SOCKET \<Rightarrow> uint16_t \<Rightarrow> CSession \<Rightarrow> CIOCPServer" where
  "admission srv k index s =
     (let srv1 = syscall (OsBindIOCP k (unat index)) (admitted srv index s) in
      if srv_architectureType srv = Centralized
      then PushNetworkEvent srv1 \<lparr>ev_type = CONNECTED, ev_sessionId = cs_sessionId s, ev_data = []\<rparr> else srv1)"

lemma admission_same_pool: "same_pool (admitted srv index s) (admission srv k index s)"
  by (simp add: admission_def Let_def)

lemma admission_frame [simp]:
  "srv_availableIndices (admission srv k index s) = tl (srv_availableIndices srv)"
  "srv_pendingDisconStack (admission srv k index s) = srv_pendingDisconStack srv"
  "srv_sessionIdCounter (admission srv k index s) = srv_sessionIdCounter srv + 1"
  "srv_architectureType (admission srv k index s) = srv_architectureType srv"
  "srv_eventQueue (admission srv k index s) = srv_eventQueue srv @ (if srv_architectureType srv = Centralized
     then [\<lparr>ev_type = CONNECTED, ev_sessionId = cs_sessionId s, ev_data = []\<rparr>] else [])"
  by (simp_all add: admission_def admitted_def Let_def)

lemma session_at_admission:
  "unat index < length (srv_sessions srv) \<Longrightarrow>
   session_at (admission srv k index s) j = (if j = unat index then Some s else session_at srv j)"
  by (auto simp: admission_def admitted_def Let_def)

text \<open>The server when \<open>ProcessAccept\<close> is called for socket \<open>k\<close>.\<close>

definition offered :: "CIOCPServer \<Rightarrow> SOCKET \<Rightarrow> CIOCPServer" where
  "offered srv k = syscall (OsSetLinger k) (ReleaseSession srv)"

lemma offered_frame [simp]:
  "srv_availableIndices (offered srv k) = srv_availableIndices (ReleaseSession srv)"
  "srv_pendingDisconStack (offered srv k) = srv_pendingDisconStack (ReleaseSession srv)"
  "srv_eventQueue (offered srv k) = srv_eventQueue (ReleaseSession srv)"
  "srv_sessionIdCounter (offered srv k) = srv_sessionIdCounter (ReleaseSession srv)"
  "srv_architectureType (offered srv k) = srv_architectureType (ReleaseSession srv)"
  "srv_running (offered srv k) = srv_running (ReleaseSession srv)"
  "srv_sessions (offered srv k) = srv_sessions (ReleaseSession srv)"
  "session_at (offered srv k) = session_at (ReleaseSession srv)"
  "srv_ok (offered srv k) = srv_ok (ReleaseSession srv)"
  by (simp_all add: offered_def)

lemma offered_pool: "same_pool (ReleaseSession srv) (offered srv k)"
  by (simp add: offered_def)

text \<open>A turn of the accept thread: it releases the closed sessions, and admits a client or not.\<close>

lemma accept_step_cases:
  fixes k :: SOCKET
  assumes inv: "server_ok srv" and small: "unat (srv_sessionIdCounter srv) < 2 ^ 48" and os: "binds_succeed os"
  defines "r \<equiv> offered srv k"
  obtains (none) srv' where "accept_step os srv k = Inr srv'" "srv' = ReleaseSession srv \<or> srv' = syscall (OsCloseSocket k) r"
      "k = INVALID_SOCKET \<and> srv' = ReleaseSession srv \<or> srv_availableIndices r = [] \<and> k \<noteq> INVALID_SOCKET \<and> srv' = syscall (OsCloseSocket k) r"
  | (admit) index rest s where "k \<noteq> INVALID_SOCKET" "srv_availableIndices r = index # rest"
      "unat index < length (srv_sessions r)"
      "session_ok s" "cs_valid s" "cs_socket s = k" "cs_sessionId s = MakeSessionId index (srv_sessionIdCounter srv)"
      "ExtractUniqueId (cs_sessionId s) = srv_sessionIdCounter srv" "cs_sessionId s \<noteq> 0"
      "contents (cs_recvQ s) = []" "contents (cs_sendQ s) = []"
      "accept_step os srv k = PostRecv os (admission r k index s) (unat index)" "server_ok (admission r k index s)"
proof (cases "k = INVALID_SOCKET \<or> srv_availableIndices r = []")
  case True
  then show ?thesis
    by (intro none [of "if k = INVALID_SOCKET then ReleaseSession srv else syscall (OsCloseSocket k) r"])
      (auto simp: accept_step_def SetSocketOptions_def offered_def ProcessAccept_def r_def Let_def)
next
  case False
  have r: "srv_ok r" "pool_ok r" "srv_sessionIdCounter r = srv_sessionIdCounter srv"
    using ReleaseSession_ok [OF inv] pool_ok_same [OF offered_pool] by (simp_all add: r_def server_ok_def)
  obtain index rest where av: "srv_availableIndices r = index # rest"
    using False by (cases "srv_availableIndices r") auto
  then have len: "unat index < length (srv_sessions r)" using r(2) by (simp add: pool_ok_def)
  then obtain s0 where s0: "session_at r (unat index) = Some s0" using pool_session [OF r(2)] by blast
  obtain s where s: "session_ok s" "cs_valid s" "cs_socket s = k" "contents (cs_recvQ s) = []" "contents (cs_sendQ s) = []"
      "cs_sessionId s = MakeSessionId index (ExtractUniqueId (srv_sessionIdCounter r))"
    and eq: "ProcessAccept os r k = PostRecv os (admission r k index s) (unat index)"
    using ProcessAccept_eq [OF av s0 srv_ok_at [OF r(1) s0] os, of k]
    by (simp add: admission_def Let_def) metis
  have sid: "cs_sessionId s = MakeSessionId index (srv_sessionIdCounter srv)"
    using s(6) small r(3) by (simp add: ExtractUniqueId_small)
  have uid: "ExtractUniqueId (cs_sessionId s) = srv_sessionIdCounter srv"
    using sid small by (simp add: ExtractUniqueId_Make ExtractUniqueId_small [unfolded ExtractUniqueId_def])
  have "pool_ok (admitted r index s)" using pool_ok_admitted [OF r(2) av _ s(6,2)] small r(3) by simp
  then have "pool_ok (admission r k index s)" by (rule pool_ok_same [OF admission_same_pool])
  moreover have "srv_ok (admitted r index s)" using r(1) s(1) by (auto simp: admitted_def)
  then have "srv_ok (admission r k index s)" by (simp add: admission_def Let_def)
  moreover have "cs_sessionId s \<noteq> 0"
    using uid r(2,3) by (auto simp: pool_ok_def ExtractUniqueId_def)
  ultimately show ?thesis
    using False av len s sid uid eq by (intro admit [of index rest s]) (simp_all add: accept_step_def SetSocketOptions_def offered_def r_def server_ok_def)
qed

lemma accept_step_ok:
  assumes inv: "server_ok srv" and small: "unat (srv_sessionIdCounter srv) < 2 ^ 48" and os: "binds_succeed os"
  shows "\<exists>srv'. accept_step os srv k = Inr srv' \<and> server_ok srv'"
proof (cases rule: accept_step_cases [OF inv small os, of k, case_names none admit])
  case (none srv')
  have "pool_ok (syscall (OsCloseSocket k) (offered srv k))"
    by (rule pool_ok_same [of "ReleaseSession srv"])
      (use ReleaseSession_ok [OF inv] offered_pool in \<open>simp_all add: server_ok_def\<close>)
  then show ?thesis using none ReleaseSession_ok(1) [OF inv] by (auto simp: server_ok_def)
next
  case (admit index rest s)
  let ?a = "admission (offered srv k) k index s"
  obtain srv' where srv': "PostRecv os ?a (unat index) = Inr srv'" "srv_ok srv'" "pool_effect (unat index) ?a srv'"
    using pool.PostRecv_runs [of ?a "unat index" os] admit(13) by (auto simp: server_ok_def elim: runs_onE)
  have "pool_ok srv'"
    using pool_effect_ok [OF _ srv'(3)] admit by (auto simp: server_ok_def session_at_admission)
  then show ?thesis using srv' admit(12) by (auto simp: server_ok_def)
qed

section \<open>Steps of the server\<close>

text \<open>
  One atomic step: the accept thread handles one return of \<open>accept\<close>, a worker thread handles
  one completion, or the game thread sends, disconnects or takes an event.  The counter of
  unique ids has not used up its 48 bits; ids the game thread passes come from events, so
  their unique part is not \<open>0\<close>; the length it passes is within its buffer, or more than a send
  queue can hold.
\<close>

inductive server_step :: "os \<Rightarrow> CIOCPServer \<Rightarrow> CIOCPServer \<Rightarrow> bool" for os where
  step_accept: "accept_step os srv k = Inr srv' \<Longrightarrow> unat (srv_sessionIdCounter srv) < 2 ^ 48 \<Longrightarrow>
     server_step os srv srv'"
| step_worker: "worker_step os srv c = Inr srv' \<Longrightarrow> completion_ok srv c \<Longrightarrow> server_step os srv srv'"
| step_send: "RequestSendMsg os srv sid data len = Inr srv' \<Longrightarrow> ExtractUniqueId sid \<noteq> 0 \<Longrightarrow>
     unat (scast len :: size_t) \<le> length data \<or> 65536 \<le> unat (scast len :: size_t) \<Longrightarrow> server_step os srv srv'"
| step_kick: "RequestDisconnectSession srv sid = (b, srv') \<Longrightarrow> ExtractUniqueId sid \<noteq> 0 \<Longrightarrow> server_step os srv srv'"
| step_event: "PopNetworkEvent srv = Some (e, srv') \<Longrightarrow> server_step os srv srv'"

inductive reachable :: "(size_t \<Rightarrow> byte list option) \<Rightarrow> os \<Rightarrow> int32_t \<Rightarrow> ServerArchitectureType \<Rightarrow> CIOCPServer \<Rightarrow> bool"
  for alloc os maxClients type where
  reach_start: "Start alloc os (CIOCPServer_new maxClients type) = Inr (True, srv) \<Longrightarrow>
     reachable alloc os maxClients type srv"
| reach_step: "reachable alloc os maxClients type srv \<Longrightarrow> server_step os srv srv' \<Longrightarrow>
     reachable alloc os maxClients type srv'"

inductive_cases server_stepE: "server_step os srv srv'"

lemma find_used:
  assumes "pool_ok srv" "FindSession srv sid = Some i" "ExtractUniqueId sid \<noteq> 0" "session_at srv i = Some s"
  shows "cs_sessionId s = sid"
proof -
  have u: "ExtractUniqueId (cs_sessionId s) = ExtractUniqueId sid" "i = unat (ExtractIndex sid)"
    using assms by (auto simp: FindSession_Some)
  then have "cs_sessionId s \<noteq> 0" using assms(3) unique_zero by metis
  then have "unat (ExtractIndex (cs_sessionId s)) = i" using pool_slot [OF assms(1,4)] by (simp add: slot_ok_def)
  then have "ExtractIndex (cs_sessionId s) = ExtractIndex sid" using u by (simp add: word_unat_eq_iff)
  then show ?thesis using u by (simp add: session_id_eq_iff [of _ sid])
qed

lemma PopNetworkEvent_same:
  "PopNetworkEvent srv = Some (e, srv') \<Longrightarrow> same_pool srv srv' \<and> srv_ok srv' = srv_ok srv"
  by (auto simp: PopNetworkEvent_def TryPop_def same_pool_def session_at_def srv_ok_def split: option.splits list.splits)

lemma step_effect_ok:
  assumes "server_ok srv" "srv_ok srv'" "pool_effect i srv srv'"
    and "\<And>s. session_at srv i = Some s \<Longrightarrow> cs_sessionId s \<noteq> 0"
  shows "server_ok srv'"
  using assms pool_effect_ok [of srv i srv'] by (auto simp: server_ok_def)

text \<open>Every step either is an \<open>accept_step\<close> or has an effect on one used slot only.\<close>

lemma server_step_effect:
  assumes "server_step os srv srv'" "server_ok srv"
  shows "(\<exists>k. accept_step os srv k = Inr srv' \<and> unat (srv_sessionIdCounter srv) < 2 ^ 48) \<or>
    (\<exists>i. srv_ok srv' \<and> pool_effect i srv srv' \<and> (\<forall>s. session_at srv i = Some s \<longrightarrow> cs_sessionId s \<noteq> 0)) \<or> srv' = srv"
  using assms(1)
proof (cases rule: server_step.cases)
  case (step_accept k)
  then show ?thesis by blast
next
  case (step_worker c)
  then obtain srv1 where w: "worker_step os srv c = Inr srv1" "srv_ok srv1"
      "case cp_key c of None \<Rightarrow> srv1 = srv | Some i \<Rightarrow> pool_effect i srv srv1"
    using pool.worker_step_runs [OF _ step_worker(2), of os] assms(2) unfolding server_ok_def by blast
  then show ?thesis
    using step_worker by (cases "cp_key c") (auto simp: completion_ok_def split: option.splits)
next
  case (step_send sid data len)
  show ?thesis
  proof (cases "FindSession srv sid")
    case None
    then show ?thesis using step_send by (simp add: RequestSendMsg_def)
  next
    case (Some i)
    have "runs_on pool_effect i srv (RequestSendMsg os srv sid data len)"
      using assms(2) step_send(3) Some by (intro pool.RequestSendMsg_runs) (simp_all add: server_ok_def)
    moreover have "cs_sessionId s \<noteq> 0" if "session_at srv i = Some s" for s
      using find_used [OF _ Some step_send(2) that] assms(2) step_send(2) unique_zero by (auto simp: server_ok_def)
    ultimately show ?thesis using step_send(1) by auto
  qed
next
  case (step_kick sid b)
  show ?thesis
  proof (cases "FindSession srv sid")
    case None
    then show ?thesis using step_kick by (simp add: RequestDisconnectSession_def)
  next
    case (Some i)
    have "cs_sessionId s \<noteq> 0" if "session_at srv i = Some s" for s
      using find_used [OF _ Some step_kick(2) that] assms(2) step_kick(2) unique_zero by (auto simp: server_ok_def)
    moreover have "srv' = snd (DisconnectSessionInternal srv i)"
      using step_kick(1) Some by (simp add: RequestDisconnectSession_def)
    ultimately show ?thesis
      using pool.runs_on_Disconnect [of srv i] assms(2) by (auto simp: server_ok_def)
  qed
next
  case (step_event e)
  then have "same_pool srv srv'" "srv_ok srv'"
    using PopNetworkEvent_same assms(2) by (auto simp: server_ok_def)
  then have "srv_ok srv' \<and> pool_effect (length (srv_sessions srv)) srv srv' \<and>
      (\<forall>s. session_at srv (length (srv_sessions srv)) = Some s \<longrightarrow> cs_sessionId s \<noteq> 0)"
    by (auto intro: pool_effect_same dest: session_at_Some_less)
  then show ?thesis by blast
qed

lemma server_step_ok:
  assumes "server_step os srv srv'" "server_ok srv" "binds_succeed os"
  shows "server_ok srv'"
  using server_step_effect [OF assms(1,2)]
proof (elim disjE exE conjE)
  fix k assume "accept_step os srv k = Inr srv'" "unat (srv_sessionIdCounter srv) < 2 ^ 48"
  then show ?thesis using accept_step_ok [OF assms(2) _ assms(3), of k] by auto
qed (use assms step_effect_ok in blast)+

end
