(* ===== verification/ServerStart.thy ===== *)
theory ServerStart
  imports SessionPool
begin

text \<open>
  What \<open>Start\<close> does: the loops over \<open>uint16_t\<close> end exactly for at most 65535 clients, the
  table is then filled with fresh sessions, and every outcome of the operating system calls
  is one of five; a started server satisfies the invariant of the session pool.
\<close>

section \<open>The loops\<close>

lemma CSession_new_total: "\<exists>s. CSession_new alloc = Inr s"
proof -
  have "\<exists>rb. Clear (CRingBufferT alloc p c) = Inr rb" if "p \<noteq> MutexLock True" for p c
    using that by (cases p) (auto simp: Clear_def CRingBufferT_def lock_rb_def unlock_rb_def)
  from this [of NoLock 65536] this [of "MutexLock False" 65536] show ?thesis
    by (auto simp: CSession_new_def Initialize_def)
qed

lemma int_index: "n \<le> 65535 \<Longrightarrow> unat (of_nat n :: uint16_t) = n"
  by (simp add: unat_of_nat_small)

lemma session_loop_run:
  assumes new: "CSession_new alloc = Inr s0" and n: "sint maxClients = int n" "n \<le> 65535"
  shows "i \<le> n \<Longrightarrow> length sessions = n \<Longrightarrow> n - i < fuel \<Longrightarrow>
    session_loop fuel alloc maxClients (of_nat i) sessions = Inr (take i sessions @ replicate (n - i) (Some s0))"
proof (induction fuel arbitrary: i sessions)
  case (Suc fuel)
  show ?case
  proof (cases "i < n")
    case True
    then have "session_loop fuel alloc maxClients (of_nat (Suc i)) (sessions[i := Some s0]) =
        Inr (take (Suc i) (sessions[i := Some s0]) @ replicate (n - Suc i) (Some s0))"
      using Suc.prems by (intro Suc.IH) simp_all
    moreover have "take (Suc i) (sessions[i := Some s0]) @ replicate (n - Suc i) (Some s0) =
        take i sessions @ replicate (n - i) (Some s0)"
      using True Suc.prems(2) by (simp add: take_Suc_conv_app_nth Suc_diff_Suc [symmetric])
    ultimately show ?thesis using True n new int_index [of i] by (simp add: add.commute)
  next
    case False
    then show ?thesis using Suc.prems n int_index [of i] by simp
  qed
qed simp

lemma index_loop_run:
  assumes n: "sint maxClients = int n" "n \<le> 65535"
  shows "i \<le> n \<Longrightarrow> n - i < fuel \<Longrightarrow>
    index_loop fuel maxClients (of_nat i) available = Inr (available @ map of_nat [i..<n])"
proof (induction fuel arbitrary: i available)
  case (Suc fuel)
  show ?case
  proof (cases "i < n")
    case True
    then have "index_loop fuel maxClients (of_nat (Suc i)) (available @ [of_nat i]) =
        Inr ((available @ [of_nat i]) @ map of_nat [Suc i..<n])"
      using Suc.prems by (intro Suc.IH) simp_all
    then show ?thesis using True n int_index [of i] by (simp add: add.commute upt_conv_Cons)
  next
    case False
    then show ?thesis using Suc.prems n int_index [of i] by simp
  qed
qed simp

lemma loops_diverge:
  assumes "65535 < sint maxClients"
  shows "session_loop fuel alloc maxClients i sessions = Inl OutOfFuel"
    and "index_loop fuel maxClients i available = Inl OutOfFuel"
proof -
  have lt: "uint j < sint maxClients" for j :: uint16_t
  proof -
    have "uint j < 2 ^ 16" using unsigned_less [of j] by simp
    then show ?thesis using assms by simp
  qed
  show "session_loop fuel alloc maxClients i sessions = Inl OutOfFuel"
    using CSession_new_total [of alloc] by (induction fuel arbitrary: i sessions) (auto simp: lt)
  show "index_loop fuel maxClients i available = Inl OutOfFuel"
    by (induction fuel arbitrary: i available) (simp_all add: lt)
qed

section \<open>Start\<close>

text \<open>The table and the free queue that \<open>Start\<close> sets up for \<open>n\<close> clients.\<close>

definition prepared :: "CIOCPServer \<Rightarrow> nat \<Rightarrow> CSession \<Rightarrow> CIOCPServer" where
  "prepared srv n s0 = srv\<lparr>srv_sessions := replicate n (Some s0), srv_availableIndices := map of_nat [0..<n]\<rparr>"

text \<open>The calls in order, up to the first that fails, and the clean-up; latest call first.\<close>

definition start_outcome :: "os \<Rightarrow> bool \<times> os_call list" where
  "start_outcome os =
     (let l1 = [OsWSAStartup]; l2 = OsCreateIOCP # l1; l3 = OsWSASocket # l2; k = os l3;
          l4 = OsBindPort k # l3; l5 = OsListen k # l4 in
      if os l1 \<noteq> 0 then (False, l1)
      else if os l2 = 0 then (False, OsWSACleanup # l2)
      else if k = INVALID_SOCKET then (False, OsWSACleanup # OsCloseIOCP # l3)
      else if os l4 \<noteq> 0 then (False, OsWSACleanup # OsCloseIOCP # OsCloseSocket k # l4)
      else if os l5 \<noteq> 0 then (False, OsWSACleanup # OsCloseIOCP # OsCloseSocket k # l5)
      else (True, OsStartThreads # l5))"

lemma Start_new:
  assumes n: "sint maxClients = int n" "n \<le> 65535" and new: "CSession_new alloc = Inr s0"
  shows "\<exists>srv. Start alloc os (CIOCPServer_new maxClients type) = Inr (fst (start_outcome os), srv) \<and>
    srv_sessions srv = replicate n (Some s0) \<and> srv_availableIndices srv = map of_nat [0..<n] \<and>
    srv_pendingDisconStack srv = [] \<and> srv_sessionIdCounter srv = 1 \<and> srv_eventQueue srv = [] \<and>
    srv_architectureType srv = type \<and>
    srv_log srv = snd (start_outcome os) \<and> srv_running srv = fst (start_outcome os)"
proof -
  have rs: "resize_sessions [] maxClients = Inr (replicate n None)"
    using n by (simp add: resize_sessions_def)
  have sl: "session_loop loop_fuel alloc maxClients 0 (replicate n None) = Inr (replicate n (Some s0))"
    using session_loop_run [OF new n, of 0 "replicate n None" loop_fuel] n by (simp add: loop_fuel_def)
  have il: "index_loop loop_fuel maxClients 0 [] = Inr (map of_nat [0..<n])"
    using index_loop_run [OF n, of 0 loop_fuel "[]"] n by (simp add: loop_fuel_def)
  show ?thesis
    by (auto simp: Start_def CIOCPServer_new_def rs sl il start_outcome_def CreateListenSocket_def os_result_def
        syscall_def Let_def)
qed

lemma Start_diverges:
  assumes "65535 < sint maxClients"
  shows "Start alloc os (CIOCPServer_new maxClients type) = Inl OutOfFuel"
  using loops_diverge [OF assms] assms
  by (simp add: Start_def CIOCPServer_new_def resize_sessions_def)

lemma Start_negative:
  assumes "sint maxClients < 0"
  shows "Start alloc os (CIOCPServer_new maxClients type) = Inl LengthError"
  using assms by (simp add: Start_def CIOCPServer_new_def resize_sessions_def)

lemma Start_bounds:
  assumes "Start alloc os (CIOCPServer_new maxClients type) = Inr r"
  shows "0 \<le> sint maxClients" "sint maxClients \<le> 65535"
  using assms Start_diverges [of maxClients alloc os type] Start_negative [of maxClients alloc os type]
  by (fastforce simp: not_less [symmetric])+

text \<open>An allocator that has memory for a queue.\<close>

definition allocates :: "(size_t \<Rightarrow> byte list option) \<Rightarrow> bool" where
  "allocates alloc \<longleftrightarrow> (case alloc 65536 of None \<Rightarrow> False | Some mem \<Rightarrow> length mem = 65536)"

lemma Start_ok:
  assumes start: "Start alloc os (CIOCPServer_new maxClients type) = Inr (True, srv)" and alloc: "allocates alloc"
  shows "server_ok srv"
proof -
  note b = Start_bounds [OF start]
  define n where "n = nat (sint maxClients)"
  have n: "sint maxClients = int n" "n \<le> 65535" using b by (simp_all add: n_def)
  obtain s0 where s0: "CSession_new alloc = Inr s0" "session_ok s0" "cs_sessionId s0 = 0"
    using alloc CSession_new_ok [of alloc] by (auto simp: allocates_def split: option.splits)
  have srv: "srv_sessions srv = replicate n (Some s0)" "srv_availableIndices srv = map of_nat [0..<n]"
    "srv_pendingDisconStack srv = []" "srv_sessionIdCounter srv = 1"
    using Start_new [OF n s0(1), of os type] start by auto
  have at: "session_at srv i = Some s0" if "i < n" for i using srv that by (simp add: session_at_def)
  have inj: "inj_on (of_nat :: nat \<Rightarrow> uint16_t) {0..<n}"
    using n by (intro inj_onI) (metis atLeastLessThan_iff int_index le_trans less_imp_le_nat)
  have "pool_ok srv"
    using srv n at inj by (auto simp: pool_ok_def distinct_map list_all_iff slot_ok_def s0(3) int_index)
  moreover have "srv_ok srv" using srv s0(2) by (simp add: srv_ok_def list_all_iff)
  ultimately show ?thesis by (simp add: server_ok_def)
qed

lemma reachable_ok:
  assumes "reachable alloc os maxClients type srv" "allocates alloc" "binds_succeed os"
  shows "server_ok srv"
  using assms(1)
proof induction
  case (reach_start srv)
  then show ?case using assms(2) by (rule Start_ok)
next
  case (reach_step srv srv')
  then show ?case using server_step_ok assms(3) by blast
qed

section \<open>Ids are never reused\<close>

lemma release_ids:
  "map_option cs_sessionId (session_at (release_loop stack srv) j) = map_option cs_sessionId (session_at srv j)"
proof (induction stack arbitrary: srv)
  case (Cons sid rest)
  let ?p = "srv\<lparr>srv_pendingDisconStack := rest\<rparr>"
  let ?q = "case FindSession ?p sid of None \<Rightarrow> ?p
      | Some i \<Rightarrow> let srv = Close ?p i (the (session_at ?p i)) in
          srv\<lparr>srv_availableIndices := srv_availableIndices srv @ [ExtractIndex sid]\<rparr>"
  have "map_option cs_sessionId (session_at ?q j) = map_option cs_sessionId (session_at srv j)"
    by (auto simp: Let_def FindSession_Some Close_def split: option.splits)
  then show ?case using Cons.IH [of ?q] by (simp add: Let_def)
qed simp

text \<open>An id that was issued before and is not found any more stays unknown for ever.\<close>

lemma retired_accept:
  assumes inv: "server_ok srv" and acc: "accept_step os srv k = Inr srv'"
    and small: "unat (srv_sessionIdCounter srv) < 2 ^ 48" and os: "binds_succeed os"
    and sid: "unat (ExtractUniqueId sid) < unat (srv_sessionIdCounter srv)" "FindSession srv sid = None"
  shows "FindSession srv' sid = None \<and> unat (srv_sessionIdCounter srv) \<le> unat (srv_sessionIdCounter srv')"
proof -
  let ?r = "ReleaseSession srv"
  have r: "server_ok ?r" "srv_sessionIdCounter ?r = srv_sessionIdCounter srv" by (rule ReleaseSession_ok [OF inv])+
  have find: "FindSession ?r sid = None"
    using sid(2) FindSession_cong [of ?r srv sid] release_ids by (simp add: ReleaseSession_def)
  have close: "FindSession (syscall c srv) x = FindSession srv x" for c srv x by (intro FindSession_cong) simp
  then have find2: "FindSession (syscall c (offered srv k)) sid = None" for c using find by (simp add: offered_def)
  show ?thesis
  proof (cases rule: accept_step_cases [OF inv small os, of k, case_names none admit])
    case (none srv1)
    then have "srv' = ?r \<or> srv' = syscall (OsCloseSocket k) (offered srv k)" using acc by simp
    then show ?thesis using find find2 r(2) by (elim disjE) simp_all
  next
    case (admit index rest s)
    let ?a = "admission (offered srv k) k index s"
    have "PostRecv os ?a (unat index) = Inr srv'" using admit(12) acc by simp
    then have eff: "pool_effect (unat index) ?a srv'"
      using pool.PostRecv_runs [of ?a "unat index" os] admit(13) by (simp add: server_ok_def)
    then have cnt: "unat (srv_sessionIdCounter srv') = unat (srv_sessionIdCounter srv) + 1"
      using r(2) small by (auto simp: pool_effect_def same_pool_def unat_add_small)
    have "FindSession ?a sid = None"
    proof (rule ccontr)
      assume "FindSession ?a sid \<noteq> None"
      then obtain i t where i: "i = unat (ExtractIndex sid)" "session_at ?a i = Some t"
          "ExtractUniqueId (cs_sessionId t) = ExtractUniqueId sid"
        by (auto simp: FindSession_Some)
      show False
      proof (cases "i = unat index")
        case True
        then show False using i admit(3,8) sid(1) by (simp add: session_at_admission)
      next
        case False
        then have "session_at ?r i = Some t" using i(2) admit(3) by (simp add: session_at_admission)
        then have "FindSession ?r sid = Some i" using i(1,3) by (simp add: FindSession_Some)
        then show False using find by simp
      qed
    qed
    then show ?thesis using pool_effect_find [OF eff] cnt by simp
  qed
qed

lemma retired_step:
  assumes step: "server_step os srv srv'" and inv: "server_ok srv" and os: "binds_succeed os"
    and sid: "unat (ExtractUniqueId sid) < unat (srv_sessionIdCounter srv)" "FindSession srv sid = None"
  shows "FindSession srv' sid = None \<and> unat (srv_sessionIdCounter srv) \<le> unat (srv_sessionIdCounter srv')"
  using server_step_effect [OF step inv]
proof (elim disjE exE conjE)
  fix k assume "accept_step os srv k = Inr srv'" "unat (srv_sessionIdCounter srv) < 2 ^ 48"
  then show ?thesis using retired_accept [OF inv _ _ os sid] by blast
next
  fix i assume "pool_effect i srv srv'"
  then show ?thesis using pool_effect_find [of i srv srv' sid] sid(2)
    by (auto simp: pool_effect_def same_pool_def)
qed (use sid in simp)

lemma retired_steps:
  assumes "(server_step os)\<^sup>*\<^sup>* srv srv'" "server_ok srv" "binds_succeed os"
    and "unat (ExtractUniqueId sid) < unat (srv_sessionIdCounter srv)" "FindSession srv sid = None"
  shows "server_ok srv' \<and> FindSession srv' sid = None \<and>
    unat (srv_sessionIdCounter srv) \<le> unat (srv_sessionIdCounter srv')"
  using assms(1)
proof induction
  case base
  then show ?case using assms by simp
next
  case (step a b)
  then show ?case
    using retired_step [OF step(2) _ assms(3), of sid] server_step_ok [OF step(2) _ assms(3)] assms(4) by linarith
qed

section \<open>Shutdown\<close>

definition open_sockets :: "CSession option list \<Rightarrow> SOCKET list" where
  "open_sockets ss = filter (\<lambda>k. k \<noteq> INVALID_SOCKET) (map cs_socket (map the (filter (\<lambda>so. so \<noteq> None) ss)))"

lemma disconnect_sessions_eq:
  "disconnect_sessions ss log =
     (map (map_option (\<lambda>s. if cs_socket s \<noteq> INVALID_SOCKET then s\<lparr>cs_valid := False\<rparr> else s)) ss,
      rev (map OsCloseSocket (open_sockets ss)) @ log)"
  by (induction ss log rule: disconnect_sessions.induct) (auto simp: open_sockets_def)

text \<open>The calls after the sessions' sockets have been closed, latest first.\<close>

definition shutdown_calls :: "CIOCPServer \<Rightarrow> os_call list" where
  "shutdown_calls srv =
     [OsWSACleanup] @ (if srv_iocpHandle srv \<noteq> 0 then [OsCloseIOCP] else []) @ [OsWakeAndJoinThreads] @
     (if srv_listenSocket srv \<noteq> INVALID_SOCKET then [OsCloseSocket (srv_listenSocket srv)] else [])"

lemma Disconnect_eq:
  assumes "srv_running srv" "sint (srv_maxClients srv) = int n" "n \<le> 65535"
  shows "Disconnect srv = Inr (srv\<lparr>srv_running := False,
    srv_sessions := map (map_option (\<lambda>s. if cs_socket s \<noteq> INVALID_SOCKET then s\<lparr>cs_valid := False\<rparr> else s)) (srv_sessions srv),
    srv_availableIndices := map of_nat [0..<n], srv_listenSocket := INVALID_SOCKET, srv_iocpHandle := 0,
    srv_log := shutdown_calls srv @ rev (map OsCloseSocket (open_sockets (srv_sessions srv))) @ srv_log srv\<rparr>)"
proof -
  have il: "index_loop loop_fuel (srv_maxClients srv) 0 [] = Inr (map of_nat [0..<n])"
    using index_loop_run [OF assms(2,3), of 0 loop_fuel "[]"] assms by (simp add: loop_fuel_def)
  show ?thesis
    using assms(1) il by (cases srv) (auto simp: Disconnect_def disconnect_sessions_eq shutdown_calls_def syscall_def Let_def)
qed

lemma destroy_sessions_eq: "destroy_sessions ss log = rev (map OsCloseSocket (open_sockets ss)) @ log"
  by (induction ss log rule: destroy_sessions.induct) (auto simp: open_sockets_def CSession_destroy_def)

text \<open>Closing the sockets does not forget them.\<close>

lemma open_sockets_kept:
  "open_sockets (map (map_option (\<lambda>s. if cs_socket s \<noteq> INVALID_SOCKET then s\<lparr>cs_valid := False\<rparr> else s)) ss) = open_sockets ss"
proof (induction ss)
  case (Cons so ss)
  then show ?case by (cases so) (auto simp: open_sockets_def)
qed (simp add: open_sockets_def)

section \<open>A refused binding\<close>

lemma ProcessAccept_unbound:
  assumes av: "srv_availableIndices srv = index # rest" and at: "session_at srv (unat index) = Some s0"
    and ok: "session_ok s0" and k: "k \<noteq> INVALID_SOCKET" and os: "os (OsBindIOCP k (unat index) # srv_log srv) = 0"
  shows "\<exists>srv' s. ProcessAccept os srv k = Inr srv' \<and>
    srv_log srv' = [OsCloseSocket k, OsCloseSocket k, OsBindIOCP k (unat index)] @ srv_log srv \<and>
    srv_availableIndices srv' = rest @ [index] \<and> session_at srv' (unat index) = Some s \<and> cs_valid s \<and>
    cs_socket s = INVALID_SOCKET"
proof -
  let ?sid = "MakeSessionId index (ExtractUniqueId (srv_sessionIdCounter srv))"
  obtain s where s: "Initialize s0 k ?sid = Inr s" "cs_socket s = k" "cs_valid s"
    using Initialize_ok [OF ok] by blast
  have at': "session_at (srv\<lparr>srv_availableIndices := rest, srv_sessionIdCounter := c\<rparr>) (unat index) = Some s0" for c
    using at by simp
  have i: "unat index < length (srv_sessions srv)" using at by (rule session_at_Some_less)
  show ?thesis
    using av at' s k os i
    by (auto simp: ProcessAccept_def BindIOCP_def Let_def os_result_def Close_def set_session_syscall)
qed

end
