(* ===== verification/LockedRing.thy ===== *)
theory LockedRing
  imports RingBuffer
begin

text \<open>
  The class \<open>CRingBufferT<MutexLock>\<close> of \<open>RingBuffer.h\<close> as any number of threads use it: every
  method is a sequence of steps, one per statement that touches the shared members, and the
  steps of different threads interleave.  The lemmas show that the mutex makes each call atomic:
  the calls, in the order in which they return, give the answers and the ring that the
  sequential operations of \<open>RingBuffer\<close> give.
\<close>

section \<open>Calls\<close>

datatype ring_call =
    EnqueueCall "byte list option" size_t
  | DequeueCall "byte list option" size_t
  | PeekCall "byte list option" size_t
  | ConsumeCall size_t
  | MoveWritePtrCall size_t
  | ClearCall
  | GetDataSizeCall
  | GetFreeSizeCall
  | GetWritePtrCall
  | GetReadPtrCall
  | GetDirectWriteSizeCall
  | GetDirectReadSizeCall
  | GetSendInfoCall

text \<open>What a call returns; \<open>Copied\<close> comes with the caller's memory after the call.\<close>

datatype ring_answer =
    Count size_t
  | Copied size_t "byte list option"
  | Info SendInfo
  | Cleared

text \<open>A call that nothing interrupts.\<close>

fun whole_call :: "ring_call \<Rightarrow> ring_buffer \<Rightarrow> (ring_answer \<times> ring_buffer) res" where
  "whole_call (EnqueueCall data n) rb = andThen (Enqueue rb data n) (\<lambda>(k, rb). Inr (Count k, rb))"
| "whole_call (DequeueCall data n) rb = andThen (Dequeue rb data n) (\<lambda>(k, mem, rb). Inr (Copied k mem, rb))"
| "whole_call (PeekCall data n) rb = andThen (Peek rb data n) (\<lambda>(k, mem, rb). Inr (Copied k mem, rb))"
| "whole_call (ConsumeCall n) rb = andThen (Consume rb n) (\<lambda>(k, rb). Inr (Count k, rb))"
| "whole_call (MoveWritePtrCall n) rb = andThen (MoveWritePtr rb n) (\<lambda>(k, rb). Inr (Count k, rb))"
| "whole_call ClearCall rb = andThen (Clear rb) (\<lambda>rb. Inr (Cleared, rb))"
| "whole_call GetDataSizeCall rb = andThen (GetDataSize rb) (\<lambda>(k, rb). Inr (Count k, rb))"
| "whole_call GetFreeSizeCall rb = andThen (GetFreeSize rb) (\<lambda>(k, rb). Inr (Count k, rb))"
| "whole_call GetWritePtrCall rb = andThen (GetWritePtr rb) (\<lambda>(k, rb). Inr (Count k, rb))"
| "whole_call GetReadPtrCall rb = andThen (GetReadPtr rb) (\<lambda>(k, rb). Inr (Count k, rb))"
| "whole_call GetDirectWriteSizeCall rb = andThen (GetDirectWriteSize rb) (\<lambda>(k, rb). Inr (Count k, rb))"
| "whole_call GetDirectReadSizeCall rb = andThen (GetDirectReadSize rb) (\<lambda>(k, rb). Inr (Count k, rb))"
| "whole_call GetSendInfoCall rb = andThen (GetSendInfo rb) (\<lambda>(info, rb). Inr (Info info, rb))"

section \<open>The methods, statement by statement\<close>

text \<open>
  Where a thread is in a method: the statement it executes next, with the local values it
  carries along (the caller's memory while it is filled, the members of \<open>SendInfo\<close> read so
  far, the value to be returned).
\<close>

datatype ring_pos =
    AtLock                      \<comment> \<open>before \<open>_lock.lock()\<close>\<close>
  | AtCheck                     \<comment> \<open>before the checks of the arguments and of the size\<close>
  | AtCopy                      \<comment> \<open>before the first \<open>memcpy\<close>\<close>
  | AtWrap "byte list"          \<comment> \<open>before the second \<open>memcpy\<close>\<close>
  | AtMove "byte list"          \<comment> \<open>before the position is stored\<close>
  | AtInfoSize size_t           \<comment> \<open>\<open>GetSendInfo\<close>, before \<open>dataSize\<close>\<close>
  | AtInfoDirect size_t size_t  \<comment> \<open>\<open>GetSendInfo\<close>, before \<open>directReadSize\<close>\<close>
  | AtUnlock ring_answer        \<comment> \<open>before \<open>_lock.unlock()\<close> and the return\<close>

datatype ring_next = Goto ring_pos | Answer ring_answer

definition enter :: "ring_buffer \<Rightarrow> (ring_next \<times> ring_buffer) res" where
  "enter rb = andThen (lock_rb rb) (\<lambda>rb. Inr (Goto AtCheck, rb))"

definition leave :: "ring_answer \<Rightarrow> ring_buffer \<Rightarrow> (ring_next \<times> ring_buffer) res" where
  "leave a rb = andThen (unlock_rb rb) (\<lambda>rb. Inr (Answer a, rb))"

text \<open>A position that the method does not have; the lemmas show that it is never reached.\<close>

definition nowhere :: "(ring_next \<times> ring_buffer) res" where
  "nowhere = Inl MissingReturn"

fun enqueue_step ::
  "byte list option \<Rightarrow> size_t \<Rightarrow> ring_pos \<Rightarrow> ring_buffer \<Rightarrow> (ring_next \<times> ring_buffer) res" where
  "enqueue_step data n AtLock rb = enter rb"
| "enqueue_step data n AtCheck rb =
     (if data = None \<or> n = 0 \<or> rb_buffer rb = None then Inr (Goto (AtUnlock (Count 0)), rb)
      else let freeSize = GetFreeSize_Internal rb in
        if freeSize < n then Inr (Goto (AtUnlock (Count 0)), rb) else Inr (Goto AtCopy, rb))"
| "enqueue_step data n AtCopy rb =
     (let firstWrite = min n (rb_capacity rb - rb_writePos rb) in
      andThen (memcpy (the (rb_buffer rb)) (unat (rb_writePos rb)) (the data) 0 (unat firstWrite)) (\<lambda>buf.
      Inr (Goto (if n > firstWrite then AtWrap (the data) else AtMove (the data)), rb\<lparr>rb_buffer := Some buf\<rparr>)))"
| "enqueue_step data n (AtWrap src) rb =
     (let firstWrite = min n (rb_capacity rb - rb_writePos rb); secondWrite = n - firstWrite in
      andThen (memcpy (the (rb_buffer rb)) 0 src (unat firstWrite) (unat secondWrite)) (\<lambda>buf.
      Inr (Goto (AtMove src), rb\<lparr>rb_buffer := Some buf\<rparr>)))"
| "enqueue_step data n (AtMove src) rb =
     andThen (mod_size (rb_writePos rb + n) (rb_capacity rb)) (\<lambda>pos.
     Inr (Goto (AtUnlock (Count n)), rb\<lparr>rb_writePos := pos\<rparr>))"
| "enqueue_step data n (AtUnlock a) rb = leave a rb"
| "enqueue_step data n _ rb = nowhere"

fun dequeue_step ::
  "byte list option \<Rightarrow> size_t \<Rightarrow> ring_pos \<Rightarrow> ring_buffer \<Rightarrow> (ring_next \<times> ring_buffer) res" where
  "dequeue_step data n AtLock rb = enter rb"
| "dequeue_step data n AtCheck rb =
     (if data = None \<or> n = 0 \<or> rb_buffer rb = None then Inr (Goto (AtUnlock (Copied 0 data)), rb)
      else let dataSize = GetDataSize_Internal rb in
        if dataSize < n then Inr (Goto (AtUnlock (Copied 0 data)), rb) else Inr (Goto AtCopy, rb))"
| "dequeue_step data n AtCopy rb =
     (let firstRead = min n (rb_capacity rb - rb_readPos rb) in
      andThen (memcpy (the data) 0 (the (rb_buffer rb)) (unat (rb_readPos rb)) (unat firstRead)) (\<lambda>mem.
      Inr (Goto (if n > firstRead then AtWrap mem else AtMove mem), rb)))"
| "dequeue_step data n (AtWrap mem) rb =
     (let firstRead = min n (rb_capacity rb - rb_readPos rb); secondRead = n - firstRead in
      andThen (memcpy mem (unat firstRead) (the (rb_buffer rb)) 0 (unat secondRead)) (\<lambda>mem.
      Inr (Goto (AtMove mem), rb)))"
| "dequeue_step data n (AtMove mem) rb =
     andThen (mod_size (rb_readPos rb + n) (rb_capacity rb)) (\<lambda>pos.
     Inr (Goto (AtUnlock (Copied n (Some mem))), rb\<lparr>rb_readPos := pos\<rparr>))"
| "dequeue_step data n (AtUnlock a) rb = leave a rb"
| "dequeue_step data n _ rb = nowhere"

fun peek_step ::
  "byte list option \<Rightarrow> size_t \<Rightarrow> ring_pos \<Rightarrow> ring_buffer \<Rightarrow> (ring_next \<times> ring_buffer) res" where
  "peek_step data n AtLock rb = enter rb"
| "peek_step data n AtCheck rb =
     (if data = None \<or> n = 0 \<or> rb_buffer rb = None then Inr (Goto (AtUnlock (Copied 0 data)), rb)
      else let dataSize = GetDataSize_Internal rb in
        if dataSize < n then Inr (Goto (AtUnlock (Copied 0 data)), rb) else Inr (Goto AtCopy, rb))"
| "peek_step data n AtCopy rb =
     (let firstPeek = min n (rb_capacity rb - rb_readPos rb) in
      andThen (memcpy (the data) 0 (the (rb_buffer rb)) (unat (rb_readPos rb)) (unat firstPeek)) (\<lambda>mem.
      Inr (Goto (if n > firstPeek then AtWrap mem else AtUnlock (Copied n (Some mem))), rb)))"
| "peek_step data n (AtWrap mem) rb =
     (let firstPeek = min n (rb_capacity rb - rb_readPos rb); secondPeek = n - firstPeek in
      andThen (memcpy mem (unat firstPeek) (the (rb_buffer rb)) 0 (unat secondPeek)) (\<lambda>mem.
      Inr (Goto (AtUnlock (Copied n (Some mem))), rb)))"
| "peek_step data n (AtUnlock a) rb = leave a rb"
| "peek_step data n _ rb = nowhere"

fun consume_step :: "size_t \<Rightarrow> ring_pos \<Rightarrow> ring_buffer \<Rightarrow> (ring_next \<times> ring_buffer) res" where
  "consume_step n AtLock rb = enter rb"
| "consume_step n AtCheck rb =
     (if n = 0 \<or> rb_buffer rb = None then Inr (Goto (AtUnlock (Count 0)), rb)
      else let dataSize = GetDataSize_Internal rb in
        if dataSize < n then Inr (Goto (AtUnlock (Count 0)), rb) else Inr (Goto (AtMove []), rb))"
| "consume_step n (AtMove mem) rb =
     andThen (mod_size (rb_readPos rb + n) (rb_capacity rb)) (\<lambda>pos.
     Inr (Goto (AtUnlock (Count n)), rb\<lparr>rb_readPos := pos\<rparr>))"
| "consume_step n (AtUnlock a) rb = leave a rb"
| "consume_step n _ rb = nowhere"

fun move_write_step :: "size_t \<Rightarrow> ring_pos \<Rightarrow> ring_buffer \<Rightarrow> (ring_next \<times> ring_buffer) res" where
  "move_write_step n AtLock rb = enter rb"
| "move_write_step n AtCheck rb =
     (if n = 0 \<or> rb_buffer rb = None then Inr (Goto (AtUnlock (Count 0)), rb)
      else let freeSize = GetFreeSize_Internal rb in
        if freeSize < n then Inr (Goto (AtUnlock (Count 0)), rb) else Inr (Goto (AtMove []), rb))"
| "move_write_step n (AtMove mem) rb =
     andThen (mod_size (rb_writePos rb + n) (rb_capacity rb)) (\<lambda>pos.
     Inr (Goto (AtUnlock (Count n)), rb\<lparr>rb_writePos := pos\<rparr>))"
| "move_write_step n (AtUnlock a) rb = leave a rb"
| "move_write_step n _ rb = nowhere"

text \<open>\<open>Clear\<close> stores the two positions one after the other.\<close>

fun clear_step :: "ring_pos \<Rightarrow> ring_buffer \<Rightarrow> (ring_next \<times> ring_buffer) res" where
  "clear_step AtLock rb = enter rb"
| "clear_step AtCheck rb =
     (if rb_buffer rb = None then Inr (Goto (AtUnlock Cleared), rb) else Inr (Goto AtCopy, rb))"
| "clear_step AtCopy rb = Inr (Goto (AtMove []), rb\<lparr>rb_readPos := 0\<rparr>)"
| "clear_step (AtMove mem) rb = Inr (Goto (AtUnlock Cleared), rb\<lparr>rb_writePos := 0\<rparr>)"
| "clear_step (AtUnlock a) rb = leave a rb"
| "clear_step _ rb = nowhere"

text \<open>The six accessors that return one number (a pointer is its offset).\<close>

fun accessor_step ::
  "(ring_buffer \<Rightarrow> size_t) \<Rightarrow> ring_pos \<Rightarrow> ring_buffer \<Rightarrow> (ring_next \<times> ring_buffer) res" where
  "accessor_step result AtLock rb = enter rb"
| "accessor_step result AtCheck rb = Inr (Goto (AtUnlock (Count (result rb))), rb)"
| "accessor_step result (AtUnlock a) rb = leave a rb"
| "accessor_step result _ rb = nowhere"

fun send_info_step :: "ring_pos \<Rightarrow> ring_buffer \<Rightarrow> (ring_next \<times> ring_buffer) res" where
  "send_info_step AtLock rb = enter rb"
| "send_info_step AtCheck rb = Inr (Goto (AtInfoSize (rb_readPos rb)), rb)"
| "send_info_step (AtInfoSize ptr) rb = Inr (Goto (AtInfoDirect ptr (GetDataSize_Internal rb)), rb)"
| "send_info_step (AtInfoDirect ptr sz) rb =
     Inr (Goto (AtUnlock (Info \<lparr>si_readPtr = ptr, si_dataSize = sz,
       si_directReadSize =
         (if rb_writePos rb \<ge> rb_readPos rb then rb_writePos rb - rb_readPos rb
          else rb_capacity rb - rb_readPos rb)\<rparr>)), rb)"
| "send_info_step (AtUnlock a) rb = leave a rb"
| "send_info_step _ rb = nowhere"

fun call_step :: "ring_call \<Rightarrow> ring_pos \<Rightarrow> ring_buffer \<Rightarrow> (ring_next \<times> ring_buffer) res" where
  "call_step (EnqueueCall data n) = enqueue_step data n"
| "call_step (DequeueCall data n) = dequeue_step data n"
| "call_step (PeekCall data n) = peek_step data n"
| "call_step (ConsumeCall n) = consume_step n"
| "call_step (MoveWritePtrCall n) = move_write_step n"
| "call_step ClearCall = clear_step"
| "call_step GetDataSizeCall = accessor_step GetDataSize_Internal"
| "call_step GetFreeSizeCall = accessor_step GetFreeSize_Internal"
| "call_step GetWritePtrCall = accessor_step rb_writePos"
| "call_step GetReadPtrCall = accessor_step rb_readPos"
| "call_step GetDirectWriteSizeCall = accessor_step direct_write_size"
| "call_step GetDirectReadSizeCall = accessor_step direct_read_size"
| "call_step GetSendInfoCall = send_info_step"

section \<open>A call is its steps\<close>

text \<open>How many statements of a method are left at most.\<close>

fun left_over :: "ring_pos \<Rightarrow> nat" where
  "left_over AtLock = 6"
| "left_over AtCheck = 5"
| "left_over AtCopy = 4"
| "left_over (AtWrap mem) = 3"
| "left_over (AtMove mem) = 2"
| "left_over (AtInfoSize ptr) = 3"
| "left_over (AtInfoDirect ptr sz) = 2"
| "left_over (AtUnlock a) = 1"

lemmas method_step_simps = enter_def leave_def nowhere_def Let_def andThen_Inr_iff

text \<open>The three facts about one step that do not depend on the method.\<close>

definition goes_on :: "ring_pos \<Rightarrow> ring_buffer \<Rightarrow> (ring_next \<times> ring_buffer) res \<Rightarrow> bool" where
  "goes_on p rb r \<longleftrightarrow>
     (case r of
        Inr (Goto p', rb') \<Rightarrow> left_over p' < left_over p \<and>
          (if p = AtLock then lock_rb rb = Inr rb' else p' \<noteq> AtLock \<and> rb_lock rb' = rb_lock rb)
      | Inr (Answer a, rb') \<Rightarrow> unlock_rb rb = Inr rb' \<and> p = AtUnlock a
      | Inl f \<Rightarrow> True)"

lemma goes_on_simps [simp]:
  "goes_on p rb (Inl f)"
  "goes_on p rb (Inr (Goto p', rb')) \<longleftrightarrow> left_over p' < left_over p \<and>
     (if p = AtLock then lock_rb rb = Inr rb' else p' \<noteq> AtLock \<and> rb_lock rb' = rb_lock rb)"
  "goes_on p rb (Inr (Answer a, rb')) \<longleftrightarrow> unlock_rb rb = Inr rb' \<and> p = AtUnlock a"
  by (simp_all add: goes_on_def)

lemma goes_on_enter [simp]: "goes_on AtLock rb (enter rb)"
  by (cases "lock_rb rb") (simp_all add: enter_def)

lemma goes_on_leave [simp]: "goes_on (AtUnlock a) rb (leave a rb)"
  by (cases "unlock_rb rb") (simp_all add: leave_def)

lemma goes_on_nowhere [simp]: "goes_on p rb nowhere"
  by (simp add: nowhere_def)

lemma goes_on_memcpy:
  "(\<And>mem. goes_on p rb (k mem)) \<Longrightarrow> goes_on p rb (andThen (memcpy dst d src s n) k)"
  by (simp add: memcpy_def)

lemma goes_on_mod_size:
  "(\<And>m. goes_on p rb (k m)) \<Longrightarrow> goes_on p rb (andThen (mod_size a b) k)"
  by (simp add: mod_size_def)

lemma call_step_goes_on: "goes_on p rb (call_step c p rb)"
  by (cases c; cases p) (auto simp: Let_def intro!: goes_on_memcpy goes_on_mod_size)

lemma step_left_over: "call_step c p rb = Inr (Goto p', rb') \<Longrightarrow> left_over p' < left_over p"
  using call_step_goes_on [of p rb c] by simp

lemma step_lock:
  "call_step c AtLock rb = Inr (Goto p', rb') \<Longrightarrow> lock_rb rb = Inr rb'"
  "call_step c p rb = Inr (Goto p', rb') \<Longrightarrow> p \<noteq> AtLock \<Longrightarrow> p' \<noteq> AtLock \<and> rb_lock rb' = rb_lock rb"
  "call_step c p rb = Inr (Answer a, rb') \<Longrightarrow> unlock_rb rb = Inr rb' \<and> p = AtUnlock a"
  using call_step_goes_on [of AtLock rb c] call_step_goes_on [of p rb c] by simp_all

text \<open>The rest of a call from a position on, without interruption.\<close>

lemma andThen_cong [fundef_cong]:
  "m = m' \<Longrightarrow> (\<And>x. m' = Inr x \<Longrightarrow> k x = k' x) \<Longrightarrow> andThen m k = andThen m' k'"
  by (cases m) auto

function rest_of_call :: "ring_call \<Rightarrow> ring_pos \<Rightarrow> ring_buffer \<Rightarrow> (ring_answer \<times> ring_buffer) res" where
  "rest_of_call c p rb = andThen (call_step c p rb) (\<lambda>(next, rb).
     case next of Goto p \<Rightarrow> rest_of_call c p rb | Answer a \<Rightarrow> Inr (a, rb))"
  by pat_completeness auto
termination
  by (relation "measure (\<lambda>(c, p, rb). left_over p)") (auto dest: step_left_over)

declare rest_of_call.simps [simp del]

lemma rest_Goto: "call_step c p rb = Inr (Goto p', rb') \<Longrightarrow> rest_of_call c p rb = rest_of_call c p' rb'"
  by (subst rest_of_call.simps) simp

lemma rest_Answer: "call_step c p rb = Inr (Answer a, rb') \<Longrightarrow> rest_of_call c p rb = Inr (a, rb')"
  by (subst rest_of_call.simps) simp

lemma rest_fault: "call_step c p rb = Inl f \<Longrightarrow> rest_of_call c p rb = Inl f"
  by (subst rest_of_call.simps) simp


text \<open>The rest of a call, position by position.\<close>

fun follow :: "ring_call \<Rightarrow> ring_next \<times> ring_buffer \<Rightarrow> (ring_answer \<times> ring_buffer) res" where
  "follow c (Goto p, rb) = rest_of_call c p rb"
| "follow c (Answer a, rb) = Inr (a, rb)"

lemma rest_step: "rest_of_call c p rb = andThen (call_step c p rb) (follow c)"
proof -
  have "follow c = (\<lambda>(next, rb). case next of Goto p \<Rightarrow> rest_of_call c p rb | Answer a \<Rightarrow> Inr (a, rb))"
    by (auto simp: fun_eq_iff split: ring_next.split)
  then show ?thesis by (subst rest_of_call.simps) simp
qed

lemma rest_unlock: "rest_of_call c (AtUnlock a) rb = andThen (unlock_rb rb) (\<lambda>rb. Inr (a, rb))"
  by (cases c; cases "unlock_rb rb") (simp_all add: rest_step leave_def)

lemma rest_lock: "rest_of_call c AtLock rb = andThen (lock_rb rb) (rest_of_call c AtCheck)"
  by (cases c; cases "lock_rb rb") (simp_all add: rest_step [of _ AtLock] enter_def)

lemma rest_accessor:
  assumes "call_step c = accessor_step f"
  shows "rest_of_call c AtLock rb = andThen (with_lock rb f) (\<lambda>(k, rb). Inr (Count k, rb))"
proof -
  have "rest_of_call c AtCheck rb1 = andThen (unlock_rb rb1) (\<lambda>rb. Inr (Count (f rb1), rb))" for rb1
    using assms by (simp add: rest_step [of _ AtCheck] rest_unlock)
  then have c: "rest_of_call c AtCheck = (\<lambda>rb1. andThen (unlock_rb rb1) (\<lambda>rb. Inr (Count (f rb1), rb)))"
    by (simp add: fun_eq_iff)
  show ?thesis
    by (simp add: rest_lock c with_lock_def andThen_assoc Let_def)
qed

lemma andThen_cong_fun: "(\<And>x. k x = k' x) \<Longrightarrow> andThen m k = andThen m k'"
  by (cases m) auto

lemma rest_enqueue:
  "rest_of_call (EnqueueCall d n) AtLock rb = whole_call (EnqueueCall d n) rb"
proof -
  let ?c = "EnqueueCall d n"
  have move: "rest_of_call ?c (AtMove src) r = andThen (mod_size (rb_writePos r + n) (rb_capacity r)) (\<lambda>pos.
      andThen (unlock_rb (r\<lparr>rb_writePos := pos\<rparr>)) (\<lambda>rb. Inr (Count n, rb)))" for src r
    by (simp add: rest_step [of _ "AtMove _"] andThen_assoc rest_unlock)
  have wrap: "rest_of_call ?c (AtWrap src) r = andThen (memcpy (the (rb_buffer r)) 0 src
      (unat (min n (rb_capacity r - rb_writePos r))) (unat (n - min n (rb_capacity r - rb_writePos r)))) (\<lambda>buf.
      rest_of_call ?c (AtMove src) (r\<lparr>rb_buffer := Some buf\<rparr>))" for src r
    by (simp add: rest_step [of _ "AtWrap _"] andThen_assoc Let_def del: unat_min)
  have copy: "rest_of_call ?c AtCopy r = andThen (memcpy (the (rb_buffer r)) (unat (rb_writePos r)) (the d) 0
      (unat (min n (rb_capacity r - rb_writePos r)))) (\<lambda>buf.
      if n > min n (rb_capacity r - rb_writePos r) then rest_of_call ?c (AtWrap (the d)) (r\<lparr>rb_buffer := Some buf\<rparr>)
      else rest_of_call ?c (AtMove (the d)) (r\<lparr>rb_buffer := Some buf\<rparr>))" for r
    by (simp add: rest_step [of _ AtCopy] andThen_assoc Let_def if_distrib del: unat_min cong: if_cong)
  have check: "rest_of_call ?c AtCheck r =
      (if d = None \<or> n = 0 \<or> rb_buffer r = None \<or> GetFreeSize_Internal r < n
       then andThen (unlock_rb r) (\<lambda>rb. Inr (Count 0, rb)) else rest_of_call ?c AtCopy r)" for r
    by (simp add: rest_step [of _ AtCheck] rest_unlock Let_def)
  show ?thesis
    unfolding rest_lock whole_call.simps Enqueue_def andThen_assoc
    by (intro andThen_cong_fun)
      (simp add: check copy wrap move andThen_assoc Let_def andThen_if if_distrib [of "\<lambda>m. andThen m _"]
        del: unat_min cong: if_cong)
qed


text \<open>\<open>Dequeue\<close> and \<open>Peek\<close> copy in the same way; they differ in what follows.\<close>

lemma rest_copy_out:
  assumes copy: "\<And>r. call_step c AtCopy r =
      andThen (memcpy (the d) 0 (the (rb_buffer r)) (unat (rb_readPos r)) (unat (min n (rb_capacity r - rb_readPos r)))) (\<lambda>mem.
      Inr (Goto (if n > min n (rb_capacity r - rb_readPos r) then AtWrap mem else p mem), r))"
    and wrap: "\<And>mem r. call_step c (AtWrap mem) r =
      andThen (memcpy mem (unat (min n (rb_capacity r - rb_readPos r))) (the (rb_buffer r)) 0
        (unat (n - min n (rb_capacity r - rb_readPos r)))) (\<lambda>mem. Inr (Goto (p mem), r))"
  shows "rest_of_call c AtCopy r = andThen (copy_out r (the d) n) (\<lambda>mem. rest_of_call c (p mem) r)"
proof -
  have w: "rest_of_call c (AtWrap mem) r =
      andThen (memcpy mem (unat (min n (rb_capacity r - rb_readPos r))) (the (rb_buffer r)) 0
        (unat (n - min n (rb_capacity r - rb_readPos r)))) (\<lambda>mem. rest_of_call c (p mem) r)" for mem
    by (simp add: rest_step [of _ "AtWrap _"] wrap andThen_assoc del: unat_min)
  show ?thesis
    unfolding copy_out_def rest_step [of _ AtCopy] copy andThen_assoc Let_def
    by (intro andThen_cong_fun) (simp add: w del: unat_min)
qed

lemma rest_dequeue:
  "rest_of_call (DequeueCall d n) AtLock rb = whole_call (DequeueCall d n) rb"
proof -
  let ?c = "DequeueCall d n"
  have move: "rest_of_call ?c (AtMove mem) r = andThen (mod_size (rb_readPos r + n) (rb_capacity r)) (\<lambda>pos.
      andThen (unlock_rb (r\<lparr>rb_readPos := pos\<rparr>)) (\<lambda>rb. Inr (Copied n (Some mem), rb)))" for mem r
    by (simp add: rest_step [of _ "AtMove _"] andThen_assoc rest_unlock)
  have copy: "rest_of_call ?c AtCopy r = andThen (copy_out r (the d) n) (\<lambda>mem. rest_of_call ?c (AtMove mem) r)" for r
    by (rule rest_copy_out) (simp_all add: Let_def del: unat_min)
  have check: "rest_of_call ?c AtCheck r =
      (if d = None \<or> n = 0 \<or> rb_buffer r = None \<or> GetDataSize_Internal r < n
       then andThen (unlock_rb r) (\<lambda>rb. Inr (Copied 0 d, rb)) else rest_of_call ?c AtCopy r)" for r
    by (simp add: rest_step [of _ AtCheck] rest_unlock Let_def)
  show ?thesis
    unfolding rest_lock whole_call.simps Dequeue_def andThen_assoc
    by (intro andThen_cong_fun) (simp add: check copy move andThen_assoc Let_def andThen_if cong: if_cong)
qed

lemma rest_peek:
  "rest_of_call (PeekCall d n) AtLock rb = whole_call (PeekCall d n) rb"
proof -
  let ?c = "PeekCall d n"
  have copy: "rest_of_call ?c AtCopy r =
      andThen (copy_out r (the d) n) (\<lambda>mem. rest_of_call ?c (AtUnlock (Copied n (Some mem))) r)" for r
    by (rule rest_copy_out) (simp_all add: Let_def del: unat_min)
  have check: "rest_of_call ?c AtCheck r =
      (if d = None \<or> n = 0 \<or> rb_buffer r = None \<or> GetDataSize_Internal r < n
       then andThen (unlock_rb r) (\<lambda>rb. Inr (Copied 0 d, rb)) else rest_of_call ?c AtCopy r)" for r
    by (simp add: rest_step [of _ AtCheck] rest_unlock Let_def)
  show ?thesis
    unfolding rest_lock whole_call.simps Peek_def andThen_assoc
    by (intro andThen_cong_fun) (simp add: check copy rest_unlock andThen_assoc Let_def andThen_if cong: if_cong)
qed

lemma rest_consume:
  "rest_of_call (ConsumeCall n) AtLock rb = whole_call (ConsumeCall n) rb"
proof -
  let ?c = "ConsumeCall n"
  have move: "rest_of_call ?c (AtMove mem) r = andThen (mod_size (rb_readPos r + n) (rb_capacity r)) (\<lambda>pos.
      andThen (unlock_rb (r\<lparr>rb_readPos := pos\<rparr>)) (\<lambda>rb. Inr (Count n, rb)))" for mem r
    by (simp add: rest_step [of _ "AtMove _"] andThen_assoc rest_unlock)
  have check: "rest_of_call ?c AtCheck r =
      (if n = 0 \<or> rb_buffer r = None \<or> GetDataSize_Internal r < n
       then andThen (unlock_rb r) (\<lambda>rb. Inr (Count 0, rb)) else rest_of_call ?c (AtMove []) r)" for r
    by (simp add: rest_step [of _ AtCheck] rest_unlock Let_def)
  show ?thesis
    unfolding rest_lock whole_call.simps Consume_def andThen_assoc
    by (intro andThen_cong_fun) (simp add: check move andThen_assoc Let_def andThen_if cong: if_cong)
qed

lemma rest_move_write:
  "rest_of_call (MoveWritePtrCall n) AtLock rb = whole_call (MoveWritePtrCall n) rb"
proof -
  let ?c = "MoveWritePtrCall n"
  have move: "rest_of_call ?c (AtMove mem) r = andThen (mod_size (rb_writePos r + n) (rb_capacity r)) (\<lambda>pos.
      andThen (unlock_rb (r\<lparr>rb_writePos := pos\<rparr>)) (\<lambda>rb. Inr (Count n, rb)))" for mem r
    by (simp add: rest_step [of _ "AtMove _"] andThen_assoc rest_unlock)
  have check: "rest_of_call ?c AtCheck r =
      (if n = 0 \<or> rb_buffer r = None \<or> GetFreeSize_Internal r < n
       then andThen (unlock_rb r) (\<lambda>rb. Inr (Count 0, rb)) else rest_of_call ?c (AtMove []) r)" for r
    by (simp add: rest_step [of _ AtCheck] rest_unlock Let_def)
  show ?thesis
    unfolding rest_lock whole_call.simps MoveWritePtr_def andThen_assoc
    by (intro andThen_cong_fun) (simp add: check move andThen_assoc Let_def andThen_if cong: if_cong)
qed

lemma rest_clear: "rest_of_call ClearCall AtLock rb = whole_call ClearCall rb"
  unfolding rest_lock whole_call.simps Clear_def andThen_assoc
  by (intro andThen_cong_fun)
    (simp add: rest_step [of _ AtCheck] rest_step [of _ AtCopy] rest_step [of _ "AtMove _"] rest_unlock andThen_if)

lemma rest_send_info: "rest_of_call GetSendInfoCall AtLock rb = whole_call GetSendInfoCall rb"
  unfolding rest_lock whole_call.simps GetSendInfo_def with_lock_def andThen_assoc
  by (intro andThen_cong_fun)
    (simp add: rest_step [of _ AtCheck] rest_step [of _ "AtInfoSize _"] rest_step [of _ "AtInfoDirect _ _"]
      rest_unlock andThen_assoc direct_read_size_def Let_def)

text \<open>The steps of a call, taken without interruption, are the sequential operation.\<close>

lemma rest_is_whole_call: "rest_of_call c AtLock rb = whole_call c rb"
proof (cases c)
  case GetDataSizeCall
  then show ?thesis by (simp add: rest_accessor [of _ GetDataSize_Internal] GetDataSize_def with_lock_def)
next
  case GetFreeSizeCall
  then show ?thesis by (simp add: rest_accessor [of _ GetFreeSize_Internal] GetFreeSize_def with_lock_def)
next
  case GetWritePtrCall
  then show ?thesis by (simp add: rest_accessor [of _ rb_writePos] GetWritePtr_def)
next
  case GetReadPtrCall
  then show ?thesis by (simp add: rest_accessor [of _ rb_readPos] GetReadPtr_def)
next
  case GetDirectWriteSizeCall
  then show ?thesis by (simp add: rest_accessor [of _ direct_write_size] GetDirectWriteSize_def)
next
  case GetDirectReadSizeCall
  then show ?thesis by (simp add: rest_accessor [of _ direct_read_size] GetDirectReadSize_def)
qed (simp_all only: rest_enqueue rest_dequeue rest_peek rest_consume rest_move_write rest_clear rest_send_info)


section \<open>Threads\<close>

datatype ring_thread = Outside | Inside ring_call ring_pos

text \<open>\<open>lr_history\<close> records the calls that have returned, with their answers, in order.\<close>

record locked_ring =
  lr_ring :: ring_buffer
  lr_thread :: "nat \<Rightarrow> ring_thread"
  lr_history :: "(nat \<times> ring_call \<times> ring_answer) list"

text \<open>What a caller owes: memory for the bytes it announces.\<close>

fun caller_ok :: "ring_call \<Rightarrow> bool" where
  "caller_ok (EnqueueCall (Some data) n) = (unat n \<le> length data)"
| "caller_ok (DequeueCall (Some data) n) = (unat n \<le> length data)"
| "caller_ok (PeekCall (Some data) n) = (unat n \<le> length data)"
| "caller_ok _ = True"

text \<open>A thread waits at the mutex as long as somebody holds it.\<close>

definition waits :: "ring_pos \<Rightarrow> ring_buffer \<Rightarrow> bool" where
  "waits p rb \<longleftrightarrow> p = AtLock \<and> rb_lock rb = MutexLock True"

inductive ring_step :: "nat \<Rightarrow> locked_ring \<Rightarrow> locked_ring \<Rightarrow> bool" where
  call: "lr_thread s t = Outside \<Longrightarrow> caller_ok c \<Longrightarrow>
    ring_step t s (s\<lparr>lr_thread := (lr_thread s)(t := Inside c AtLock)\<rparr>)"
| run: "lr_thread s t = Inside c p \<Longrightarrow> \<not> waits p (lr_ring s) \<Longrightarrow>
    call_step c p (lr_ring s) = Inr (Goto p', rb) \<Longrightarrow>
    ring_step t s (s\<lparr>lr_ring := rb, lr_thread := (lr_thread s)(t := Inside c p')\<rparr>)"
| return: "lr_thread s t = Inside c p \<Longrightarrow> \<not> waits p (lr_ring s) \<Longrightarrow>
    call_step c p (lr_ring s) = Inr (Answer a, rb) \<Longrightarrow>
    ring_step t s (s\<lparr>lr_ring := rb, lr_thread := (lr_thread s)(t := Outside),
      lr_history := lr_history s @ [(t, c, a)]\<rparr>)"

inductive_cases ring_stepE: "ring_step t s s'"

definition shared_ring :: "ring_buffer \<Rightarrow> locked_ring" where
  "shared_ring rb = \<lparr>lr_ring = rb, lr_thread = (\<lambda>_. Outside), lr_history = []\<rparr>"

inductive ring_reachable :: "ring_buffer \<Rightarrow> locked_ring \<Rightarrow> bool" for rb where
  start: "ring_reachable rb (shared_ring rb)"
| step: "ring_reachable rb s \<Longrightarrow> ring_step t s s' \<Longrightarrow> ring_reachable rb s'"

section \<open>The sequential run of a history\<close>

text \<open>The ring after the calls of a history, one after the other, if they answer as recorded.\<close>

fun sequential_run :: "(nat \<times> ring_call \<times> ring_answer) list \<Rightarrow> ring_buffer \<Rightarrow> ring_buffer option" where
  "sequential_run [] rb = Some rb"
| "sequential_run ((t, c, a) # h) rb =
     (case whole_call c rb of
        Inl f \<Rightarrow> None
      | Inr (a', rb') \<Rightarrow> if a' = a then sequential_run h rb' else None)"

lemma sequential_run_append:
  "sequential_run (h @ h') rb = (case sequential_run h rb of None \<Rightarrow> None | Some rb' \<Rightarrow> sequential_run h' rb')"
  by (induction h rb rule: sequential_run.induct) (auto split: sum.split)

text \<open>On a well-formed ring a call with enough memory answers and keeps the ring well-formed.\<close>

definition free_mutex :: "ring_buffer \<Rightarrow> bool" where
  "free_mutex rb \<longleftrightarrow> rb_ok rb \<and> rb_lock rb = MutexLock False"

lemma null_memory:
  assumes "unlocked rb"
  shows "Enqueue rb None n = Inr (0, rb)" "Dequeue rb None n = Inr (0, None, rb)" "Peek rb None n = Inr (0, None, rb)"
  using assms by (simp_all add: Enqueue_def Dequeue_def Peek_def lock_steps)

lemma whole_call_answers:
  assumes "free_mutex rb" "caller_ok c"
  shows "\<exists>a rb'. whole_call c rb = Inr (a, rb') \<and> free_mutex rb'"
proof -
  have ok: "rb_ok rb" and l: "rb_lock rb = MutexLock False" using assms(1) by (simp_all add: free_mutex_def)
  note u = unlocked_ok [OF ok]
  have accessor: "\<exists>a rb'. andThen (with_lock rb f) (\<lambda>(k, rb). Inr (A k, rb)) = Inr (a, rb') \<and> free_mutex rb'"
    if "\<And>l. f (rb\<lparr>rb_lock := l\<rparr>) = f rb" for f :: "ring_buffer \<Rightarrow> 'a" and A :: "'a \<Rightarrow> ring_answer"
    using with_lock_unlocked [OF u that] assms(1) by simp
  show ?thesis
  proof (cases c)
    case (EnqueueCall d n)
    then show ?thesis
      using assms(2) l ok write_bytes_ok(1) [OF ok, of "take (unat n) (the d)"] u
      by (cases d) (auto simp: free_mutex_def Enqueue_ok null_memory)
  next
    case (DequeueCall d n)
    then show ?thesis
      using assms(2) l ok drop_bytes_ok(1) [OF ok, of "unat n"] u
      by (cases d) (auto simp: free_mutex_def Dequeue_ok null_memory)
  next
    case (PeekCall d n)
    then show ?thesis
      using assms(2) l ok u by (cases d) (auto simp: free_mutex_def Peek_ok null_memory)
  next
    case (ConsumeCall n)
    then show ?thesis
      using l ok drop_bytes_ok(1) [OF ok, of "unat n"] by (auto simp: free_mutex_def Consume_ok)
  next
    case (MoveWritePtrCall n)
    then show ?thesis
      using l ok advance_write_ok [OF ok, of "unat n"] by (auto simp: free_mutex_def MoveWritePtr_ok)
  next
    case ClearCall
    then show ?thesis using l Clear_ok [OF ok] by (simp add: free_mutex_def)
  next
    case GetDataSizeCall
    then show ?thesis using assms(1) u by (simp add: GetDataSize_unlocked)
  next
    case GetFreeSizeCall
    then show ?thesis using assms(1) u by (simp add: GetFreeSize_unlocked)
  qed (simp_all add: GetWritePtr_def GetReadPtr_def GetDirectWriteSize_def GetDirectReadSize_def GetSendInfo_def accessor)
qed

section \<open>The invariant\<close>

text \<open>A thread holds the mutex from the step after \<open>lock\<close> to the step \<open>unlock\<close>.\<close>

fun holds :: "ring_thread \<Rightarrow> bool" where
  "holds Outside = False"
| "holds (Inside c p) = (p \<noteq> AtLock)"

fun thread_ok :: "ring_thread \<Rightarrow> bool" where
  "thread_ok Outside = True"
| "thread_ok (Inside c p) = caller_ok c"

text \<open>
  Either nobody holds the mutex and the ring is the one the completed calls have left, or one
  thread does and the rest of its call leads to what the whole call would give on that ring.
\<close>

definition nobody :: "locked_ring \<Rightarrow> ring_buffer \<Rightarrow> bool" where
  "nobody s rb \<longleftrightarrow> (\<forall>u. \<not> holds (lr_thread s u)) \<and> lr_ring s = rb"

definition somebody :: "nat \<Rightarrow> ring_call \<Rightarrow> ring_pos \<Rightarrow> locked_ring \<Rightarrow> ring_buffer \<Rightarrow> bool" where
  "somebody t c p s rb \<longleftrightarrow> lr_thread s t = Inside c p \<and> (\<forall>u. holds (lr_thread s u) \<longleftrightarrow> u = t) \<and>
     rb_lock (lr_ring s) = MutexLock True \<and> rest_of_call c p (lr_ring s) = whole_call c rb"

definition ring_inv :: "ring_buffer \<Rightarrow> locked_ring \<Rightarrow> bool" where
  "ring_inv rb0 s \<longleftrightarrow> (\<forall>t. thread_ok (lr_thread s t)) \<and>
     (\<exists>rb. sequential_run (lr_history s) rb0 = Some rb \<and> free_mutex rb \<and>
        (nobody s rb \<or> (\<exists>t c p. somebody t c p s rb)))"

lemma somebody_inside: "somebody t c p s rb \<Longrightarrow> p \<noteq> AtLock"
  by (metis holds.simps(2) somebody_def)

lemma ring_inv_start: "free_mutex rb \<Longrightarrow> ring_inv rb (shared_ring rb)"
  by (simp add: ring_inv_def shared_ring_def nobody_def)

lemma ring_inv_call:
  assumes inv: "ring_inv rb0 s" and "lr_thread s t = Outside" "caller_ok c"
  shows "ring_inv rb0 (s\<lparr>lr_thread := (lr_thread s)(t := Inside c AtLock)\<rparr>)"
proof -
  let ?s = "s\<lparr>lr_thread := (lr_thread s)(t := Inside c AtLock)\<rparr>"
  from inv obtain rb where rb: "sequential_run (lr_history s) rb0 = Some rb" "free_mutex rb"
      "nobody s rb \<or> (\<exists>t c p. somebody t c p s rb)" and thr: "\<forall>t. thread_ok (lr_thread s t)"
    by (auto simp: ring_inv_def)
  have n: "nobody ?s rb" if "nobody s rb" using that by (simp add: nobody_def)
  have b: "somebody u d p ?s rb" if "somebody u d p s rb" for u d p
    using that assms(2) by (auto simp: somebody_def)
  have "\<forall>u. thread_ok (lr_thread ?s u)" using thr assms(3) by simp
  moreover have "nobody ?s rb \<or> (\<exists>u d p. somebody u d p ?s rb)" using rb(3) n b by blast
  ultimately show ?thesis
    using rb(1,2) by (auto simp: ring_inv_def)
qed

text \<open>A thread that takes a step inside the class enters it or is the holder.\<close>

lemma moving_thread:
  assumes "lr_thread s t = Inside c p" "\<not> waits p (lr_ring s)" "nobody s rb \<or> somebody u d q s rb"
  shows "(p = AtLock \<and> nobody s rb) \<or> (p \<noteq> AtLock \<and> somebody t c p s rb)"
proof (cases "p = AtLock")
  case True
  then have "\<not> somebody u d q s rb" using assms(2) by (auto simp: waits_def somebody_def)
  then show ?thesis using True assms(3) by blast
next
  case False
  then have h: "holds (lr_thread s t)" using assms(1) by simp
  then have "somebody u d q s rb" using assms(3) by (auto simp: nobody_def)
  moreover have "t = u" using calculation h by (auto simp: somebody_def)
  moreover have "d = c" "q = p" using calculation assms(1) by (simp_all add: somebody_def)
  ultimately show ?thesis using False by simp
qed

lemma ring_inv_run:
  assumes inv: "ring_inv rb0 s" and t: "lr_thread s t = Inside c p" and w: "\<not> waits p (lr_ring s)"
    and step: "call_step c p (lr_ring s) = Inr (Goto p', rb')"
  shows "ring_inv rb0 (s\<lparr>lr_ring := rb', lr_thread := (lr_thread s)(t := Inside c p')\<rparr>)"
proof -
  let ?s = "s\<lparr>lr_ring := rb', lr_thread := (lr_thread s)(t := Inside c p')\<rparr>"
  from inv obtain rb where rb: "sequential_run (lr_history s) rb0 = Some rb" "free_mutex rb"
      "nobody s rb \<or> (\<exists>t c p. somebody t c p s rb)" and thr: "\<forall>t. thread_ok (lr_thread s t)"
    by (auto simp: ring_inv_def)
  have rest: "rest_of_call c p (lr_ring s) = rest_of_call c p' rb'" using step by (rule rest_Goto)
  have p': "p' \<noteq> AtLock"
    using step_left_over [OF step] step_lock(2) [OF step] by (cases p) auto
  have "somebody t c p' ?s rb"
  proof (cases "p = AtLock")
    case True
    then have n: "nobody s rb" using moving_thread [OF t w] rb(3) by blast
    moreover have "rb_lock rb' = MutexLock True"
      using step_lock(1) step True rb(2) n lock_rb_unlocked [of rb]
      by (auto simp: nobody_def free_mutex_def rb_ok_def)
    ultimately show ?thesis
      using True p' rest by (auto simp: nobody_def somebody_def rest_is_whole_call)
  next
    case False
    then have "somebody t c p s rb" using moving_thread [OF t w] rb(3) by blast
    then show ?thesis
      using False p' rest step_lock(2) [OF step False] by (auto simp: somebody_def)
  qed
  moreover have "caller_ok c" using thr t by (metis thread_ok.simps(2))
  then have "\<forall>u. thread_ok (lr_thread ?s u)" using thr by simp
  ultimately show ?thesis
    using rb(1,2) by (auto simp: ring_inv_def)
qed

lemma ring_inv_return:
  assumes inv: "ring_inv rb0 s" and t: "lr_thread s t = Inside c p" and w: "\<not> waits p (lr_ring s)"
    and step: "call_step c p (lr_ring s) = Inr (Answer a, rb')"
  shows "ring_inv rb0 (s\<lparr>lr_ring := rb', lr_thread := (lr_thread s)(t := Outside),
    lr_history := lr_history s @ [(t, c, a)]\<rparr>)"
proof -
  let ?s = "s\<lparr>lr_ring := rb', lr_thread := (lr_thread s)(t := Outside), lr_history := lr_history s @ [(t, c, a)]\<rparr>"
  from inv obtain rb where rb: "sequential_run (lr_history s) rb0 = Some rb" "free_mutex rb"
      "nobody s rb \<or> (\<exists>t c p. somebody t c p s rb)" and thr: "\<forall>t. thread_ok (lr_thread s t)"
    by (auto simp: ring_inv_def)
  have "p \<noteq> AtLock" using step_lock(3) [OF step] by auto
  then have s: "somebody t c p s rb" using moving_thread [OF t w] rb(3) by blast
  then have whole: "whole_call c rb = Inr (a, rb')"
    using rest_Answer [OF step] by (simp add: somebody_def)
  have "caller_ok c" using thr t by (metis thread_ok.simps(2))
  then have "free_mutex rb'" using whole_call_answers [OF rb(2)] whole by force
  moreover have "nobody ?s rb'" using s by (auto simp: somebody_def nobody_def)
  moreover have "sequential_run (lr_history ?s) rb0 = Some rb'"
    using rb(1) whole by (simp add: sequential_run_append)
  ultimately show ?thesis using thr by (auto simp: ring_inv_def)
qed

lemma ring_inv_step: "ring_inv rb0 s \<Longrightarrow> ring_step t s s' \<Longrightarrow> ring_inv rb0 s'"
  by (erule ring_stepE) (auto intro: ring_inv_call ring_inv_run ring_inv_return)

lemma ring_reachable_inv: "ring_reachable rb s \<Longrightarrow> free_mutex rb \<Longrightarrow> ring_inv rb s"
  by (induction rule: ring_reachable.induct) (blast intro: ring_inv_start ring_inv_step)+

text \<open>No step of a call faults, and whoever is inside the class lets the next one in.\<close>

lemma no_fault_step:
  assumes inv: "ring_inv rb0 s" and t: "lr_thread s t = Inside c p" and w: "\<not> waits p (lr_ring s)"
  shows "call_step c p (lr_ring s) \<noteq> Inl f"
proof
  assume f: "call_step c p (lr_ring s) = Inl f"
  from inv obtain rb where rb: "free_mutex rb" "nobody s rb \<or> (\<exists>t c p. somebody t c p s rb)"
      and thr: "\<forall>t. thread_ok (lr_thread s t)"
    by (auto simp: ring_inv_def)
  have "p = AtLock \<and> nobody s rb \<or> somebody t c p s rb" using moving_thread [OF t w] rb(2) by blast
  then have "rest_of_call c p (lr_ring s) = whole_call c rb"
    by (auto simp: nobody_def somebody_def rest_is_whole_call)
  moreover have "caller_ok c" using thr t by (metis thread_ok.simps(2))
  ultimately show False using whole_call_answers [OF rb(1)] rest_fault [OF f] by force
qed

lemma someone_moves:
  assumes inv: "ring_inv rb0 s" and t: "lr_thread s t = Inside c p"
  shows "\<exists>u s'. lr_thread s u \<noteq> Outside \<and> ring_step u s s'"
proof -
  have move: "\<exists>s'. ring_step u s s'" if u: "lr_thread s u = Inside d q" "\<not> waits q (lr_ring s)" for u d q
  proof -
    obtain r where "call_step d q (lr_ring s) = Inr r"
      using no_fault_step [OF inv u] by (cases "call_step d q (lr_ring s)") auto
    then show ?thesis using u by (cases r; cases "fst r") (auto intro: ring_step.run ring_step.return)
  qed
  show ?thesis
  proof (cases "waits p (lr_ring s)")
    case False
    then show ?thesis using move t by force
  next
    case True
    from inv obtain rb where rb: "free_mutex rb" "nobody s rb \<or> (\<exists>t c p. somebody t c p s rb)"
      by (auto simp: ring_inv_def)
    then obtain u d q where "somebody u d q s rb"
      using True by (auto simp: nobody_def waits_def free_mutex_def)
    then have u: "lr_thread s u = Inside d q" and "q \<noteq> AtLock"
      using somebody_inside by (auto simp: somebody_def)
    then have "\<not> waits q (lr_ring s)" by (simp add: waits_def)
    then show ?thesis using move [OF u] u by force
  qed
qed


section \<open>Every sequential history is possible\<close>

lemma run_alone:
  assumes "ring_reachable rb s" "lr_thread s t = Inside c p" "\<not> waits p (lr_ring s)"
    and "rest_of_call c p (lr_ring s) = Inr (a, rb')"
  shows "ring_reachable rb (s\<lparr>lr_ring := rb', lr_thread := (lr_thread s)(t := Outside),
    lr_history := lr_history s @ [(t, c, a)]\<rparr>)"
  using assms
proof (induction "left_over p" arbitrary: s p rule: less_induct)
  case less
  from less.prems(4) obtain r where "call_step c p (lr_ring s) = Inr r"
    using rest_fault by (cases "call_step c p (lr_ring s)") force+
  moreover obtain nx r1 where "r = (nx, r1)" by (cases r)
  ultimately have go: "call_step c p (lr_ring s) = Inr (nx, r1)" by simp
  show ?case
  proof (cases nx)
    case (Goto p')
    let ?s = "s\<lparr>lr_ring := r1, lr_thread := (lr_thread s)(t := Inside c p')\<rparr>"
    have step: "call_step c p (lr_ring s) = Inr (Goto p', r1)" using go Goto by simp
    have "p' \<noteq> AtLock" using step_left_over [OF step] step_lock(2) [OF step] by (cases p) auto
    moreover have "ring_reachable rb ?s"
      using less.prems(1) ring_step.run [OF less.prems(2,3) step] by (rule ring_reachable.step)
    moreover have "rest_of_call c p' (lr_ring ?s) = Inr (a, rb')"
      using less.prems(4) rest_Goto [OF step] by simp
    ultimately have "ring_reachable rb (?s\<lparr>lr_ring := rb', lr_thread := (lr_thread ?s)(t := Outside),
        lr_history := lr_history ?s @ [(t, c, a)]\<rparr>)"
      using step_left_over [OF step] by (intro less.hyps) (simp_all add: waits_def)
    then show ?thesis by simp
  next
    case (Answer b)
    then have step: "call_step c p (lr_ring s) = Inr (Answer b, r1)" using go by simp
    have "b = a" "r1 = rb'" using rest_Answer [OF step] less.prems(4) by simp_all
    then show ?thesis
      using less.prems(1) ring_step.return [OF less.prems(2,3)] step by (blast intro: ring_reachable.step)
  qed
qed

text \<open>A thread calls while nobody is inside, and returns before anybody else calls.\<close>

lemma call_alone:
  assumes "ring_reachable rb \<lparr>lr_ring = r, lr_thread = (\<lambda>_. Outside), lr_history = h\<rparr>"
    and "rb_lock r = MutexLock False" "caller_ok c" "whole_call c r = Inr (a, r')"
  shows "ring_reachable rb \<lparr>lr_ring = r', lr_thread = (\<lambda>_. Outside), lr_history = h @ [(t, c, a)]\<rparr>"
proof -
  let ?s = "\<lparr>lr_ring = r, lr_thread = (\<lambda>_. Outside), lr_history = h\<rparr>"
  let ?s1 = "?s\<lparr>lr_thread := (lr_thread ?s)(t := Inside c AtLock)\<rparr>"
  have "ring_step t ?s ?s1" using assms(3) by (intro ring_step.call) simp_all
  then have "ring_reachable rb ?s1" using assms(1) by (blast intro: ring_reachable.step)
  then have "ring_reachable rb (?s1\<lparr>lr_ring := r', lr_thread := (lr_thread ?s1)(t := Outside),
      lr_history := lr_history ?s1 @ [(t, c, a)]\<rparr>)"
    using assms(2,4) by (intro run_alone [where p = AtLock]) (simp_all add: waits_def rest_is_whole_call)
  moreover have "(lr_thread ?s1)(t := Outside) = (\<lambda>_. Outside)" by (simp add: fun_eq_iff)
  ultimately show ?thesis by simp
qed

lemma sequential_possible:
  assumes "free_mutex rb" "sequential_run h rb = Some rb'" "list_all (\<lambda>(t, c, a). caller_ok c) h"
  shows "ring_reachable rb \<lparr>lr_ring = rb', lr_thread = (\<lambda>_. Outside), lr_history = h\<rparr> \<and> free_mutex rb'"
  using assms
proof (induction h arbitrary: rb' rule: rev_induct)
  case Nil
  then show ?case using ring_reachable.start [of rb] by (simp add: shared_ring_def)
next
  case (snoc e h)
  obtain t c a where e: "e = (t, c, a)" by (cases e)
  from snoc.prems(2) e obtain r where r: "sequential_run h rb = Some r" "whole_call c r = Inr (a, rb')"
    by (auto simp: sequential_run_append split: option.splits sum.splits if_splits)
  have c: "caller_ok c" using snoc.prems(3) e by simp
  have "ring_reachable rb \<lparr>lr_ring = r, lr_thread = (\<lambda>_. Outside), lr_history = h\<rparr>" "free_mutex r"
    using snoc.IH [of r] snoc.prems r(1) by simp_all
  then show ?case
    using call_alone [of rb r h c a rb' t] r(2) c e whole_call_answers [of r c] by (auto simp: free_mutex_def)
qed

text \<open>One thread in the middle of its first call, and nobody else inside.\<close>

definition lone :: "ring_call \<Rightarrow> ring_pos \<Rightarrow> ring_buffer \<Rightarrow> locked_ring" where
  "lone c p r = \<lparr>lr_ring = r, lr_thread = (\<lambda>_. Outside)(0 := Inside c p), lr_history = []\<rparr>"

lemma lone_call: "caller_ok c \<Longrightarrow> ring_reachable rb (lone c AtLock rb)"
  using ring_reachable.step [OF ring_reachable.start ring_step.call [of "shared_ring rb" 0 c]]
  by (simp add: lone_def shared_ring_def)

lemma lone_step:
  assumes "ring_reachable rb (lone c p r)" "\<not> waits p r" "call_step c p r = Inr (Goto p', r')"
  shows "ring_reachable rb (lone c p' r')"
  using ring_reachable.step [OF assms(1) ring_step.run [of "lone c p r" 0 c p p' r']] assms(2,3)
  by (simp add: lone_def)

section \<open>The stream of bytes\<close>

text \<open>The bytes that the calls of a history have put in and handed out.\<close>

fun put_in :: "(nat \<times> ring_call \<times> ring_answer) list \<Rightarrow> byte list" where
  "put_in ((t, EnqueueCall (Some data) n, Count k) # h) = take (unat k) data @ put_in h"
| "put_in (e # h) = put_in h"
| "put_in [] = []"

fun handed_out :: "(nat \<times> ring_call \<times> ring_answer) list \<Rightarrow> byte list" where
  "handed_out ((t, DequeueCall (Some data) n, Copied k (Some mem)) # h) = take (unat k) mem @ handed_out h"
| "handed_out (e # h) = handed_out h"
| "handed_out [] = []"

text \<open>Calls that move no bytes except from or to the caller's memory.\<close>

fun by_copy :: "ring_call \<Rightarrow> bool" where
  "by_copy (ConsumeCall n) = False"
| "by_copy (MoveWritePtrCall n) = False"
| "by_copy ClearCall = False"
| "by_copy c = True"

lemma call_stream:
  assumes "free_mutex rb" "caller_ok c" "by_copy c" "whole_call c rb = Inr (a, rb')"
  shows "contents rb @ put_in [(t, c, a)] = handed_out [(t, c, a)] @ contents rb'"
proof -
  have ok: "rb_ok rb" using assms(1) by (simp add: free_mutex_def)
  note u = unlocked_ok [OF ok]
  show ?thesis
  proof (cases c)
    case (EnqueueCall d n)
    then show ?thesis
      using assms(2,4) ok write_bytes_ok(2) [OF ok, of "take (unat n) (the d)"] u
      by (cases d) (auto simp: Enqueue_ok null_memory min_absorb2 split: if_splits)
  next
    case (DequeueCall d n)
    then show ?thesis
      using assms(2,4) ok drop_bytes_ok(2) [OF ok, of "unat n"] u
      by (cases d) (auto simp: Dequeue_ok null_memory split: if_splits)
  next
    case (PeekCall d n)
    then show ?thesis
      using assms(2,4) ok u by (cases d) (auto simp: Peek_ok null_memory split: if_splits)
  next
    case GetDataSizeCall
    then show ?thesis using assms(4) u by (auto simp: GetDataSize_unlocked)
  next
    case GetFreeSizeCall
    then show ?thesis using assms(4) u by (auto simp: GetFreeSize_unlocked)
  qed (use assms(3,4) in \<open>auto simp: with_lock_unlocked [OF u] GetWritePtr_def GetReadPtr_def GetDirectWriteSize_def GetDirectReadSize_def GetSendInfo_def\<close>)
qed

lemma put_in_append: "put_in (h @ h') = put_in h @ put_in h'"
  by (induction h rule: put_in.induct) simp_all

lemma handed_out_append: "handed_out (h @ h') = handed_out h @ handed_out h'"
  by (induction h rule: handed_out.induct) simp_all

lemma history_stream:
  assumes "free_mutex rb" "sequential_run h rb = Some rb'" "list_all (\<lambda>(t, c, a). caller_ok c \<and> by_copy c) h"
  shows "contents rb @ put_in h = handed_out h @ contents rb'"
  using assms
proof (induction h arbitrary: rb)
  case Nil
  then show ?case by simp
next
  case (Cons e h)
  obtain t c a where e: "e = (t, c, a)" by (cases e)
  from Cons.prems(2) e obtain r where r: "whole_call c rb = Inr (a, r)" "sequential_run h r = Some rb'"
    by (auto split: sum.splits if_splits)
  have "free_mutex r" using whole_call_answers [OF Cons.prems(1), of c] r(1) Cons.prems(3) e by auto
  then have "contents r @ put_in h = handed_out h @ contents rb'" using Cons.IH r(2) Cons.prems(3) by simp
  moreover have "contents rb @ put_in [e] = handed_out [e] @ contents r"
    using call_stream [OF Cons.prems(1) _ _ r(1)] Cons.prems(3) e by simp
  ultimately have "(contents rb @ put_in [e]) @ put_in h = (handed_out [e] @ handed_out h) @ contents rb'"
    by simp
  then show ?case using put_in_append [of "[e]" h] handed_out_append [of "[e]" h] by simp
qed

end
