(* ===== verification/RingInFlight.thy ===== *)
theory RingInFlight
  imports LockedRing TransferSpec
begin

text \<open>
  The kernel reads the bytes of an outstanding \<open>WSASend\<close> from the memory of the send queue
  without the mutex, while other threads enqueue.  Here: the calls that take nothing out of the
  ring leave the bytes between the read and the write position of an earlier moment where they
  are, in every state between two statements, also while a \<open>memcpy\<close> of \<open>Enqueue\<close> is pending.
\<close>

section \<open>Writes outside of a window\<close>

text \<open>Writing into the free part leaves every earlier window of the ring alone.\<close>

lemma ring_write_window:
  assumes "r < length buf" "w0 < length buf" "w < length buf"
    and "length (ring_list buf r w0) \<le> length (ring_list buf r w)"
    and "length xs + length (ring_list buf r w) < length buf"
  shows "ring_list (ring_write buf w xs) r w0 = ring_list buf r w0"
proof (rule nth_equalityI)
  have l: "length (ring_write buf w xs) = length buf"
    using assms by (intro length_ring_write) auto
  then show ll: "length (ring_list (ring_write buf w xs) r w0) = length (ring_list buf r w0)"
    using assms by (simp add: length_ring_list)
  fix i assume "i < length (ring_list (ring_write buf w xs) r w0)"
  then have i: "i < length (ring_list buf r w0)" by (simp only: ll)
  then have iw: "i < length (ring_list buf r w)" using assms(4) by simp
  let ?j = "wrap_add (length buf) r i"
  have j: "?j < length buf"
    using assms iw by (intro wrap_add_less) auto
  have "\<not> (if w \<le> ?j then ?j - w else ?j + length buf - w) < length xs"
    using assms iw wrap_add_outside [of r "length buf" w i "length xs"]
    by (simp only: length_ring_list not_less)
  then have "ring_write buf w xs ! ?j = buf ! ?j"
    using assms j by (simp add: nth_ring_write Let_def)
  then show "ring_list (ring_write buf w xs) r w0 ! i = ring_list buf r w0 ! i"
    using assms i l ll by (simp add: nth_ring_list)
qed

text \<open>The second \<open>memcpy\<close> writes at the start of the array, as far as the free part goes on there.\<close>

lemma wrapped_part:
  fixes r w c n :: nat
  assumes "r < c" "w < c" "n + (if r \<le> w then w - r else c - r + w) < c" "c - w < n"
  shows "r \<le> w" "0 < r" "n - (c - w) + (c - r) < c"
proof -
  show "r \<le> w"
  proof (rule ccontr)
    assume "\<not> r \<le> w"
    with assms(3) have "n + (c - r + w) < c" by simp
    with assms(1,2,4) show False by linarith
  qed
  with assms show "0 < r" "n - (c - w) + (c - r) < c" by simp_all
qed

lemma ring_write_wrapped:
  assumes "r < length buf" "w0 < length buf" "w < length buf"
    and "length (ring_list buf r w0) \<le> length (ring_list buf r w)"
    and "n + length (ring_list buf r w) < length buf" "length buf - w < n" "length xs = n - (length buf - w)"
  shows "ring_list (ring_write buf 0 xs) r w0 = ring_list buf r w0"
proof -
  note p = wrapped_part [of r "length buf" w n]
  have r: "r \<le> w" "0 < r" "length xs + (length buf - r) < length buf"
    using p assms by (simp_all add: length_ring_list)
  then have z: "length (ring_list buf r 0) = length buf - r" using assms(1) by (subst length_ring_list) auto
  have "length (ring_list buf r w) \<le> length buf - r" using r assms by (simp add: length_ring_list)
  then show ?thesis
    using assms(1,2,4) r z by (intro ring_write_window) auto
qed

section \<open>Calls that take nothing out\<close>

fun keeps_front :: "ring_call \<Rightarrow> bool" where
  "keeps_front (DequeueCall data n) = False"
| "keeps_front (ConsumeCall n) = False"
| "keeps_front ClearCall = False"
| "keeps_front _ = True"

text \<open>The ring without its lock, and the memory of \<open>cur\<close> seen through the positions of \<open>rb\<close>.\<close>

definition bare :: "ring_buffer \<Rightarrow> ring_buffer" where
  "bare rb = rb\<lparr>rb_lock := NoLock\<rparr>"

lemma bare_simps [simp]:
  "rb_buffer (bare rb) = rb_buffer rb" "rb_capacity (bare rb) = rb_capacity rb" "rb_readPos (bare rb) = rb_readPos rb"
  "rb_writePos (bare rb) = rb_writePos rb" "contents (bare rb) = contents rb" "room (bare rb) = room rb"
  "GetFreeSize_Internal (bare rb) = GetFreeSize_Internal rb" "bare (rb\<lparr>rb_lock := l\<rparr>) = bare rb"
  "bare (rb\<lparr>rb_buffer := m\<rparr>) = (bare rb)\<lparr>rb_buffer := m\<rparr>" "bare (rb\<lparr>rb_writePos := w\<rparr>) = (bare rb)\<lparr>rb_writePos := w\<rparr>"
  by (simp_all add: bare_def contents_def room_def cong: option.case_cong)

definition front_kept :: "ring_buffer \<Rightarrow> ring_buffer \<Rightarrow> bool" where
  "front_kept rb cur \<longleftrightarrow> rb_ok (bare cur) \<and> rb_capacity cur = rb_capacity rb \<and> rb_readPos cur = rb_readPos rb \<and>
     length (contents rb) \<le> length (contents cur) \<and> contents (rb\<lparr>rb_buffer := rb_buffer cur\<rparr>) = contents rb"

lemma rb_ok_bare: "rb_ok rb \<Longrightarrow> rb_ok (bare rb)"
  by (elim rb_okE) (simp add: rb_ok_def bare_def unlocked_def)

lemma front_kept_bare: "bare cur = bare cur' \<Longrightarrow> front_kept rb cur \<longleftrightarrow> front_kept rb cur'"
proof -
  assume b: "bare cur = bare cur'"
  then have "rb_buffer cur = rb_buffer cur'" "rb_capacity cur = rb_capacity cur'" "rb_readPos cur = rb_readPos cur'"
      "contents cur = contents cur'"
    by (metis bare_simps)+
  then show ?thesis using b by (simp add: front_kept_def)
qed

text \<open>What the statements after the checks of a call rely on.\<close>

fun fits_at :: "ring_call \<Rightarrow> ring_pos \<Rightarrow> ring_buffer \<Rightarrow> bool" where
  "fits_at (EnqueueCall data n) AtCopy rb = (unat n \<le> room rb)"
| "fits_at (EnqueueCall data n) (AtWrap src) rb =
     (unat n \<le> room rb \<and> unat (rb_capacity rb) - unat (rb_writePos rb) < unat n)"
| "fits_at (EnqueueCall data n) (AtMove src) rb = (unat n \<le> room rb)"
| "fits_at (MoveWritePtrCall n) (AtMove mem) rb = (unat n \<le> room rb)"
| "fits_at c p rb = True"

lemma fits_at_unlock [simp]: "fits_at c (AtUnlock a) rb" "fits_at c AtCheck rb" "fits_at c AtLock rb"
  by (cases c; simp)+

text \<open>A ring that is bare-equal to the old one but for new memory of the same window.\<close>

lemma front_kept_memory:
  assumes front: "front_kept rb cur" and rb: "rb_ok rb" and buf: "rb_buffer cur = Some buf"
    and len: "length buf' = length buf"
    and win: "ring_list buf' (unat (rb_readPos rb)) (unat (rb_writePos rb)) =
      ring_list buf (unat (rb_readPos rb)) (unat (rb_writePos rb))"
  shows "front_kept rb (cur\<lparr>rb_buffer := Some buf'\<rparr>)" "room (cur\<lparr>rb_buffer := Some buf'\<rparr>) = room cur"
proof -
  have ok: "rb_ok (bare cur)" using front by (simp add: front_kept_def)
  then have c: "unat (rb_readPos cur) < length buf" "unat (rb_writePos cur) < length buf" "length buf = unat (rb_capacity cur)"
    using buf by (auto elim!: rb_okE)
  then have "length (contents (cur\<lparr>rb_buffer := Some buf'\<rparr>)) = length (contents cur)"
    using len buf by (simp add: contents_def length_ring_list)
  moreover have "rb_ok (bare (cur\<lparr>rb_buffer := Some buf'\<rparr>))"
    using ok len buf by (auto simp: rb_ok_def bare_def unlocked_def)
  moreover have "contents (rb\<lparr>rb_buffer := Some buf'\<rparr>) = contents (rb\<lparr>rb_buffer := rb_buffer cur\<rparr>)"
    using buf win by (simp add: contents_def)
  ultimately show "front_kept rb (cur\<lparr>rb_buffer := Some buf'\<rparr>)" "room (cur\<lparr>rb_buffer := Some buf'\<rparr>) = room cur"
    using front by (simp_all add: front_kept_def room_def)
qed

text \<open>Moving the write position over free space.\<close>

lemma front_kept_advance:
  assumes front: "front_kept rb cur" and n: "unat n \<le> room cur"
  shows "\<exists>pos. mod_size (rb_writePos cur + n) (rb_capacity cur) = Inr pos \<and> front_kept rb (cur\<lparr>rb_writePos := pos\<rparr>)"
proof -
  have ok: "rb_ok (bare cur)" using front by (simp add: front_kept_def)
  then obtain buf where b: "rb_buffer cur = Some buf" "length buf = unat (rb_capacity cur)"
      "unat (rb_readPos cur) < length buf" "unat (rb_writePos cur) < length buf" "length buf \<le> 2 ^ 63"
      "contents cur = ring_list buf (unat (rb_readPos cur)) (unat (rb_writePos cur))"
    by (auto elim!: rb_okE)
  have lt: "unat n + length (contents cur) < length buf"
    using n room_contents [OF ok] b(2) by simp
  let ?k = "wrap_add (length buf) (unat (rb_writePos cur)) (unat n)"
  have pos: "mod_size (rb_writePos cur + n) (rb_capacity cur) = Inr (of_nat ?k)" "unat (of_nat ?k :: size_t) = ?k"
    using unat_wrap [of "rb_writePos cur" "rb_capacity cur" n] b lt by simp_all
  have "length (contents (cur\<lparr>rb_writePos := of_nat ?k\<rparr>)) = length (contents cur) + unat n"
    using length_ring_list_grow [of "unat (rb_readPos cur)" buf "unat (rb_writePos cur)" "unat n"] b lt pos(2)
    by (simp add: contents_def)
  moreover have "rb_ok (bare (cur\<lparr>rb_writePos := of_nat ?k\<rparr>))"
    using advance_write_ok [OF ok, of "unat n"] n b(2) by (simp add: advance_write_def)
  ultimately have "front_kept rb (cur\<lparr>rb_writePos := of_nat ?k\<rparr>)"
    using front by (simp add: front_kept_def)
  then show ?thesis using pos(1) by blast
qed


section \<open>The steps\<close>

lemma front_kept_step_enqueue:
  assumes front: "front_kept rb cur" and rb: "rb_ok rb" and fits: "fits_at (EnqueueCall d n) p cur"
    and step: "enqueue_step d n p cur = Inr (Goto p', cur')"
  shows "front_kept rb cur' \<and> fits_at (EnqueueCall d n) p' cur'"
proof -
  have ok: "rb_ok (bare cur)" using front by (simp add: front_kept_def)
  then obtain buf where b: "rb_buffer cur = Some buf" "length buf = unat (rb_capacity cur)"
      "unat (rb_readPos cur) < length buf" "unat (rb_writePos cur) < length buf" "length buf \<le> 2 ^ 63"
      "contents cur = ring_list buf (unat (rb_readPos cur)) (unat (rb_writePos cur))"
    by (auto elim!: rb_okE)
  have cw: "unat (rb_capacity cur - rb_writePos cur) = length buf - unat (rb_writePos cur)"
    using b by (simp add: unat_sub_le)
  let ?r = "unat (rb_readPos rb)" and ?v = "unat (rb_writePos rb)" and ?w = "unat (rb_writePos cur)"
  let ?k = "min (unat n) (length buf - ?w)"
  have same: "rb_readPos cur = rb_readPos rb" "rb_capacity cur = rb_capacity rb"
    and longer: "length (contents rb) \<le> length (contents cur)"
    using front by (simp_all add: front_kept_def)
  have w0: "?v < length buf" using rb b same by (auto elim!: rb_okE)
  have win: "length (ring_list buf ?r ?v) \<le> length (ring_list buf ?r ?w)"
    using longer b rb same w0 by (auto elim!: rb_okE simp: length_ring_list)
  have free: "unat n + length (ring_list buf ?r ?w) < length buf" if "unat n \<le> room cur"
    using that room_contents [OF ok] b same by simp
  show ?thesis
  proof (cases p)
    case AtLock
    then have "bare cur' = bare cur" "fits_at (EnqueueCall d n) p' cur'"
      using step by (auto simp: enter_def andThen_Inr_iff lock_rb_def)
    then show ?thesis using front front_kept_bare by blast
  next
    case AtCheck
    then show ?thesis
      using step front free_size_less [OF ok, of n] by (auto simp: Let_def not_less split: if_splits)
  next
    case AtCopy
    then have n: "unat n \<le> room cur" using fits by simp
    from step AtCopy b cw obtain buf' where mc: "memcpy buf ?w (the d) 0 ?k = Inr buf'"
      and c: "cur' = cur\<lparr>rb_buffer := Some buf'\<rparr>"
      and p': "p' = (if n > min n (rb_capacity cur - rb_writePos cur) then AtWrap (the d) else AtMove (the d))"
      by (auto simp: Let_def andThen_Inr_iff)
    have src: "?k \<le> length (the d)" using mc by (simp add: memcpy_def split: if_splits)
    have "buf' = ring_write buf ?w (take ?k (the d))"
      using mc src b by (auto simp: memcpy_def ring_write_short split: if_splits)
    moreover have "ring_list (ring_write buf ?w (take ?k (the d))) ?r ?v = ring_list buf ?r ?v"
      using free [OF n] b same w0 win by (intro ring_write_window) auto
    moreover have "length buf' = length buf" using calculation(1) free [OF n] b by (simp add: length_ring_write)
    ultimately have "front_kept rb cur'" "room cur' = room cur"
      using front_kept_memory [OF front rb b(1), of buf'] c by simp_all
    moreover have "n > min n (rb_capacity cur - rb_writePos cur) \<longleftrightarrow> length buf - ?w < unat n"
      using cw by (simp add: word_less_nat_alt min_less_iff_disj)
    ultimately show ?thesis using n p' c b by simp
  next
    case (AtWrap src)
    then have n: "unat n \<le> room cur" and gt: "length buf - ?w < unat n" using fits b by simp_all
    have sub: "unat (n - min n (rb_capacity cur - rb_writePos cur)) = unat n - (length buf - ?w)"
      using gt cw by (simp add: unat_sub_le min_def word_le_nat_alt)
    have mn: "unat (min n (rb_capacity cur - rb_writePos cur)) = length buf - ?w"
      using gt cw by simp
    from step AtWrap b(1) mn sub obtain buf'
      where mc: "memcpy buf 0 src (length buf - ?w) (unat n - (length buf - ?w)) = Inr buf'"
        and c: "cur' = cur\<lparr>rb_buffer := Some buf'\<rparr>" and p': "p' = AtMove src"
      by (auto simp: Let_def andThen_Inr_iff simp del: unat_min)
    let ?xs = "take (unat n - (length buf - ?w)) (drop (length buf - ?w) src)"
    have l: "length ?xs = unat n - (length buf - ?w)" "length ?xs \<le> length buf"
      and buf': "buf' = ring_write buf 0 ?xs"
      using mc by (auto simp: memcpy_def ring_write_short split: if_splits)
    have "ring_list buf' ?r ?v = ring_list buf ?r ?v"
      unfolding buf' using free [OF n] b same w0 win gt l(1) by (intro ring_write_wrapped) (simp_all only: l(1))
    moreover have "length buf' = length buf" unfolding buf' using l b by (intro length_ring_write) auto
    ultimately show ?thesis
      using front_kept_memory [OF front rb b(1), of buf'] c n p' by simp
  next
    case (AtMove src)
    then have n: "unat n \<le> room cur" using fits by simp
    show ?thesis using front_kept_advance [OF front n] step AtMove by auto
  qed (use step in \<open>simp_all add: nowhere_def leave_def andThen_Inr_iff\<close>)
qed

lemma front_kept_step:
  assumes front: "front_kept rb cur" and rb: "rb_ok rb" and fits: "fits_at c p cur" and keep: "keeps_front c"
    and step: "call_step c p cur = Inr (Goto p', cur')"
  shows "front_kept rb cur' \<and> fits_at c p' cur'"
proof -
  have same: ?thesis if "bare cur' = bare cur" "fits_at c p' cur'"
    using that front front_kept_bare by blast
  show ?thesis
  proof (cases c)
    case (EnqueueCall d n)
    then show ?thesis using front_kept_step_enqueue [OF front rb] fits step by simp
  next
    case (MoveWritePtrCall n)
    have ok: "rb_ok (bare cur)" using front by (simp add: front_kept_def)
    show ?thesis
    proof (cases p)
      case AtLock
      then show ?thesis
        using step MoveWritePtrCall by (intro same) (auto simp: enter_def andThen_Inr_iff lock_rb_def)
    next
      case AtCheck
      then show ?thesis
        using step front MoveWritePtrCall free_size_less [OF ok, of n] by (auto simp: Let_def not_less split: if_splits)
    next
      case (AtMove mem)
      then show ?thesis using front_kept_advance [OF front, of n] fits step MoveWritePtrCall by auto
    qed (use step MoveWritePtrCall in \<open>simp_all add: nowhere_def leave_def andThen_Inr_iff\<close>)
  next
    case (PeekCall d n)
    then show ?thesis
      using step by (intro same; cases p)
        (auto simp: enter_def leave_def nowhere_def andThen_Inr_iff lock_rb_def Let_def split: if_splits)
  qed (use keep step in \<open>(intro same; cases p; auto simp: enter_def leave_def nowhere_def andThen_Inr_iff lock_rb_def)\<close>)+
qed


section \<open>The invariant\<close>

text \<open>Whether only calls that take nothing out of the ring have been made.\<close>

definition only_keeps :: "locked_ring \<Rightarrow> bool" where
  "only_keeps s \<longleftrightarrow> (\<forall>(t, c, a) \<in> set (lr_history s). keeps_front c) \<and>
     (\<forall>t c p. lr_thread s t = Inside c p \<longrightarrow> keeps_front c)"

lemma only_keeps_before: "ring_step t s s' \<Longrightarrow> only_keeps s' \<Longrightarrow> only_keeps s"
proof (erule ring_stepE)
  fix c assume "s' = s\<lparr>lr_thread := (lr_thread s)(t := Inside c AtLock)\<rparr>" "lr_thread s t = Outside" "only_keeps s'"
  then show ?thesis by (auto simp: only_keeps_def) (metis ring_thread.distinct(1))
next
  fix c p p' rb assume "s' = s\<lparr>lr_ring := rb, lr_thread := (lr_thread s)(t := Inside c p')\<rparr>" "lr_thread s t = Inside c p"
    "only_keeps s'"
  then show ?thesis by (auto simp: only_keeps_def) (metis ring_thread.inject)
next
  fix c p a rb assume "s' = s\<lparr>lr_ring := rb, lr_thread := (lr_thread s)(t := Outside), lr_history := lr_history s @ [(t, c, a)]\<rparr>"
    "lr_thread s t = Inside c p" "only_keeps s'"
  then show ?thesis by (auto simp: only_keeps_def) (metis ring_thread.inject)
qed

definition all_fit :: "locked_ring \<Rightarrow> bool" where
  "all_fit s \<longleftrightarrow> (\<forall>t c p. lr_thread s t = Inside c p \<longrightarrow> fits_at c p (lr_ring s))"

lemma others_at_lock:
  assumes "ring_inv rb0 s" "lr_thread s t = Inside c p" "\<not> waits p (lr_ring s)"
    and "lr_thread s u = Inside d q" "u \<noteq> t"
  shows "q = AtLock"
proof -
  from assms(1) obtain rb where "nobody s rb \<or> (\<exists>t c p. somebody t c p s rb)" by (auto simp: ring_inv_def)
  then have "p = AtLock \<and> nobody s rb \<or> somebody t c p s rb" using moving_thread [OF assms(2,3)] by blast
  then have "\<not> holds (lr_thread s u)" using assms(5) by (auto simp: nobody_def somebody_def)
  then show ?thesis using assms(4) by simp
qed

lemma all_fit_next:
  assumes "ring_inv rb0 s" "lr_thread s t = Inside c p" "\<not> waits p (lr_ring s)" "fits_at c p' rb'"
  shows "all_fit (s\<lparr>lr_ring := rb', lr_thread := (lr_thread s)(t := Inside c p')\<rparr>)"
    and "all_fit (s\<lparr>lr_ring := rb', lr_thread := (lr_thread s)(t := Outside), lr_history := h\<rparr>)"
proof -
  have other: "fits_at d q rb'" if "lr_thread s u = Inside d q" "u \<noteq> t" for u d q
    using others_at_lock [OF assms(1-3) that] by simp
  show "all_fit (s\<lparr>lr_ring := rb', lr_thread := (lr_thread s)(t := Inside c p')\<rparr>)"
    and "all_fit (s\<lparr>lr_ring := rb', lr_thread := (lr_thread s)(t := Outside), lr_history := h\<rparr>)"
    using assms(4) other by (auto simp: all_fit_def)
qed

lemma in_flight_inv:
  assumes "ring_reachable rb s" "free_mutex rb" "only_keeps s"
  shows "front_kept rb (lr_ring s) \<and> all_fit s"
  using assms
proof (induction rule: ring_reachable.induct)
  case start
  then have "rb_ok (bare rb)" by (auto simp: free_mutex_def intro: rb_ok_bare)
  then show ?case by (simp add: shared_ring_def front_kept_def all_fit_def)
next
  case (step s t s')
  have rb: "rb_ok rb" using step.prems(1) by (simp add: free_mutex_def)
  have k: "only_keeps s" using step.hyps(2) step.prems(2) by (rule only_keeps_before)
  then have ih: "front_kept rb (lr_ring s)" "all_fit s" using step.IH step.prems(1) by simp_all
  have inv: "ring_inv rb s" using step.hyps(1) step.prems(1) by (rule ring_reachable_inv)
  from step.hyps(2) show ?case
  proof (rule ring_stepE)
    fix c assume "s' = s\<lparr>lr_thread := (lr_thread s)(t := Inside c AtLock)\<rparr>"
    then show ?thesis using ih by (auto simp: all_fit_def)
  next
    fix c p rb' p' assume t: "lr_thread s t = Inside c p" and w: "\<not> waits p (lr_ring s)"
      and go: "call_step c p (lr_ring s) = Inr (Goto p', rb')"
      and s': "s' = s\<lparr>lr_ring := rb', lr_thread := (lr_thread s)(t := Inside c p')\<rparr>"
    have "keeps_front c" using t k unfolding only_keeps_def by blast
    moreover have "fits_at c p (lr_ring s)" using t ih(2) by (simp add: all_fit_def)
    ultimately have "front_kept rb rb' \<and> fits_at c p' rb'"
      using front_kept_step [OF ih(1) rb _ _ go] by blast
    then show ?thesis using all_fit_next(1) [OF inv t w] s' by simp
  next
    fix c p a rb' assume t: "lr_thread s t = Inside c p" and w: "\<not> waits p (lr_ring s)"
      and go: "call_step c p (lr_ring s) = Inr (Answer a, rb')"
      and s': "s' = s\<lparr>lr_ring := rb', lr_thread := (lr_thread s)(t := Outside), lr_history := lr_history s @ [(t, c, a)]\<rparr>"
    have "bare rb' = bare (lr_ring s)" using step_lock(3) [OF go] by (auto simp: unlock_rb_def andThen_Inr_iff)
    then have "front_kept rb rb'" using ih(1) front_kept_bare by blast
    then show ?thesis using all_fit_next(2) [OF inv t w fits_at_unlock(1)] s' by simp
  qed
qed

text \<open>The buffers that \<open>GetSendInfo\<close> gave once still hold the same bytes.\<close>

lemma gather_in_flight:
  assumes "ring_reachable rb s" "free_mutex rb" "only_keeps s" "unat (rb_capacity rb) < 2 ^ 32"
  shows "gather (ring_mem (lr_ring s)) (send_bufs (send_info rb)) = Inr (contents rb)"
proof -
  have front: "front_kept rb (lr_ring s)" using in_flight_inv [OF assms(1-3)] by simp
  then obtain buf where b: "rb_buffer (lr_ring s) = Some buf" "length buf = unat (rb_capacity (lr_ring s))"
    by (auto simp: front_kept_def elim!: rb_okE)
  let ?old = "rb\<lparr>rb_buffer := rb_buffer (lr_ring s)\<rparr>"
  have "rb_ok ?old" using assms(2) front b by (auto simp: free_mutex_def front_kept_def rb_ok_def unlocked_def)
  then have "gather (ring_mem ?old) (send_bufs (send_info ?old)) = Inr (contents ?old)"
    using assms(4) by (intro gather_contents(1)) simp_all
  moreover have "send_info ?old = send_info rb"
    by (simp add: send_info_def GetDataSize_Internal_def direct_read_size_def)
  ultimately show ?thesis using front by (simp add: ring_mem_def front_kept_def)
qed

end
