(* ===== verification/RingProperties.thy ===== *)
theory RingProperties
  imports RingInFlight
begin

text \<open>
  The properties of the ring buffer, and of its direct access by the kernel, with their
  witnesses.
\<close>

section \<open>Concrete rings\<close>

text \<open>An allocator that zero-fills, and a small ring whose contents wrap around.\<close>

definition zero_alloc :: "size_t \<Rightarrow> byte list option" where
  "zero_alloc n = Some (replicate (unat n) 0)"

definition wrapped_ring :: ring_buffer where
  "wrapped_ring = \<lparr>rb_buffer = Some [10, 20, 30, 40, 50], rb_capacity = 5, rb_readPos = 3,
     rb_writePos = 1, rb_lock = MutexLock False\<rparr>"

lemma wrapped_ring_ok: "rb_ok wrapped_ring" "contents wrapped_ring = [40, 50, 10]" "room wrapped_ring = 1"
    "unat (rb_capacity wrapped_ring) = 5"
  by (simp_all add: wrapped_ring_def rb_ok_def contents_def room_def unlocked_def ring_list_def)

section \<open>Queue behaviour\<close>

text \<open>
  C6: A byte stream survives any sequence of Enqueue, Dequeue and Peek/Consume calls on a
  ring: no call faults, the bytes queued before followed by the bytes accepted are exactly the
  bytes handed out followed by the bytes still queued, and the usable capacity is constant.
\<close>

theorem ring_fifo_stream:
  assumes "rb_ok rb" "list_all fifo_call_small calls"
  shows "\<exists>ins outs rb'. fifo_run Enqueue Dequeue Peek Consume calls rb = Inr (ins, outs, rb') \<and> rb_ok rb' \<and>
    contents rb @ ins = outs @ contents rb' \<and>
    length (contents rb') + room rb' = length (contents rb) + room rb"
  using assms by (rule ring.run_stream_eq)

theorem ring_fifo_stream_witness:
  "\<exists>ins outs rb'. fifo_run Enqueue Dequeue Peek Consume
      [CallEnqueue [7, 8], CallDequeue 2, CallEnqueue [7, 8], CallPeekConsume 3] wrapped_ring = Inr (ins, outs, rb') \<and>
    rb_ok rb' \<and> contents wrapped_ring @ ins = outs @ contents rb' \<and>
    length (contents rb') + room rb' = length (contents wrapped_ring) + room wrapped_ring"
  by (rule ring_fifo_stream [of wrapped_ring]) (simp_all add: wrapped_ring_ok)

text \<open>
  C33: The operations are all or nothing.  Enqueue appends exactly the first sz bytes of the
  data when they fit and otherwise, or for a null pointer, returns 0 and leaves the ring as it
  was; the one byte that separates full from empty is never used.  With at least sz bytes
  queued, Peek and Dequeue copy the oldest sz bytes to the front of the destination and leave
  its tail alone, Dequeue and Consume remove them, Peek removes nothing; with fewer bytes all
  three return 0 and change nothing.
\<close>

theorem ring_operations:
  assumes ok: "rb_ok rb" and d: "unat sz \<le> length d"
  shows "(\<exists>rb'. Enqueue rb (Some d) sz = Inr (if unat sz \<le> room rb then sz else 0, rb') \<and> rb_ok rb' \<and>
      contents rb' = contents rb @ (if unat sz \<le> room rb then take (unat sz) d else []) \<and>
      (sz = 0 \<or> room rb < unat sz \<longrightarrow> rb' = rb)) \<and>
    Enqueue rb None sz = Inr (0, rb) \<and> length (contents rb) + room rb + 1 = unat (rb_capacity rb) \<and>
    (if sz \<noteq> 0 \<and> unat sz \<le> length (contents rb)
     then \<exists>rb' out. out = take (unat sz) (contents rb) @ drop (unat sz) d \<and>
       Dequeue rb (Some d) sz = Inr (sz, Some out, rb') \<and> Peek rb (Some d) sz = Inr (sz, Some out, rb) \<and>
       Consume rb sz = Inr (sz, rb') \<and> rb_ok rb' \<and> contents rb' = drop (unat sz) (contents rb)
     else Dequeue rb (Some d) sz = Inr (0, Some d, rb) \<and> Peek rb (Some d) sz = Inr (0, Some d, rb) \<and>
       Consume rb sz = Inr (0, rb))"
proof -
  have enq: "\<exists>rb'. Enqueue rb (Some d) sz = Inr (if unat sz \<le> room rb then sz else 0, rb') \<and> rb_ok rb' \<and>
      contents rb' = contents rb @ (if unat sz \<le> room rb then take (unat sz) d else []) \<and>
      (sz = 0 \<or> room rb < unat sz \<longrightarrow> rb' = rb)"
    using Enqueue_ok [OF ok d] d write_bytes_ok [OF ok, of "take (unat sz) d"] ok
    by (cases "unat sz \<le> room rb"; cases "sz = 0") (auto simp: min_absorb2)
  show ?thesis
    using enq null_memory(1) [OF unlocked_ok [OF ok], of sz] room_contents [OF ok]
      Dequeue_ok [OF ok d] Peek_ok [OF ok d] Consume_ok [OF ok, of sz] drop_bytes_ok [OF ok, of "unat sz"]
    by simp
qed

theorem ring_operations_witness:
  "(\<exists>rb'. Enqueue wrapped_ring (Some [9]) 1 = Inr (1, rb') \<and> contents rb' = [40, 50, 10, 9]) \<and>
   (\<exists>rb'. Dequeue wrapped_ring (Some [0, 0, 0, 99]) 3 = Inr (3, Some [40, 50, 10, 99], rb') \<and>
     Peek wrapped_ring (Some [0, 0, 0, 99]) 3 = Inr (3, Some [40, 50, 10, 99], wrapped_ring) \<and>
     Consume wrapped_ring 3 = Inr (3, rb') \<and> contents rb' = [])"
  using ring_operations [of wrapped_ring 1 "[9]"] ring_operations [of wrapped_ring 3 "[0, 0, 0, 99]"]
  by (auto simp: wrapped_ring_ok)

section \<open>Concurrent callers\<close>

text \<open>
  C26: The mutex makes the calls atomic.  However the statements of any number of threads inside
  CRingBufferT<MutexLock> interleave, the calls that have returned gave the answers of the
  sequential operations in the order of their returns, and whenever nobody is between lock and
  unlock the ring is the one that sequential run leaves; if bytes were only moved by Enqueue and
  Dequeue, what was put in comes out in that order.  At most one thread is inside, no statement
  faults, every statement brings its call nearer to its return, and some thread can always go on.
\<close>

theorem locked_calls_atomic:
  assumes "rb_ok rb" "rb_lock rb = MutexLock False" "ring_reachable rb s"
  shows "(\<exists>rb'. sequential_run (lr_history s) rb = Some rb' \<and> rb_ok rb' \<and>
      ((\<forall>t. \<not> holds (lr_thread s t)) \<longrightarrow> lr_ring s = rb') \<and>
      (list_all (\<lambda>(t, c, a). caller_ok c \<and> by_copy c) (lr_history s) \<longrightarrow>
        contents rb @ put_in (lr_history s) = handed_out (lr_history s) @ contents rb')) \<and>
    (\<forall>t u. holds (lr_thread s t) \<and> holds (lr_thread s u) \<longrightarrow> t = u) \<and>
    (\<forall>t c p f. lr_thread s t = Inside c p \<and> \<not> waits p (lr_ring s) \<longrightarrow> call_step c p (lr_ring s) \<noteq> Inl f) \<and>
    (\<forall>c p p' r r'. call_step c p r = Inr (Goto p', r') \<longrightarrow> left_over p' < left_over p) \<and>
    (\<forall>t. lr_thread s t \<noteq> Outside \<longrightarrow> (\<exists>u s'. lr_thread s u \<noteq> Outside \<and> ring_step u s s'))"
proof -
  have free: "free_mutex rb" using assms(1,2) by (simp add: free_mutex_def)
  have inv: "ring_inv rb s" using assms(3) free by (rule ring_reachable_inv)
  then obtain rb' where rb': "sequential_run (lr_history s) rb = Some rb'" "free_mutex rb'"
      "nobody s rb' \<or> (\<exists>t c p. somebody t c p s rb')"
    by (auto simp: ring_inv_def)
  have "(\<forall>t. \<not> holds (lr_thread s t)) \<longrightarrow> lr_ring s = rb'"
    using rb'(3) by (auto simp: nobody_def somebody_def)
  moreover have "\<forall>t u. holds (lr_thread s t) \<and> holds (lr_thread s u) \<longrightarrow> t = u"
    using rb'(3) by (auto simp: nobody_def somebody_def)
  moreover have "\<forall>t. lr_thread s t \<noteq> Outside \<longrightarrow> (\<exists>u s'. lr_thread s u \<noteq> Outside \<and> ring_step u s s')"
    using someone_moves [OF inv] by (metis ring_thread.exhaust)
  moreover have "rb_ok rb'" using rb'(2) by (simp add: free_mutex_def)
  ultimately show ?thesis
    using rb'(1) history_stream [OF free rb'(1)] no_fault_step [OF inv] step_left_over by blast
qed

text \<open>Two threads, one stopped before its second copy while the other waits at the mutex.\<close>

definition crossing :: locked_ring where
  "crossing = (lone (DequeueCall (Some [0, 0, 0]) 3) (AtWrap [40, 50, 0]) (wrapped_ring\<lparr>rb_lock := MutexLock True\<rparr>))
     \<lparr>lr_thread := (\<lambda>_. Outside)(0 := Inside (DequeueCall (Some [0, 0, 0]) 3) (AtWrap [40, 50, 0]),
       1 := Inside (EnqueueCall (Some [9]) 1) AtLock)\<rparr>"

lemma crossing_reachable: "ring_reachable wrapped_ring crossing"
proof -
  let ?c = "DequeueCall (Some [0, 0, 0]) 3" and ?held = "wrapped_ring\<lparr>rb_lock := MutexLock True\<rparr>"
  have "ring_reachable wrapped_ring (lone ?c AtLock wrapped_ring)" by (rule lone_call) simp
  then have "ring_reachable wrapped_ring (lone ?c AtCheck ?held)"
    by (rule lone_step) (simp_all add: enter_def lock_rb_def waits_def wrapped_ring_def)
  then have "ring_reachable wrapped_ring (lone ?c AtCopy ?held)"
    by (rule lone_step) (simp_all add: waits_def wrapped_ring_def GetDataSize_Internal_def)
  then have wrap: "ring_reachable wrapped_ring (lone ?c (AtWrap [40, 50, 0]) ?held)"
    by (rule lone_step) (simp_all add: waits_def wrapped_ring_def memcpy_def)
  show ?thesis
    using ring_reachable.step [OF wrap ring_step.call [of _ 1 "EnqueueCall (Some [9]) 1"]]
    by (simp add: crossing_def lone_def)
qed

theorem locked_calls_atomic_witness:
  "\<exists>u s'. lr_thread crossing u \<noteq> Outside \<and> ring_step u crossing s'"
proof -
  have "lr_thread crossing 1 \<noteq> Outside" by (simp add: crossing_def)
  then show ?thesis
    using locked_calls_atomic [OF wrapped_ring_ok(1) _ crossing_reachable] by (simp add: wrapped_ring_def) blast
qed

text \<open>
  Separate getters do not belong together: between \<open>GetDataSize\<close> and \<open>GetDirectReadSize\<close> of one
  thread another one can enqueue, so that the direct part is larger than the whole.  The members
  of \<open>SendInfo\<close> are read under one lock.
\<close>

lemma getters_race:
  fixes ring
  defines "ring \<equiv> \<lparr>rb_buffer = Some [0, 0, 0], rb_capacity = 3, rb_readPos = 0, rb_writePos = 0, rb_lock = MutexLock False\<rparr>"
  shows "\<exists>s. ring_reachable ring s \<and> lr_history s =
    [(0, GetDataSizeCall, Count 0), (1, EnqueueCall (Some [7]) 1, Count 1), (0, GetDirectReadSizeCall, Count 1)]"
proof -
  let ?h = "[(0, GetDataSizeCall, Count 0), (1, EnqueueCall (Some [7]) 1, Count 1), (0, GetDirectReadSizeCall, Count 1)]"
  let ?full = "ring\<lparr>rb_buffer := Some [7, 0, 0], rb_writePos := 1\<rparr>"
  have ok: "rb_ok ring" "rb_ok ?full" by (simp_all add: ring_def rb_ok_def unlocked_def)
  have "Enqueue ring (Some [7]) 1 = Inr (1, ?full)"
    using Enqueue_ok [OF ok(1), of 1 "[7]"]
    by (simp add: ring_def room_def contents_def ring_list_def write_bytes_def ring_write_def wrap_add_def)
  moreover have "GetDataSize ring = Inr (0, ring)"
    using GetDataSize_unlocked [OF unlocked_ok [OF ok(1)]] by (simp add: ring_def GetDataSize_Internal_def)
  moreover have "GetDirectReadSize ?full = Inr (1, ?full)"
    using with_lock_unlocked [OF unlocked_ok [OF ok(2)], of direct_read_size]
    by (simp add: GetDirectReadSize_def ring_def direct_read_size_def)
  ultimately have "sequential_run ?h ring = Some ?full" by simp
  then show ?thesis
    using sequential_possible [of ring ?h ?full] ok by (force simp: free_mutex_def ring_def)
qed

section \<open>Direct access by the kernel\<close>

text \<open>
  C28: Receiving without a copy is the same as Enqueue.  Into the buffers that PostRecv computes
  from the ring (direct part, then the wrapped part) the kernel can store any data up to the
  free size, in bounds, and MoveWritePtr then leaves exactly the ring that Enqueue of the
  data leaves.
\<close>

theorem zero_copy_receive:
  assumes "rb_ok q" "unat (rb_capacity q) < 2 ^ 32" "length xs \<le> room q" "xs \<noteq> []"
  shows "\<exists>mem. kernel_fill (ring_mem q)
        (recv_bufs (rb_writePos q) (direct_write_size q) (GetFreeSize_Internal q)) xs = Inr mem \<and>
      MoveWritePtr (q\<lparr>rb_buffer := Some mem\<rparr>) (of_nat (length xs)) = Enqueue q (Some xs) (of_nat (length xs))"
proof -
  have len: "unat (of_nat (length xs) :: size_t) = length xs"
    using room_less [OF assms(1)] assms(2,3) by (intro unat_of_nat_small) simp
  then have nz: "(of_nat (length xs) :: size_t) \<noteq> 0" using assms(4) by (auto simp: unat_eq_zero [symmetric])
  have sc: "q\<lparr>rb_buffer := Some (ring_mem (scatter q xs))\<rparr> = scatter q xs"
    by (simp add: scatter_def ring_mem_def)
  have "room (scatter q xs) = room q" using scatter_ok [OF assms(1,3)] by (simp add: room_def)
  then show ?thesis
    using kernel_fill_scatter [OF assms(1,2), of xs] assms(3,4) sc nz len
      MoveWritePtr_ok [OF scatter_ok(1) [OF assms(1,3)], of "of_nat (length xs)"]
      Enqueue_ok [OF assms(1), of "of_nat (length xs)" xs]
    by (auto simp: advance_scatter)
qed

theorem zero_copy_receive_witness:
  "\<exists>mem. kernel_fill (ring_mem wrapped_ring)
        (recv_bufs (rb_writePos wrapped_ring) (direct_write_size wrapped_ring) (GetFreeSize_Internal wrapped_ring)) [6] = Inr mem \<and>
      MoveWritePtr (wrapped_ring\<lparr>rb_buffer := Some mem\<rparr>) 1 = Enqueue wrapped_ring (Some [6]) 1"
  using zero_copy_receive [of wrapped_ring "[6]"] by (simp add: wrapped_ring_ok)

text \<open>
  C29: Sending without a copy sends the queue.  The one or two buffers that PostSend and
  ProcessSend build from GetSendInfo cover exactly the bytes queued at that moment, in order and
  in bounds, without changing the ring, and there is no buffer exactly when the queue is empty.
  While the send is outstanding the kernel reads these bytes in the memory of the queue: whatever
  other threads do with the queue meanwhile, down to half-finished calls of Enqueue, it finds the
  same bytes, as long as nothing is taken out before the completion.
\<close>

theorem zero_copy_send:
  assumes "rb_ok q" "rb_lock q = MutexLock False" "unat (rb_capacity q) < 2 ^ 32"
    and "ring_reachable q s" "only_keeps s"
  shows "\<exists>info. GetSendInfo q = Inr (info, q) \<and> gather (ring_mem (lr_ring s)) (send_bufs info) = Inr (contents q) \<and>
    (send_bufs info = [] \<longleftrightarrow> contents q = [])"
  using GetSendInfo_unlocked [OF unlocked_ok [OF assms(1)]] gather_contents(2) [OF assms(1,3)]
    gather_in_flight [OF assms(4) _ assms(5,3)] assms(1,2) by (auto simp: free_mutex_def)

text \<open>An \<open>Enqueue\<close> into the wrapped ring that has copied its byte but not moved the position.\<close>

definition enqueuing :: locked_ring where
  "enqueuing = lone (EnqueueCall (Some [9]) 1) (AtMove [9])
     (wrapped_ring\<lparr>rb_buffer := Some [10, 9, 30, 40, 50], rb_lock := MutexLock True\<rparr>)"

lemma enqueuing_reachable: "ring_reachable wrapped_ring enqueuing"
proof -
  let ?c = "EnqueueCall (Some [9]) 1" and ?held = "wrapped_ring\<lparr>rb_lock := MutexLock True\<rparr>"
  have "ring_reachable wrapped_ring (lone ?c AtLock wrapped_ring)" by (rule lone_call) simp
  then have "ring_reachable wrapped_ring (lone ?c AtCheck ?held)"
    by (rule lone_step) (simp_all add: enter_def lock_rb_def waits_def wrapped_ring_def)
  then have "ring_reachable wrapped_ring (lone ?c AtCopy ?held)"
    by (rule lone_step) (simp_all add: waits_def wrapped_ring_def GetDataSize_Internal_def GetFreeSize_Internal_def word_le_nat_alt)
  then show ?thesis
    unfolding enqueuing_def by (rule lone_step) (simp_all add: waits_def wrapped_ring_def memcpy_def)
qed

theorem zero_copy_send_witness:
  "\<exists>info. GetSendInfo wrapped_ring = Inr (info, wrapped_ring) \<and>
    gather [10, 9, 30, 40, 50] (send_bufs info) = Inr [40, 50, 10]"
proof -
  have "only_keeps enqueuing" "ring_mem (lr_ring enqueuing) = [10, 9, 30, 40, 50]"
    by (simp_all add: only_keeps_def enqueuing_def lone_def ring_mem_def)
  then show ?thesis
    using zero_copy_send [OF wrapped_ring_ok(1) _ _ enqueuing_reachable] wrapped_ring_ok
    by (simp add: wrapped_ring_def) blast
qed

section \<open>Locking and construction\<close>

text \<open>
  The mutex is balanced on every return path.  Started with the mutex free, on any state
  of the ring and for any arguments, no operation deadlocks or unlocks a free mutex, and one
  that returns has released it.
\<close>

theorem operations_balanced:
  assumes "unlocked rb"
  shows "balanced (rb_lock rb) snd (Enqueue rb d n) \<and> balanced (rb_lock rb) (snd \<circ> snd) (Dequeue rb d n) \<and>
    balanced (rb_lock rb) (snd \<circ> snd) (Peek rb d n) \<and> balanced (rb_lock rb) snd (Consume rb n) \<and>
    balanced (rb_lock rb) snd (MoveWritePtr rb n) \<and> balanced (rb_lock rb) id (Clear rb) \<and>
    balanced (rb_lock rb) snd (GetDataSize rb) \<and> balanced (rb_lock rb) snd (GetFreeSize rb) \<and>
    balanced (rb_lock rb) snd (GetSendInfo rb)"
proof (intro conjI)
  note l = lock_rb_unlocked [OF assms] unlock_rb_hold [OF _ assms]
  show "balanced (rb_lock rb) snd (Enqueue rb d n)"
    by (auto simp: Enqueue_def l Let_def intro!: balanced_memcpy balanced_mod_size)
  show "balanced (rb_lock rb) (snd \<circ> snd) (Dequeue rb d n)"
    by (auto simp: Dequeue_def l Let_def intro!: balanced_copy_out balanced_mod_size)
  show "balanced (rb_lock rb) (snd \<circ> snd) (Peek rb d n)"
    by (auto simp: Peek_def l Let_def intro!: balanced_copy_out)
  show "balanced (rb_lock rb) snd (Consume rb n)" "balanced (rb_lock rb) snd (MoveWritePtr rb n)"
    by (auto simp: Consume_def MoveWritePtr_def l Let_def intro!: balanced_mod_size)
  show "balanced (rb_lock rb) id (Clear rb)" "balanced (rb_lock rb) snd (GetDataSize rb)"
    "balanced (rb_lock rb) snd (GetFreeSize rb)" "balanced (rb_lock rb) snd (GetSendInfo rb)"
    by (auto simp: Clear_def GetDataSize_def GetFreeSize_def GetSendInfo_def with_lock_def l Let_def)
qed

theorem operations_balanced_witness:
  "balanced (MutexLock False) snd (Enqueue wrapped_ring (Some [1, 2, 3]) 3) \<and>
   balanced (MutexLock False) (snd \<circ> snd) (Dequeue wrapped_ring None 1)"
  using operations_balanced [of wrapped_ring "Some [1, 2, 3]" 3] operations_balanced [of wrapped_ring None 1]
  by (simp add: wrapped_ring_def unlocked_def)

text \<open>
  A ring whose allocation failed refuses all data but misreports its space.  Enqueue,
  Dequeue, Peek, Consume and MoveWritePtr return 0 without a fault, whereas
  GetFreeSize still answers capacity - 1; with capacity 0 that is 2^64 - 1.
\<close>

theorem failed_allocation:
  assumes "capacity = 0 \<or> alloc capacity = None" "policy \<noteq> MutexLock True"
  defines "rb \<equiv> CRingBufferT alloc policy capacity"
  shows "\<not> IsValid rb \<and> Enqueue rb d n = Inr (0, rb) \<and> Dequeue rb d n = Inr (0, d, rb) \<and>
    Peek rb d n = Inr (0, d, rb) \<and> Consume rb n = Inr (0, rb) \<and> MoveWritePtr rb n = Inr (0, rb) \<and>
    GetDataSize rb = Inr (0, rb) \<and>
    GetFreeSize rb = Inr (if capacity = 1 then 0 else capacity - 1, rb)"
proof -
  have u: "unlocked rb" and b: "rb_buffer rb = None"
    using assms(1,2) by (auto simp: rb_def CRingBufferT_def unlocked_def)
  have "GetDataSize_Internal rb = 0" by (simp add: rb_def CRingBufferT_def GetDataSize_Internal_def)
  moreover have "GetFreeSize_Internal rb = (if capacity = 1 then 0 else capacity - 1)"
    by (simp add: rb_def CRingBufferT_def GetDataSize_Internal_def GetFreeSize_Internal_def Let_def)
  ultimately show ?thesis
    using u b by (simp add: IsValid_def Enqueue_def Dequeue_def Peek_def Consume_def MoveWritePtr_def
        GetDataSize_unlocked GetFreeSize_unlocked lock_steps)
qed

theorem failed_allocation_witness:
  "GetFreeSize (CRingBufferT zero_alloc NoLock 0) = Inr (- 1, CRingBufferT zero_alloc NoLock 0)"
  using failed_allocation [of 0 zero_alloc NoLock None 0] by simp

end
