(* ===== verification/Demo.thy ===== *)
theory Demo
  imports ServerStart RingProperties
begin

text \<open>
  A concrete operating system and a concrete server, on which the witnesses instantiate the
  properties of the network layer.
\<close>

text \<open>Every call succeeds; handles and sockets are not zero.\<close>

fun happy_call :: "os_call \<Rightarrow> 64 word" where
  "happy_call (OsBindIOCP k i) = 1"
| "happy_call OsCreateIOCP = 1"
| "happy_call OsWSASocket = 5"
| "happy_call _ = 0"

definition happy_os :: os where
  "happy_os log = (case log of [] \<Rightarrow> 0 | c # _ \<Rightarrow> happy_call c)"

lemma happy_os_ok: "binds_succeed happy_os" "transfers_succeed happy_os"
  by (simp_all add: binds_succeed_def transfers_succeed_def happy_os_def)

definition demo_session :: "SOCKET \<Rightarrow> int64_t \<Rightarrow> CSession" where
  "demo_session k sid =
     \<lparr>cs_socket = k, cs_sessionId = sid, cs_valid = True, cs_sending = False,
      cs_recvQ = CRingBufferT zero_alloc NoLock 65536,
      cs_sendQ = CRingBufferT zero_alloc (MutexLock False) 65536,
      cs_recvOverlapped = \<lparr>ov_sessionId = sid, ov_operation = RECV\<rparr>,
      cs_sendOverlapped = \<lparr>ov_sessionId = sid, ov_operation = SEND\<rparr>\<rparr>"

lemma demo_ring:
  assumes "p \<noteq> MutexLock True"
  shows "rb_ok (CRingBufferT zero_alloc p 65536)" "contents (CRingBufferT zero_alloc p 65536) = []"
    "room (CRingBufferT zero_alloc p 65536) = 65535" "rb_capacity (CRingBufferT zero_alloc p 65536) = 65536"
  using CRingBufferT_ok [of zero_alloc 65536 "replicate 65536 0" p] assms
  by (simp_all add: zero_alloc_def CRingBufferT_def)

lemma demo_session_simps [simp]:
  "cs_socket (demo_session k sid) = k" "cs_sessionId (demo_session k sid) = sid" "cs_valid (demo_session k sid)"
  "\<not> cs_sending (demo_session k sid)"
  "session_ok (demo_session k sid)" "contents (cs_recvQ (demo_session k sid)) = []"
  "contents (cs_sendQ (demo_session k sid)) = []"
  "room (cs_recvQ (demo_session k sid)) = 65535" "room (cs_sendQ (demo_session k sid)) = 65535"
  by (simp_all add: demo_session_def session_ok_def demo_ring)

text \<open>
  Two slots: slot 0 serves its second session, with id 2 on socket 9; slot 1 is still free.
\<close>

definition demo_server :: "ServerArchitectureType \<Rightarrow> CIOCPServer" where
  "demo_server type =
     \<lparr>srv_maxClients = 2, srv_architectureType = type, srv_running = True, srv_sessionIdCounter = 3,
      srv_listenSocket = 5, srv_iocpHandle = 1,
      srv_sessions = [Some (demo_session 9 2), Some (demo_session INVALID_SOCKET 0)],
      srv_availableIndices = [1], srv_pendingDisconStack = [], srv_eventQueue = [], srv_log = []\<rparr>"

lemma demo_ids [simp]: "ExtractIndex 2 = 0" "ExtractUniqueId 2 = 2" "ExtractIndex 1 = 0" "ExtractUniqueId 1 = 1"
  by (simp_all add: ExtractIndex_def ExtractUniqueId_def SESSION_UNIQUE_MASK_def)

lemma demo_server_simps [simp]:
  "srv_architectureType (demo_server type) = type" "srv_running (demo_server type)"
  "srv_eventQueue (demo_server type) = []" "srv_sessionIdCounter (demo_server type) = 3"
  "session_at (demo_server type) 0 = Some (demo_session 9 2)"
  "session_at (demo_server type) (Suc 0) = Some (demo_session INVALID_SOCKET 0)"
  "length (srv_sessions (demo_server type)) = 2"
  "srv_log (demo_server type) = []" "srv_availableIndices (demo_server type) = [1]"
  "srv_pendingDisconStack (demo_server type) = []"
  by (simp_all add: demo_server_def session_at_def)

lemma demo_find [simp]: "FindSession (demo_server type) 2 = Some 0"
  by (simp add: FindSession_Some)

lemma demo_server_ok: "server_ok (demo_server type)" "srv_ok (demo_server type)" "pool_ok (demo_server type)"
proof -
  have two: "[0..<2] = [0, Suc 0]" by (simp add: numeral_2_eq_2)
  show ok: "srv_ok (demo_server type)" by (simp add: demo_server_def srv_ok_def)
  show "pool_ok (demo_server type)"
    by (simp add: pool_ok_def slot_ok_def two)
  with ok show "server_ok (demo_server type)" by (simp add: server_ok_def)
qed

lemma happy_start:
  "\<exists>srv. Start zero_alloc happy_os (CIOCPServer_new 2 type) = Inr (True, srv) \<and> reachable zero_alloc happy_os 2 type srv"
proof -
  obtain s0 where "CSession_new zero_alloc = Inr s0" using CSession_new_total by blast
  then obtain srv where "Start zero_alloc happy_os (CIOCPServer_new 2 type) = Inr (True, srv)"
    using Start_new [of 2 2 zero_alloc s0 happy_os type]
    by (auto simp: start_outcome_def happy_os_def Let_def INVALID_SOCKET_def)
  then show ?thesis by (auto intro: reach_start)
qed

lemma zero_allocates: "allocates zero_alloc"
  by (simp add: allocates_def zero_alloc_def)

end
