(* ===== verification/Reports.thy ===== *)
theory Reports
  imports ServerStart
begin

text \<open>
  What the network layer reports to the game logic: the ids of the open sessions change only
  together with the events that announce the change.
\<close>

section \<open>Open sessions\<close>

definition open_id :: "CIOCPServer \<Rightarrow> nat \<Rightarrow> int64_t option" where
  "open_id srv i = (case session_at srv i of None \<Rightarrow> None
     | Some s \<Rightarrow> if cs_valid s then Some (cs_sessionId s) else None)"

text \<open>A session that was never used is valid with the id \<open>0\<close>, and not open.\<close>

definition open_ids :: "CIOCPServer \<Rightarrow> int64_t set" where
  "open_ids srv = {sid. sid \<noteq> 0 \<and> (\<exists>i. open_id srv i = Some sid)}"

lemma open_id_frame [simp]:
  "open_id (syscall call srv) = open_id srv"
  "open_id (PushNetworkEvent srv e) = open_id srv"
  "open_id (srv\<lparr>srv_pendingDisconStack := p\<rparr>) = open_id srv"
  "open_id (srv\<lparr>srv_availableIndices := a\<rparr>) = open_id srv"
  by (simp_all add: open_id_def fun_eq_iff)

lemma open_id_set:
  "session_at srv i = Some s \<Longrightarrow> cs_sessionId t = cs_sessionId s \<Longrightarrow> cs_valid t = cs_valid s \<Longrightarrow>
   open_id (set_session srv i t) = open_id srv"
  by (auto simp: open_id_def fun_eq_iff)

lemma open_id_disconnected:
  "session_at srv i = Some s \<Longrightarrow> open_id (disconnected srv i s) = (open_id srv)(i := None)"
  using session_at_Some_less [of srv i s] by (auto simp: open_id_def fun_eq_iff)

section \<open>Events and open sessions\<close>

abbreviation is_gone :: "NetworkEvent \<Rightarrow> bool" where
  "is_gone e \<equiv> ev_type e = DISCONNECTED"

definition connected :: "int64_t \<Rightarrow> NetworkEvent" where
  "connected sid = \<lparr>ev_type = CONNECTED, ev_sessionId = sid, ev_data = []\<rparr>"

text \<open>The slots that are closed are those whose disconnection is reported, once each.\<close>

definition closes :: "CIOCPServer \<Rightarrow> NetworkEvent list \<Rightarrow> nat list \<Rightarrow> CIOCPServer \<Rightarrow> bool" where
  "closes srv es sl srv' \<longleftrightarrow> srv_eventQueue srv' = srv_eventQueue srv @ es \<and>
     list_all (\<lambda>e. ev_type e \<noteq> CONNECTED) es \<and>
     filter is_gone es = map (\<lambda>i. gone (the (open_id srv i))) sl \<and> distinct sl \<and>
     (\<forall>i\<in>set sl. open_id srv i \<noteq> None) \<and>
     (\<forall>j. open_id srv' j = (if j \<in> set sl then None else open_id srv j))"

definition reports :: "CIOCPServer \<Rightarrow> CIOCPServer \<Rightarrow> bool" where
  "reports srv srv' \<longleftrightarrow> srv_architectureType srv' = srv_architectureType srv \<and>
     srv_sessionIdCounter srv' = srv_sessionIdCounter srv \<and>
     (srv_architectureType srv = Centralized \<longrightarrow> (\<exists>es sl. closes srv es sl srv'))"

lemma closes_none:
  "srv_eventQueue srv' = srv_eventQueue srv \<Longrightarrow> open_id srv' = open_id srv \<Longrightarrow> closes srv [] [] srv'"
  by (simp add: closes_def)

lemma closes_trans:
  assumes "closes a es sl b" "closes b fs js c" shows "closes a (es @ fs) (sl @ js) c"
proof -
  have "j \<notin> set sl" "open_id b j = open_id a j" if "j \<in> set js" for j
    using assms that by (auto simp: closes_def split: if_splits)
  then show ?thesis using assms by (auto simp: closes_def)
qed

lemma reports_same:
  "srv_architectureType srv' = srv_architectureType srv \<Longrightarrow> srv_sessionIdCounter srv' = srv_sessionIdCounter srv \<Longrightarrow>
   srv_eventQueue srv' = srv_eventQueue srv \<Longrightarrow> open_id srv' = open_id srv \<Longrightarrow> reports srv srv'"
  by (auto simp: reports_def intro: closes_none)

lemma reports_refl [simp]: "reports srv srv"
  by (simp add: reports_same)

lemma reports_trans: "reports a b \<Longrightarrow> reports b c \<Longrightarrow> reports a c"
  by (auto simp: reports_def intro: closes_trans)

lemma reports_received: "reports srv (PushNetworkEvent srv (received sid packet))"
proof -
  have "closes srv [received sid packet] [] (PushNetworkEvent srv (received sid packet))"
    by (simp add: closes_def received_def)
  then show ?thesis by (auto simp: reports_def)
qed

lemma reports_Disconnect: "reports srv (snd (DisconnectSessionInternal srv i))"
proof (cases "\<exists>s. session_at srv i = Some s \<and> cs_valid s")
  case True
  then obtain s where s: "session_at srv i = Some s" "cs_valid s" by blast
  then have "open_id srv i = Some (cs_sessionId s)" by (simp add: open_id_def)
  then have "closes srv [gone (cs_sessionId s)] [i] (disconnected srv i s)"
    if "srv_architectureType srv = Centralized"
    using that by (simp add: closes_def gone_def open_id_disconnected [OF s(1)])
  then show ?thesis using s by (auto simp: Disconnect_valid reports_def)
next
  case False
  then show ?thesis by (simp add: Disconnect_invalid)
qed

interpretation report: session_effect "\<lambda>_. reports"
proof
  show "reports a b \<Longrightarrow> reports b c \<Longrightarrow> reports a c" for a b c by (rule reports_trans)
  show "session_at a i = Some s \<Longrightarrow> cs_sessionId t = cs_sessionId s \<Longrightarrow> cs_valid t = cs_valid s \<Longrightarrow>
      reports a (set_session a i t)" for a i s t
    by (rule reports_same) (simp_all add: open_id_set)
qed (simp_all add: reports_same reports_received reports_Disconnect)

section \<open>Replaying the reports\<close>

text \<open>The set of ids that a reader of the events keeps, when it starts with \<open>ids\<close>.\<close>

fun replay :: "NetworkEvent list \<Rightarrow> int64_t set \<Rightarrow> int64_t set" where
  "replay [] ids = ids"
| "replay (e # es) ids = replay es (case ev_type e of
     CONNECTED \<Rightarrow> insert (ev_sessionId e) ids
   | DISCONNECTED \<Rightarrow> ids - {ev_sessionId e}
   | RECEIVED \<Rightarrow> ids)"

lemma replay_append: "replay (es @ fs) ids = replay fs (replay es ids)"
  by (induction es arbitrary: ids) simp_all

lemma replay_closing:
  "list_all (\<lambda>e. ev_type e \<noteq> CONNECTED) es \<Longrightarrow> replay es ids = ids - ev_sessionId ` set (filter is_gone es)"
  by (induction es arbitrary: ids) (auto split: NetworkEventType.splits)

lemma same_slot:
  assumes "pool_ok srv" "open_id srv i = Some sid" "open_id srv j = Some sid" "sid \<noteq> 0"
  shows "i = j"
proof -
  have "unat (ExtractIndex sid) = n" if "open_id srv n = Some sid" for n
    using that assms(4) pool_slot [OF assms(1), of n]
    by (auto simp: open_id_def slot_ok_def split: option.splits if_splits)
  then show ?thesis using assms(2,3) by blast
qed

lemma closes_replay:
  assumes "pool_ok srv" "closes srv es sl srv'"
  shows "open_ids srv' = replay es (open_ids srv)"
proof -
  let ?closed = "(\<lambda>i. the (open_id srv i)) ` set sl"
  have gone: "filter is_gone es = map (\<lambda>i. gone (the (open_id srv i))) sl"
    and quiet: "list_all (\<lambda>e. ev_type e \<noteq> CONNECTED) es"
    and some: "\<And>i. i \<in> set sl \<Longrightarrow> open_id srv i \<noteq> None"
    and left: "\<And>j. open_id srv' j = (if j \<in> set sl then None else open_id srv j)"
    using assms(2) by (simp_all add: closes_def)
  have "sid \<in> open_ids srv' \<longleftrightarrow> sid \<in> open_ids srv - ?closed" for sid
  proof
    assume "sid \<in> open_ids srv'"
    then obtain j where j: "sid \<noteq> 0" "j \<notin> set sl" "open_id srv j = Some sid"
      by (auto simp: open_ids_def left split: if_splits)
    moreover have "the (open_id srv i) \<noteq> sid" if "i \<in> set sl" for i
      using some [OF that] same_slot [OF assms(1) _ j(3,1), of i] that j(2) by auto
    ultimately show "sid \<in> open_ids srv - ?closed" by (auto simp: open_ids_def)
  next
    assume sid: "sid \<in> open_ids srv - ?closed"
    then obtain j where j: "sid \<noteq> 0" "open_id srv j = Some sid" by (auto simp: open_ids_def)
    have "j \<notin> set sl" using sid j(2) by (auto simp: image_iff dest!: bspec [of _ _ j])
    then show "sid \<in> open_ids srv'" using j left [of j] unfolding open_ids_def by auto
  qed
  then have "open_ids srv' = open_ids srv - ?closed" by blast
  moreover have "ev_sessionId ` set (filter is_gone es) = ?closed"
    unfolding gone by (simp add: image_image gone_def)
  ultimately show ?thesis by (simp only: replay_closing [OF quiet])
qed

text \<open>A step of a worker or of the game thread announces no connection.\<close>

definition announces :: "CIOCPServer \<Rightarrow> NetworkEvent list \<Rightarrow> CIOCPServer \<Rightarrow> bool" where
  "announces srv es srv' \<longleftrightarrow> srv_architectureType srv' = Centralized \<and>
     srv_eventQueue srv' = srv_eventQueue srv @ es \<and> open_ids srv' = replay es (open_ids srv)"

lemma reports_announces:
  assumes "pool_ok srv" "srv_architectureType srv = Centralized" "reports srv srv'"
  obtains es where "announces srv es srv'" "list_all (\<lambda>e. ev_type e \<noteq> CONNECTED) es"
    "srv_sessionIdCounter srv' = srv_sessionIdCounter srv"
proof -
  obtain es sl where c: "closes srv es sl srv'" using assms(2,3) by (auto simp: reports_def)
  show ?thesis
    by (rule that [of es]) (use assms(2,3) c closes_replay [OF assms(1) c] in \<open>simp_all add: reports_def announces_def closes_def\<close>)
qed

section \<open>Accepting\<close>

lemma release_loop_frame:
  "open_id (release_loop stack srv) = open_id srv \<and> srv_eventQueue (release_loop stack srv) = srv_eventQueue srv \<and>
   srv_architectureType (release_loop stack srv) = srv_architectureType srv"
proof (induction stack arbitrary: srv)
  case (Cons sid rest)
  let ?p = "srv\<lparr>srv_pendingDisconStack := rest\<rparr>"
  have close: "open_id (Close a i s) = open_id a" "srv_eventQueue (Close a i s) = srv_eventQueue a"
    "srv_architectureType (Close a i s) = srv_architectureType a" if "session_at a i = Some s" for a i s
    using that by (simp_all add: Close_def set_session_syscall open_id_set)
  show ?case using Cons.IH close [of ?p] by (auto simp: Let_def FindSession_Some split: option.splits)
qed simp

text \<open>
  A turn of the accept thread reports nothing, or announces the new session, whose id has the
  next unique number, and perhaps its immediate end.
\<close>

lemma accept_announces:
  assumes inv: "server_ok srv" and small: "unat (srv_sessionIdCounter srv) < 2 ^ 48" and os: "binds_succeed os"
    and central: "srv_architectureType srv = Centralized" and acc: "accept_step os srv k = Inr srv'"
  shows "announces srv [] srv' \<and> srv_sessionIdCounter srv' = srv_sessionIdCounter srv \<or>
    (\<exists>sid es. announces srv (connected sid # es) srv' \<and> list_all (\<lambda>e. ev_type e \<noteq> CONNECTED) es \<and>
       ExtractUniqueId sid = srv_sessionIdCounter srv \<and> srv_sessionIdCounter srv' = srv_sessionIdCounter srv + 1)"
proof -
  let ?r = "ReleaseSession srv"
  have r: "open_id ?r = open_id srv" "srv_eventQueue ?r = srv_eventQueue srv" "srv_architectureType ?r = Centralized"
    using release_loop_frame [of "srv_pendingDisconStack srv" srv] central by (simp_all add: ReleaseSession_def)
  have rok: "pool_ok ?r" "srv_sessionIdCounter ?r = srv_sessionIdCounter srv"
    using ReleaseSession_ok [OF inv] by (simp_all add: server_ok_def)
  show ?thesis
  proof (cases rule: accept_step_cases [OF inv small os, of k, case_names none admit])
    case (none srv1)
    have open_eq: "open_id (syscall c (offered srv k)) = open_id srv" for c
      using r(1) by (simp add: open_id_def fun_eq_iff)
    have "srv' = ?r \<or> srv' = syscall (OsCloseSocket k) (offered srv k)" using none acc by simp
    then have "open_id srv' = open_id srv" "srv_eventQueue srv' = srv_eventQueue srv"
        "srv_sessionIdCounter srv' = srv_sessionIdCounter srv" "srv_architectureType srv' = Centralized"
      using r rok(2) open_eq by (elim disjE; simp)+
    then show ?thesis by (simp add: announces_def open_ids_def)
  next
    case (admit index rest s)
    let ?a = "admission (offered srv k) k index s" and ?sid = "cs_sessionId s"
    have "PostRecv os ?a (unat index) = Inr srv'" using admit(12) acc by simp
    then have "reports ?a srv'"
      using report.PostRecv_runs [of ?a "unat index" os] admit(13) by (simp add: server_ok_def)
    then obtain es where es: "announces ?a es srv'" "list_all (\<lambda>e. ev_type e \<noteq> CONNECTED) es"
        "srv_sessionIdCounter srv' = srv_sessionIdCounter ?a"
      by (rule reports_announces [rotated 2]) (use admit(13) r in \<open>simp_all add: server_ok_def\<close>)
    have at: "open_id ?a j = (if j = unat index then Some ?sid else open_id srv j)" for j
      unfolding r(1) [symmetric] using admit(3,5) by (simp add: open_id_def session_at_admission)
    have closed: "sid = 0" if opened: "open_id srv (unat index) = Some sid" for sid
    proof -
      obtain t where t: "session_at ?r (unat index) = Some t" "cs_valid t" "cs_sessionId t = sid"
        using opened [folded r(1)] by (auto simp: open_id_def split: option.splits if_splits)
      then show ?thesis using pool_slot [OF rok(1) t(1)] admit(2) by (simp add: slot_ok_def split: if_splits)
    qed
    have "open_ids ?a = insert ?sid (open_ids srv)"
      using closed admit(9) by (auto simp: open_ids_def at split: if_splits) metis
    then have "announces srv (connected ?sid # es) srv'"
      using es(1) r by (simp add: announces_def connected_def)
    then show ?thesis using es(2,3) admit(8) rok(2) by auto
  qed
qed

end
