(* ===== verification/Room.thy ===== *)
theory Room
  imports Prelude
begin

text \<open>
  Players and rooms of the game server: \<open>CPlayer\<close> (\<open>Player.h\<close>, \<open>Player.cpp\<close>) and \<open>CRoom\<close>
  (\<open>Room.h\<close>, \<open>Room.cpp\<close>), with the invariant of a room.  A \<open>shared_ptr<CPlayer>\<close> is the
  address of the player, \<open>None\<close> the null pointer.
\<close>

section \<open>CPlayer\<close>

record CPlayer =
  pl_sessionId :: int64_t
  pl_accountId :: int64_t
  pl_score :: int32_t

definition CPlayer_new :: "int64_t \<Rightarrow> CPlayer" where
  "CPlayer_new sessionId = \<lparr>pl_sessionId = sessionId, pl_accountId = 0, pl_score = 0\<rparr>"

definition GetSessionId :: "CPlayer \<Rightarrow> int64_t" where
  "GetSessionId p = pl_sessionId p"

definition GetAccountId :: "CPlayer \<Rightarrow> int64_t" where
  "GetAccountId p = pl_accountId p"

definition SetAccountId :: "CPlayer \<Rightarrow> int64_t \<Rightarrow> CPlayer" where
  "SetAccountId p accountId = p\<lparr>pl_accountId := accountId\<rparr>"

definition GetScore :: "CPlayer \<Rightarrow> int32_t" where
  "GetScore p = pl_score p"

definition SetScore :: "CPlayer \<Rightarrow> int32_t \<Rightarrow> CPlayer" where
  "SetScore p score = p\<lparr>pl_score := score\<rparr>"

definition AddScore :: "CPlayer \<Rightarrow> int32_t \<Rightarrow> CPlayer res" where
  "AddScore p delta =
     (if sint (pl_score p) + sint delta < - (2 ^ 31) \<or> 2 ^ 31 \<le> sint (pl_score p) + sint delta
      then Inl SignedOverflow
      else Inr (p\<lparr>pl_score := pl_score p + delta\<rparr>))"

section \<open>CRoom\<close>

type_synonym player_ptr = nat

datatype RoomStatus = WAITING | PLAYING

record CRoom =
  rm_roomId :: int32_t
  rm_title :: "byte list"
  rm_currentPlayers :: int32_t
  rm_maxPlayers :: int32_t
  rm_status :: RoomStatus
  rm_owner :: "player_ptr option"
  rm_players :: "player_ptr list"

text \<open>\<open>reserve\<close> of a negative count, converted to \<open>size_t\<close>, throws \<open>std::length_error\<close>.\<close>

definition CRoom_new :: "int32_t \<Rightarrow> byte list \<Rightarrow> int32_t \<Rightarrow> CRoom res" where
  "CRoom_new roomId title maxPlayers =
     (if sint maxPlayers < 0 then Inl LengthError
      else Inr \<lparr>rm_roomId = roomId, rm_title = title, rm_currentPlayers = 0, rm_maxPlayers = maxPlayers,
                rm_status = WAITING, rm_owner = None, rm_players = []\<rparr>)"

definition SetStatus :: "CRoom \<Rightarrow> RoomStatus \<Rightarrow> CRoom" where
  "SetStatus room status = room\<lparr>rm_status := status\<rparr>"

definition IsFull :: "CRoom \<Rightarrow> bool" where
  "IsFull room \<longleftrightarrow> sint (rm_maxPlayers room) \<le> sint (rm_currentPlayers room)"

definition IsEmptyRoom :: "CRoom \<Rightarrow> bool" where
  "IsEmptyRoom room \<longleftrightarrow> rm_currentPlayers room = 0"

definition IsPlayerInRoom :: "CRoom \<Rightarrow> player_ptr option \<Rightarrow> bool" where
  "IsPlayerInRoom room player =
     (case player of None \<Rightarrow> False | Some p \<Rightarrow> p \<in> set (rm_players room))"

definition AddPlayer :: "CRoom \<Rightarrow> player_ptr option \<Rightarrow> bool \<times> CRoom" where
  "AddPlayer room player =
     (case player of None \<Rightarrow> (False, room)
      | Some p \<Rightarrow>
          if IsFull room then (False, room)
          else if IsPlayerInRoom room player then (False, room)
          else
            let room = room\<lparr>rm_players := rm_players room @ [p]\<rparr>;
                room = room\<lparr>rm_currentPlayers := of_nat (length (rm_players room))\<rparr>
            in (True, if rm_owner room = None then room\<lparr>rm_owner := Some p\<rparr> else room))"

text \<open>The range-based loop over \<open>_players\<close> and the assignment of the new owner.\<close>

fun next_owner :: "player_ptr list \<Rightarrow> player_ptr \<Rightarrow> player_ptr option" where
  "next_owner [] leaving = None"
| "next_owner (p # ps) leaving = (if p \<noteq> leaving then Some p else next_owner ps leaving)"

definition UpdateOwnerOnLeave :: "CRoom \<Rightarrow> player_ptr \<Rightarrow> CRoom" where
  "UpdateOwnerOnLeave room leaving =
     (if rm_owner room = Some leaving then room\<lparr>rm_owner := next_owner (rm_players room) leaving\<rparr> else room)"

definition RemovePlayer :: "CRoom \<Rightarrow> player_ptr option \<Rightarrow> bool \<times> CRoom" where
  "RemovePlayer room player =
     (case player of None \<Rightarrow> (False, room)
      | Some p \<Rightarrow>
          if p \<notin> set (rm_players room) then (False, room)
          else
            let room = UpdateOwnerOnLeave room p;
                room = room\<lparr>rm_players := remove1 p (rm_players room)\<rparr>
            in (True, room\<lparr>rm_currentPlayers := of_nat (length (rm_players room))\<rparr>))"

section \<open>The invariant of a room\<close>

definition first_of :: "'a list \<Rightarrow> 'a option" where
  "first_of xs = (case xs of [] \<Rightarrow> None | x # _ \<Rightarrow> Some x)"

text \<open>
  No player twice, the count is the number of players and at most the limit, and the owner is
  the player who has been in the room longest.
\<close>

definition room_ok :: "CRoom \<Rightarrow> bool" where
  "room_ok room \<longleftrightarrow> distinct (rm_players room) \<and>
     rm_currentPlayers room = of_nat (length (rm_players room)) \<and>
     int (length (rm_players room)) \<le> sint (rm_maxPlayers room) \<and>
     rm_owner room = first_of (rm_players room)"

lemma sint_less_32: "sint (w :: int32_t) < 2 ^ 31"
  using sint_less [of w] by simp

lemma sint_count:
  assumes "int n < 2 ^ 31" shows "sint (of_nat n :: int32_t) = int n"
  using assms by (simp add: signed_of_nat signed_take_bit_int_eq_self)

lemma room_count:
  assumes "room_ok room" shows "sint (rm_currentPlayers room) = int (length (rm_players room))"
proof -
  have "int (length (rm_players room)) < 2 ^ 31"
    using assms sint_less_32 [of "rm_maxPlayers room"] unfolding room_ok_def by linarith
  then show ?thesis using assms by (simp add: room_ok_def sint_count)
qed

lemma IsFull_iff:
  "room_ok room \<Longrightarrow> IsFull room \<longleftrightarrow> int (length (rm_players room)) = sint (rm_maxPlayers room)"
  using room_count [of room] by (auto simp: IsFull_def room_ok_def)

lemma IsEmptyRoom_iff: "room_ok room \<Longrightarrow> IsEmptyRoom room \<longleftrightarrow> rm_players room = []"
  using room_count [of room] by (auto simp: IsEmptyRoom_def room_ok_def)

lemma CRoom_new_ok:
  "0 \<le> sint maxPlayers \<Longrightarrow> \<exists>room. CRoom_new roomId title maxPlayers = Inr room \<and> room_ok room \<and>
     rm_roomId room = roomId \<and> rm_title room = title \<and> rm_maxPlayers room = maxPlayers \<and>
     rm_status room = WAITING \<and> rm_players room = []"
  by (simp add: CRoom_new_def room_ok_def first_of_def)

lemma AddPlayer_eq:
  assumes "room_ok room"
  shows "AddPlayer room (Some p) =
    (if p \<in> set (rm_players room) \<or> int (length (rm_players room)) = sint (rm_maxPlayers room) then (False, room)
     else (True, room\<lparr>rm_players := rm_players room @ [p],
             rm_currentPlayers := of_nat (Suc (length (rm_players room))),
             rm_owner := first_of (rm_players room @ [p])\<rparr>))"
  using assms IsFull_iff [OF assms]
  by (cases "rm_players room") (auto simp: AddPlayer_def IsPlayerInRoom_def Let_def room_ok_def first_of_def)

lemma AddPlayer_room_ok:
  assumes "room_ok room" shows "room_ok (snd (AddPlayer room (Some p)))"
  using assms by (auto simp: AddPlayer_eq room_ok_def)

lemma next_owner_first: "distinct ps \<Longrightarrow> next_owner ps p = first_of (remove1 p ps)"
  by (induction ps) (auto simp: first_of_def split: list.splits)

lemma RemovePlayer_eq:
  assumes "room_ok room" "p \<in> set (rm_players room)"
  shows "RemovePlayer room (Some p) =
    (True, room\<lparr>rm_players := remove1 p (rm_players room),
             rm_currentPlayers := of_nat (length (remove1 p (rm_players room))),
             rm_owner := first_of (remove1 p (rm_players room))\<rparr>)"
proof -
  have "rm_owner room = first_of (remove1 p (rm_players room))" if "rm_owner room \<noteq> Some p"
    using assms that by (cases "rm_players room") (auto simp: room_ok_def first_of_def)
  then show ?thesis
    using assms by (cases room) (auto simp: RemovePlayer_def UpdateOwnerOnLeave_def Let_def next_owner_first room_ok_def)
qed

lemma RemovePlayer_room_ok:
  assumes "room_ok room" "p \<in> set (rm_players room)"
  shows "room_ok (snd (RemovePlayer room (Some p)))"
proof -
  have "length (remove1 p (rm_players room)) \<le> length (rm_players room)" by (simp add: length_remove1)
  then show ?thesis using assms by (auto simp: RemovePlayer_eq room_ok_def)
qed

end
