(* ===== verification/RoomDirectory.thy ===== *)
theory RoomDirectory
  imports Room
begin

text \<open>
  What the game logic relies on when it uses the room manager: a directory of rooms as its
  users see them, and the operations on it.  The locale states that an implementation computes
  these operations and proves once, for any sequence of calls, what follows for the users.
\<close>

section \<open>The contract of a room directory\<close>

text \<open>
  The rooms as their users see them, most recent first: id, title, limit and the players in
  the order they came.  No pointers, no reverse map, no owner, no counter.
\<close>

record room_view =
  rv_id :: int32_t
  rv_title :: "byte list"
  rv_max :: int32_t
  rv_players :: "player_ptr list"

definition in_some_room :: "room_view list \<Rightarrow> player_ptr \<Rightarrow> bool" where
  "in_some_room rs p \<longleftrightarrow> list_ex (\<lambda>v. p \<in> set (rv_players v)) rs"

definition joinable :: "room_view \<Rightarrow> bool" where
  "joinable v \<longleftrightarrow> int (length (rv_players v)) < sint (rv_max v)"

definition spec_create :: "int32_t \<Rightarrow> byte list \<Rightarrow> int32_t \<Rightarrow> room_view list \<Rightarrow> room_view list" where
  "spec_create roomId title maxPlayers rs =
     \<lparr>rv_id = roomId, rv_title = title, rv_max = maxPlayers, rv_players = []\<rparr> # rs"

definition spec_join :: "int32_t \<Rightarrow> player_ptr \<Rightarrow> room_view list \<Rightarrow> bool \<times> room_view list" where
  "spec_join roomId p rs =
     (if \<not> in_some_room rs p \<and> list_ex (\<lambda>v. rv_id v = roomId \<and> joinable v) rs
      then (True, map (\<lambda>v. if rv_id v = roomId then v\<lparr>rv_players := rv_players v @ [p]\<rparr> else v) rs)
      else (False, rs))"

definition spec_leave :: "player_ptr \<Rightarrow> room_view list \<Rightarrow> bool \<times> room_view list" where
  "spec_leave p rs =
     (if in_some_room rs p
      then (True, map (\<lambda>v. v\<lparr>rv_players := remove1 p (rv_players v)\<rparr>)
                    (filter (\<lambda>v. rv_players v \<noteq> [p]) rs))
      else (False, rs))"

definition spec_delete :: "int32_t \<Rightarrow> room_view list \<Rightarrow> bool \<times> room_view list" where
  "spec_delete roomId rs =
     (if list_ex (\<lambda>v. rv_id v = roomId) rs then (True, filter (\<lambda>v. rv_id v \<noteq> roomId) rs) else (False, rs))"

section \<open>Sequences of calls\<close>

datatype room_call =
    CallCreate "byte list" int32_t
  | CallJoin int32_t player_ptr
  | CallLeave player_ptr
  | CallDelete int32_t

fun spec_call :: "room_call \<Rightarrow> int32_t \<times> room_view list \<Rightarrow> bool \<times> int32_t \<times> room_view list" where
  "spec_call (CallCreate title maxPlayers) (i, rs) = (True, i + 1, spec_create i title maxPlayers rs)"
| "spec_call (CallJoin roomId p) (i, rs) = (case spec_join roomId p rs of (b, rs) \<Rightarrow> (b, i, rs))"
| "spec_call (CallLeave p) (i, rs) = (case spec_leave p rs of (b, rs) \<Rightarrow> (b, i, rs))"
| "spec_call (CallDelete roomId) (i, rs) = (case spec_delete roomId rs of (b, rs) \<Rightarrow> (b, i, rs))"

fun spec_run :: "room_call list \<Rightarrow> int32_t \<times> room_view list \<Rightarrow> bool list \<times> int32_t \<times> room_view list" where
  "spec_run [] s = ([], s)"
| "spec_run (c # cs) s = (let (b, s) = spec_call c s; (bs, s) = spec_run cs s in (b # bs, s))"

fun room_call_run ::
  "('m \<Rightarrow> byte list \<Rightarrow> int32_t \<Rightarrow> ('r \<times> 'm) res) \<Rightarrow> ('m \<Rightarrow> int32_t \<Rightarrow> player_ptr \<Rightarrow> (bool \<times> 'm) res) \<Rightarrow>
   ('m \<Rightarrow> player_ptr \<Rightarrow> (bool \<times> 'm) res) \<Rightarrow> ('m \<Rightarrow> int32_t \<Rightarrow> (bool \<times> 'm) res) \<Rightarrow>
   room_call \<Rightarrow> 'm \<Rightarrow> (bool \<times> 'm) res" where
  "room_call_run create join leave delete (CallCreate title maxPlayers) m =
     andThen (create m title maxPlayers) (\<lambda>(_, m). Inr (True, m))"
| "room_call_run create join leave delete (CallJoin roomId p) m = join m roomId p"
| "room_call_run create join leave delete (CallLeave p) m = leave m p"
| "room_call_run create join leave delete (CallDelete roomId) m = delete m roomId"

fun room_run ::
  "('m \<Rightarrow> byte list \<Rightarrow> int32_t \<Rightarrow> ('r \<times> 'm) res) \<Rightarrow> ('m \<Rightarrow> int32_t \<Rightarrow> player_ptr \<Rightarrow> (bool \<times> 'm) res) \<Rightarrow>
   ('m \<Rightarrow> player_ptr \<Rightarrow> (bool \<times> 'm) res) \<Rightarrow> ('m \<Rightarrow> int32_t \<Rightarrow> (bool \<times> 'm) res) \<Rightarrow>
   room_call list \<Rightarrow> 'm \<Rightarrow> (bool list \<times> 'm) res" where
  "room_run create join leave delete [] m = Inr ([], m)"
| "room_run create join leave delete (c # cs) m =
     andThen (room_call_run create join leave delete c m) (\<lambda>(b, m).
     andThen (room_run create join leave delete cs m) (\<lambda>(bs, m). Inr (b # bs, m)))"

text \<open>Limits are not negative.\<close>

fun call_ok :: "room_call \<Rightarrow> bool" where
  "call_ok (CallCreate title maxPlayers) \<longleftrightarrow> 0 \<le> sint maxPlayers"
| "call_ok _ \<longleftrightarrow> True"

section \<open>What users may rely on\<close>

text \<open>Ids are unique, nobody is in two rooms or twice in one, and no room is over its limit.\<close>

definition directory_ok :: "room_view list \<Rightarrow> bool" where
  "directory_ok rs \<longleftrightarrow> distinct (map rv_id rs) \<and> distinct (concat (map rv_players rs)) \<and>
     list_all (\<lambda>v. int (length (rv_players v)) \<le> sint (rv_max v)) rs"

text \<open>Every id is below the next one.\<close>

definition ids_below :: "int32_t \<Rightarrow> room_view list \<Rightarrow> bool" where
  "ids_below i rs \<longleftrightarrow> list_all (\<lambda>v. sint (rv_id v) < sint i) rs"

lemma sint_next: "sint (i :: int32_t) < 2 ^ 31 - 1 \<Longrightarrow> sint (i + 1) = sint i + 1"
proof -
  assume "sint i < 2 ^ 31 - 1"
  moreover have "- (2 ^ 31) \<le> sint i" using sint_greater_eq [of i] by simp
  ultimately show ?thesis by (simp add: sint_word_ariths signed_take_bit_int_eq_self)
qed

text \<open>One room gets a player that is in no room.\<close>

lemma concat_join:
  assumes "distinct (map rv_id rs)" "distinct (concat (map rv_players rs))" "\<not> in_some_room rs p"
  shows "distinct (concat (map rv_players
    (map (\<lambda>v. if rv_id v = i then v\<lparr>rv_players := rv_players v @ [p]\<rparr> else v) rs)))"
  using assms
proof (induction rs)
  case (Cons v rs)
  have other: "map (\<lambda>v. if rv_id v = i then v\<lparr>rv_players := rv_players v @ [p]\<rparr> else v) rs = rs" if "rv_id v = i"
  proof -
    have "rv_id x \<noteq> i" if "x \<in> set rs" for x
      using that \<open>rv_id v = i\<close> Cons.prems(1) by (metis distinct.simps(2) imageI list.set_map list.simps(9))
    then show ?thesis by (intro map_idI) simp
  qed
  have "set (concat (map rv_players (map (\<lambda>v. if rv_id v = i then v\<lparr>rv_players := rv_players v @ [p]\<rparr> else v) rs)))
      \<subseteq> insert p (set (concat (map rv_players rs)))"
    by (induction rs) auto
  moreover have "p \<notin> set (rv_players v)" using Cons.prems(3) by (simp add: in_some_room_def)
  ultimately have sep: "set (rv_players v) \<inter>
      set (concat (map rv_players (map (\<lambda>v. if rv_id v = i then v\<lparr>rv_players := rv_players v @ [p]\<rparr> else v) rs))) = {}"
    using Cons.prems(2) by auto
  show ?case
  proof (cases "rv_id v = i")
    case True
    then show ?thesis using other [OF True] Cons.prems by (auto simp: in_some_room_def list_ex_iff)
  next
    case False
    then show ?thesis using sep Cons by (simp add: in_some_room_def del: map_map set_concat set_map)
  qed
qed simp

lemma concat_leave:
  assumes "distinct (concat (map rv_players rs))"
  shows "distinct (concat (map rv_players (map (\<lambda>v. v\<lparr>rv_players := remove1 p (rv_players v)\<rparr>) (filter P rs))))"
  using assms
proof (induction rs)
  case (Cons v rs)
  have "set (concat (map rv_players (map (\<lambda>v. v\<lparr>rv_players := remove1 p (rv_players v)\<rparr>) (filter P rs))))
      \<subseteq> set (concat (map rv_players rs))"
    by (induction rs) (auto dest: notin_set_remove1)
  then show ?case using Cons by (auto dest: notin_set_remove1)
qed simp

lemma concat_filter: "distinct (concat (map f rs)) \<Longrightarrow> distinct (concat (map f (filter P rs)))"
  by (induction rs) auto

lemma spec_call_ok:
  assumes "directory_ok rs" "ids_below i rs" "call_ok c" "sint i < 2 ^ 31 - 1" "spec_call c (i, rs) = (b, i', rs')"
  shows "directory_ok rs' \<and> ids_below i' rs' \<and> sint i \<le> sint i' \<and> sint i' \<le> sint i + 1"
proof (cases c)
  case (CallCreate title maxPlayers)
  then have "i' = i + 1" "rs' = spec_create i title maxPlayers rs" using assms(5) by simp_all
  moreover have "i \<notin> set (map rv_id rs)" using assms(2) by (auto simp: ids_below_def list_all_iff)
  ultimately show ?thesis
    using assms CallCreate sint_next [OF assms(4)]
    by (auto simp: directory_ok_def ids_below_def spec_create_def list_all_iff)
next
  case (CallJoin roomId p)
  let ?f = "\<lambda>v. if rv_id v = roomId then v\<lparr>rv_players := rv_players v @ [p]\<rparr> else v"
  show ?thesis
  proof (cases "\<not> in_some_room rs p \<and> list_ex (\<lambda>v. rv_id v = roomId \<and> joinable v) rs")
    case True
    then have rs': "rs' = map ?f rs" "i' = i" using assms(5) CallJoin by (simp_all add: spec_join_def)
    obtain w where w: "w \<in> set rs" "rv_id w = roomId" "joinable w" using True by (auto simp: list_ex_iff)
    have "v = w" if "v \<in> set rs" "rv_id v = roomId" for v
      using assms(1) that w(1,2) by (auto simp: directory_ok_def distinct_map dest: inj_onD)
    then have "list_all (\<lambda>v. int (length (rv_players v)) \<le> sint (rv_max v)) (map ?f rs)"
      using assms(1) w(3) by (auto simp: list_all_iff directory_ok_def joinable_def)
    moreover have "map rv_id (map ?f rs) = map rv_id rs" by simp
    moreover have "distinct (concat (map rv_players (map ?f rs)))"
      using assms(1) True by (intro concat_join) (simp_all add: directory_ok_def)
    ultimately show ?thesis
      using assms(1,2) by (auto simp: directory_ok_def ids_below_def list_all_iff rs' simp del: map_map)
  next
    case False
    then have "rs' = rs" "i' = i" using assms(5) CallJoin by (auto simp: spec_join_def)
    then show ?thesis using assms(1,2) by simp
  qed
next
  case (CallLeave p)
  show ?thesis
  proof (cases "in_some_room rs p")
    case True
    let ?r = "map (\<lambda>v. v\<lparr>rv_players := remove1 p (rv_players v)\<rparr>) (filter (\<lambda>v. rv_players v \<noteq> [p]) rs)"
    have rs': "rs' = ?r" "i' = i" using True assms(5) CallLeave by (simp_all add: spec_leave_def)
    have "distinct (map rv_id ?r)" using assms(1) by (simp add: directory_ok_def comp_def distinct_map_filter)
    moreover have "distinct (concat (map rv_players ?r))"
      using assms(1) by (intro concat_leave) (simp add: directory_ok_def)
    moreover have "length (remove1 p xs) \<le> length xs" for xs by (simp add: length_remove1)
    then have "list_all (\<lambda>v. int (length (rv_players v)) \<le> sint (rv_max v)) ?r"
      using assms(1) unfolding directory_ok_def list_all_iff
      by (auto intro: order_trans [OF zle_int [THEN iffD2]])
    moreover have "ids_below i ?r" using assms(2) by (auto simp: ids_below_def list_all_iff)
    ultimately show ?thesis unfolding rs' directory_ok_def by simp
  next
    case False
    then have "rs' = rs" "i' = i" using assms(5) CallLeave by (simp_all add: spec_leave_def)
    then show ?thesis using assms(1,2) by simp
  qed
next
  case (CallDelete roomId)
  then show ?thesis
    using assms by (auto simp: spec_delete_def directory_ok_def ids_below_def list_all_iff concat_filter distinct_map_filter
        split: if_splits)
qed

lemma spec_run_ok:
  "directory_ok rs \<Longrightarrow> ids_below i rs \<Longrightarrow> list_all call_ok cs \<Longrightarrow> sint i + int (length cs) < 2 ^ 31 \<Longrightarrow>
   spec_run cs (i, rs) = (bs, i', rs') \<Longrightarrow> directory_ok rs' \<and> ids_below i' rs'"
proof (induction cs arbitrary: i rs bs)
  case (Cons c cs)
  obtain b i1 rs1 where c: "spec_call c (i, rs) = (b, i1, rs1)" by (cases "spec_call c (i, rs)")
  have 1: "directory_ok rs1 \<and> ids_below i1 rs1 \<and> sint i \<le> sint i1 \<and> sint i1 \<le> sint i + 1"
    using Cons.prems by (intro spec_call_ok [OF _ _ _ _ c]) auto
  obtain bs1 where "spec_run cs (i1, rs1) = (bs1, i', rs')"
    using Cons.prems(5) c by (auto simp: Let_def split: prod.splits)
  then show ?case using Cons.IH [of rs1 i1 bs1] 1 Cons.prems by simp
qed simp

section \<open>Implementations\<close>

locale room_directory =
  fixes ok :: "'m \<Rightarrow> bool"
    and view :: "'m \<Rightarrow> room_view list"
    and next_id :: "'m \<Rightarrow> int32_t"
    and create :: "'m \<Rightarrow> byte list \<Rightarrow> int32_t \<Rightarrow> ('r \<times> 'm) res"
    and join :: "'m \<Rightarrow> int32_t \<Rightarrow> player_ptr \<Rightarrow> (bool \<times> 'm) res"
    and leave :: "'m \<Rightarrow> player_ptr \<Rightarrow> (bool \<times> 'm) res"
    and delete :: "'m \<Rightarrow> int32_t \<Rightarrow> (bool \<times> 'm) res"
  assumes create_law:
    "ok m \<Longrightarrow> 0 \<le> sint maxPlayers \<Longrightarrow> sint (next_id m) < 2 ^ 31 - 1 \<Longrightarrow>
     \<exists>r m'. create m title maxPlayers = Inr (r, m') \<and> ok m' \<and>
       view m' = spec_create (next_id m) title maxPlayers (view m) \<and> next_id m' = next_id m + 1"
  assumes join_law:
    "ok m \<Longrightarrow> \<exists>b m'. join m roomId p = Inr (b, m') \<and> ok m' \<and> spec_join roomId p (view m) = (b, view m') \<and>
       next_id m' = next_id m"
  assumes leave_law:
    "ok m \<Longrightarrow> \<exists>b m'. leave m p = Inr (b, m') \<and> ok m' \<and> spec_leave p (view m) = (b, view m') \<and>
       next_id m' = next_id m"
  assumes delete_law:
    "ok m \<Longrightarrow> \<exists>b m'. delete m roomId = Inr (b, m') \<and> ok m' \<and> spec_delete roomId (view m) = (b, view m') \<and>
       next_id m' = next_id m"
begin

lemma call_refines:
  assumes "ok m" "call_ok c" "sint (next_id m) < 2 ^ 31 - 1"
  shows "\<exists>b m'. room_call_run create join leave delete c m = Inr (b, m') \<and> ok m' \<and>
    spec_call c (next_id m, view m) = (b, next_id m', view m')"
proof (cases c)
  case (CallCreate title maxPlayers)
  then show ?thesis using create_law [of m maxPlayers title] assms by auto
next
  case (CallJoin roomId p)
  then show ?thesis using join_law [of m roomId p] assms by auto
next
  case (CallLeave p)
  then show ?thesis using leave_law [of m p] assms by auto
next
  case (CallDelete roomId)
  then show ?thesis using delete_law [of m roomId] assms by auto
qed

text \<open>Any sequence of calls returns what the contract says.\<close>

lemma run_refines:
  assumes "ok m" "list_all call_ok cs" "sint (next_id m) + int (length cs) < 2 ^ 31"
  shows "\<exists>bs m'. room_run create join leave delete cs m = Inr (bs, m') \<and> ok m' \<and>
    spec_run cs (next_id m, view m) = (bs, next_id m', view m')"
  using assms
proof (induction cs arbitrary: m)
  case (Cons c cs)
  obtain b m1 where c: "room_call_run create join leave delete c m = Inr (b, m1)" "ok m1"
      "spec_call c (next_id m, view m) = (b, next_id m1, view m1)"
    using call_refines [of m c] Cons.prems by auto
  have "sint (next_id m1) \<le> sint (next_id m) + 1"
  proof (cases c)
    case (CallCreate title maxPlayers)
    then show ?thesis using c(3) Cons.prems(3) sint_next [of "next_id m"] by auto
  qed (use c(3) in \<open>auto split: prod.splits\<close>)
  then obtain bs m2 where "room_run create join leave delete cs m1 = Inr (bs, m2)" "ok m2"
      "spec_run cs (next_id m1, view m1) = (bs, next_id m2, view m2)"
    using Cons.IH [OF c(2)] Cons.prems by force
  then show ?case using c by simp
qed simp

end

end
