(* ===== verification/RoomManager.thy ===== *)
theory RoomManager
  imports RoomDirectory "HOL-Library.AList"
begin

text \<open>
  \<open>CRoomManager\<close> (\<open>RoomManager.h\<close>, \<open>RoomManager.cpp\<close>): the rooms by creation time, by id and
  by player.  Rooms live in a store, a \<open>shared_ptr<CRoom>\<close> is an index into it; the unordered
  maps, whose order is never observed, are association lists.
\<close>

section \<open>State and operations\<close>

type_synonym room_ptr = nat

record CRoomManager =
  mgr_store :: "CRoom list"
  mgr_roomIdCounter :: int32_t
  mgr_roomList :: "room_ptr list"                 \<comment> \<open>front first\<close>
  mgr_roomMap :: "(int32_t \<times> room_ptr) list"
  mgr_playerToRoomMap :: "(player_ptr \<times> int32_t) list"

definition CRoomManager_new :: CRoomManager where
  "CRoomManager_new = \<lparr>mgr_store = [], mgr_roomIdCounter = 1, mgr_roomList = [], mgr_roomMap = [],
     mgr_playerToRoomMap = []\<rparr>"

definition room_at :: "CRoomManager \<Rightarrow> room_ptr \<Rightarrow> CRoom res" where
  "room_at m r = (if r < length (mgr_store m) then Inr (mgr_store m ! r) else Inl NullDeref)"

definition set_room :: "CRoomManager \<Rightarrow> room_ptr \<Rightarrow> CRoom \<Rightarrow> CRoomManager" where
  "set_room m r room = m\<lparr>mgr_store := (mgr_store m)[r := room]\<rparr>"

definition CreateRoom :: "CRoomManager \<Rightarrow> byte list \<Rightarrow> int32_t \<Rightarrow> (room_ptr \<times> CRoomManager) res" where
  "CreateRoom m title maxPlayers =
     (let roomId = mgr_roomIdCounter m; m = m\<lparr>mgr_roomIdCounter := mgr_roomIdCounter m + 1\<rparr> in
      andThen (CRoom_new roomId title maxPlayers) (\<lambda>room.
      let r = length (mgr_store m);
          m = m\<lparr>mgr_store := mgr_store m @ [room]\<rparr>;
          m = m\<lparr>mgr_roomList := r # mgr_roomList m\<rparr>;
          m = m\<lparr>mgr_roomMap := AList.update roomId r (mgr_roomMap m)\<rparr>
      in Inr (r, m)))"

text \<open>The loop over the players of a room that is being deleted.\<close>

fun erase_players :: "player_ptr list \<Rightarrow> (player_ptr \<times> int32_t) list \<Rightarrow> (player_ptr \<times> int32_t) list" where
  "erase_players [] m = m"
| "erase_players (p # ps) m = erase_players ps (AList.delete p m)"

definition DeleteRoom :: "CRoomManager \<Rightarrow> int32_t \<Rightarrow> (bool \<times> CRoomManager) res" where
  "DeleteRoom m roomId =
     (case map_of (mgr_roomMap m) roomId of
        None \<Rightarrow> Inr (False, m)
      | Some r \<Rightarrow>
          andThen (room_at m r) (\<lambda>room.
          let m = m\<lparr>mgr_playerToRoomMap := erase_players (rm_players room) (mgr_playerToRoomMap m)\<rparr>;
              m = m\<lparr>mgr_roomList := filter (\<lambda>x. x \<noteq> r) (mgr_roomList m)\<rparr>;
              m = m\<lparr>mgr_roomMap := AList.delete roomId (mgr_roomMap m)\<rparr>
          in Inr (True, m)))"

definition FindRoom :: "CRoomManager \<Rightarrow> int32_t \<Rightarrow> room_ptr option" where
  "FindRoom m roomId = map_of (mgr_roomMap m) roomId"

definition FindRoomByPlayer :: "CRoomManager \<Rightarrow> player_ptr option \<Rightarrow> room_ptr option" where
  "FindRoomByPlayer m player =
     (case player of None \<Rightarrow> None
      | Some p \<Rightarrow> (case map_of (mgr_playerToRoomMap m) p of None \<Rightarrow> None | Some roomId \<Rightarrow> FindRoom m roomId))"

fun find_title :: "CRoomManager \<Rightarrow> byte list \<Rightarrow> room_ptr list \<Rightarrow> room_ptr option res" where
  "find_title m title [] = Inr None"
| "find_title m title (r # rs) =
     andThen (room_at m r) (\<lambda>room. if rm_title room = title then Inr (Some r) else find_title m title rs)"

definition FindRoomByTitle :: "CRoomManager \<Rightarrow> byte list \<Rightarrow> room_ptr option res" where
  "FindRoomByTitle m title = find_title m title (mgr_roomList m)"

definition GetRoomList :: "CRoomManager \<Rightarrow> room_ptr list" where
  "GetRoomList m = mgr_roomList m"

definition JoinRoom :: "CRoomManager \<Rightarrow> int32_t \<Rightarrow> player_ptr option \<Rightarrow> (bool \<times> CRoomManager) res" where
  "JoinRoom m roomId player =
     (case player of None \<Rightarrow> Inr (False, m)
      | Some p \<Rightarrow>
          if map_of (mgr_playerToRoomMap m) p \<noteq> None then Inr (False, m)
          else
            (case FindRoom m roomId of None \<Rightarrow> Inr (False, m)
             | Some r \<Rightarrow>
                 andThen (room_at m r) (\<lambda>room.
                 let (added, room) = AddPlayer room player; m = set_room m r room in
                 if \<not> added then Inr (False, m)
                 else Inr (True, m\<lparr>mgr_playerToRoomMap := AList.update p roomId (mgr_playerToRoomMap m)\<rparr>))))"

definition LeaveRoom :: "CRoomManager \<Rightarrow> player_ptr option \<Rightarrow> (bool \<times> CRoomManager) res" where
  "LeaveRoom m player =
     (case player of None \<Rightarrow> Inr (False, m)
      | Some p \<Rightarrow>
          (case map_of (mgr_playerToRoomMap m) p of None \<Rightarrow> Inr (False, m)
           | Some roomId \<Rightarrow>
               (case FindRoom m roomId of
                  None \<Rightarrow> Inr (False, m\<lparr>mgr_playerToRoomMap := AList.delete p (mgr_playerToRoomMap m)\<rparr>)
                | Some r \<Rightarrow>
                    andThen (room_at m r) (\<lambda>room.
                    let room = snd (RemovePlayer room player);
                        m = set_room m r room;
                        m = m\<lparr>mgr_playerToRoomMap := AList.delete p (mgr_playerToRoomMap m)\<rparr>
                    in if IsEmptyRoom room
                       then andThen (DeleteRoom m roomId) (\<lambda>(_, m). Inr (True, m))
                       else Inr (True, m)))))"

definition GetRoomCount :: "CRoomManager \<Rightarrow> int32_t" where
  "GetRoomCount m = of_nat (length (mgr_roomMap m))"

definition GetTotalPlayerCount :: "CRoomManager \<Rightarrow> int32_t" where
  "GetTotalPlayerCount m = of_nat (length (mgr_playerToRoomMap m))"

section \<open>Invariant and abstraction\<close>

definition view_of :: "CRoom \<Rightarrow> room_view" where
  "view_of room = \<lparr>rv_id = rm_roomId room, rv_title = rm_title room, rv_max = rm_maxPlayers room,
     rv_players = rm_players room\<rparr>"

definition live :: "CRoomManager \<Rightarrow> room_ptr \<Rightarrow> CRoom" where
  "live m r = mgr_store m ! r"

definition views :: "CRoomManager \<Rightarrow> room_view list" where
  "views m = map (\<lambda>r. view_of (live m r)) (mgr_roomList m)"

text \<open>
  The list and the map hold the same well-formed rooms, under their ids; the reverse map holds
  exactly the players of these rooms; ids are below the counter.
\<close>

definition residents :: "CRoom \<Rightarrow> (player_ptr \<times> int32_t) set" where
  "residents room = (\<lambda>p. (p, rm_roomId room)) ` set (rm_players room)"

definition mgr_ok :: "CRoomManager \<Rightarrow> bool" where
  "mgr_ok m \<longleftrightarrow>
     distinct (mgr_roomList m) \<and> distinct (map fst (mgr_roomMap m)) \<and>
     distinct (map fst (mgr_playerToRoomMap m)) \<and>
     (\<forall>r \<in> set (mgr_roomList m). r < length (mgr_store m) \<and> room_ok (live m r) \<and>
        sint (rm_roomId (live m r)) < sint (mgr_roomIdCounter m)) \<and>
     set (mgr_roomMap m) = (\<lambda>r. (rm_roomId (live m r), r)) ` set (mgr_roomList m) \<and>
     set (mgr_playerToRoomMap m) = (\<Union>r \<in> set (mgr_roomList m). residents (live m r))"

lemma map_of_distinct: "distinct (map fst al) \<Longrightarrow> map_of al k = Some v \<longleftrightarrow> (k, v) \<in> set al"
  by (simp add: map_of_eq_Some_iff)

lemma roomMap_lookup:
  assumes "mgr_ok m"
  shows "map_of (mgr_roomMap m) i = Some r \<longleftrightarrow> r \<in> set (mgr_roomList m) \<and> rm_roomId (live m r) = i"
  using assms by (auto simp: mgr_ok_def map_of_distinct)

lemma playerMap_lookup:
  assumes "mgr_ok m"
  shows "map_of (mgr_playerToRoomMap m) p = Some i \<longleftrightarrow>
    (\<exists>r \<in> set (mgr_roomList m). rm_roomId (live m r) = i \<and> p \<in> set (rm_players (live m r)))"
  using assms by (auto simp: mgr_ok_def map_of_distinct residents_def)

lemma mgr_okD:
  assumes "mgr_ok m" "r \<in> set (mgr_roomList m)"
  shows "r < length (mgr_store m)" "room_ok (live m r)" "sint (rm_roomId (live m r)) < sint (mgr_roomIdCounter m)"
    "room_at m r = Inr (live m r)"
  using assms by (auto simp: mgr_ok_def room_at_def live_def)

lemma mgr_ok_sets:
  assumes "mgr_ok m"
  shows "distinct (mgr_roomList m)" "distinct (map fst (mgr_roomMap m))" "distinct (map fst (mgr_playerToRoomMap m))"
    "set (mgr_roomMap m) = (\<lambda>r. (rm_roomId (live m r), r)) ` set (mgr_roomList m)"
    "set (mgr_playerToRoomMap m) = (\<Union>r \<in> set (mgr_roomList m). residents (live m r))"
  using assms unfolding mgr_ok_def by blast+

lemma mgr_okI:
  assumes "distinct (mgr_roomList m)" "distinct (map fst (mgr_roomMap m))" "distinct (map fst (mgr_playerToRoomMap m))"
    "\<And>r. r \<in> set (mgr_roomList m) \<Longrightarrow> r < length (mgr_store m) \<and> room_ok (live m r) \<and>
       sint (rm_roomId (live m r)) < sint (mgr_roomIdCounter m)"
    "set (mgr_roomMap m) = (\<lambda>r. (rm_roomId (live m r), r)) ` set (mgr_roomList m)"
    "set (mgr_playerToRoomMap m) = (\<Union>r \<in> set (mgr_roomList m). residents (live m r))"
  shows "mgr_ok m"
  using assms unfolding mgr_ok_def by blast

lemma same_id_same_room:
  assumes "mgr_ok m" "r \<in> set (mgr_roomList m)" "x \<in> set (mgr_roomList m)" "rm_roomId (live m x) = rm_roomId (live m r)"
  shows "x = r"
proof -
  have "map_of (mgr_roomMap m) (rm_roomId (live m r)) = Some x" "map_of (mgr_roomMap m) (rm_roomId (live m r)) = Some r"
    using assms by (simp_all add: roomMap_lookup)
  then show ?thesis by simp
qed

lemma same_player_same_room:
  assumes "mgr_ok m" "r \<in> set (mgr_roomList m)" "x \<in> set (mgr_roomList m)"
    "p \<in> set (rm_players (live m r))" "p \<in> set (rm_players (live m x))"
  shows "x = r"
proof -
  have "map_of (mgr_playerToRoomMap m) p = Some (rm_roomId (live m r))"
    "map_of (mgr_playerToRoomMap m) p = Some (rm_roomId (live m x))"
    using assms playerMap_lookup [OF assms(1)] by blast+
  then show ?thesis using same_id_same_room [OF assms(1-3)] by simp
qed

lemma in_some_room_views:
  "in_some_room (views m) p \<longleftrightarrow> (\<exists>r \<in> set (mgr_roomList m). p \<in> set (rm_players (live m r)))"
  by (auto simp: in_some_room_def views_def view_of_def list_ex_iff)

lemma playerMap_None:
  assumes "mgr_ok m" shows "map_of (mgr_playerToRoomMap m) p = None \<longleftrightarrow> \<not> in_some_room (views m) p"
proof -
  have "map_of (mgr_playerToRoomMap m) p = None \<longleftrightarrow> (\<forall>i. map_of (mgr_playerToRoomMap m) p \<noteq> Some i)"
    by (metis not_None_eq)
  then show ?thesis by (simp only: playerMap_lookup [OF assms] in_some_room_views) blast
qed

text \<open>Update and deletion of association lists as sets of pairs.\<close>

lemma update_fresh: "k \<notin> fst ` set al \<Longrightarrow> AList.update k v al = al @ [(k, v)]"
  by (induction al) auto

lemma set_delete: "set (AList.delete k al) = {x \<in> set al. fst x \<noteq> k}"
  by (auto simp: AList.delete_eq)

lemma distinct_delete_keys: "distinct (map fst al) \<Longrightarrow> distinct (map fst (AList.delete k al))"
  by (rule distinct_delete)

lemma erase_players_set: "set (erase_players ps al) = {x \<in> set al. fst x \<notin> set ps}"
  by (induction ps arbitrary: al) (auto simp: set_delete)

lemma erase_players_distinct: "distinct (map fst al) \<Longrightarrow> distinct (map fst (erase_players ps al))"
  by (induction ps arbitrary: al) (auto simp: distinct_delete)

lemma mgr_ok_new: "mgr_ok CRoomManager_new" "views CRoomManager_new = []"
  by (simp_all add: mgr_ok_def CRoomManager_new_def views_def)

section \<open>The operations refine the contract\<close>

lemma CreateRoom_refines:
  assumes ok: "mgr_ok m" and max: "0 \<le> sint maxPlayers" and cnt: "sint (mgr_roomIdCounter m) < 2 ^ 31 - 1"
  shows "\<exists>r m'. CreateRoom m title maxPlayers = Inr (r, m') \<and> mgr_ok m' \<and>
    views m' = spec_create (mgr_roomIdCounter m) title maxPlayers (views m) \<and>
    mgr_roomIdCounter m' = mgr_roomIdCounter m + 1 \<and>
    r \<in> set (mgr_roomList m') \<and> rm_roomId (live m' r) = mgr_roomIdCounter m"
proof -
  let ?i = "mgr_roomIdCounter m" and ?r = "length (mgr_store m)"
  obtain room where room: "CRoom_new ?i title maxPlayers = Inr room" "room_ok room" "rm_roomId room = ?i"
      "rm_title room = title" "rm_maxPlayers room = maxPlayers" "rm_players room = []"
    using CRoom_new_ok [OF max] by blast
  define m' where "m' = m\<lparr>mgr_roomIdCounter := ?i + 1, mgr_store := mgr_store m @ [room],
    mgr_roomList := ?r # mgr_roomList m, mgr_roomMap := AList.update ?i ?r (mgr_roomMap m)\<rparr>"
  have eq: "CreateRoom m title maxPlayers = Inr (?r, m')"
    using room(1) by (simp add: CreateRoom_def m'_def Let_def)
  have lt: "r < ?r" if "r \<in> set (mgr_roomList m)" for r using mgr_okD(1) [OF ok that] .
  have live: "live m' r = live m r" if "r \<in> set (mgr_roomList m)" for r
    using lt [OF that] by (simp add: live_def m'_def nth_append)
  have new: "live m' ?r = room" by (simp add: live_def m'_def)
  have cnt': "sint (?i + 1) = sint ?i + 1" using cnt by (rule sint_next)
  have fresh: "?i \<notin> fst ` set (mgr_roomMap m)"
    using mgr_okD(3) [OF ok] unfolding mgr_ok_sets(4) [OF ok] by (metis (no_types, lifting) fst_conv imageE less_irrefl)
  have map': "mgr_roomMap m' = mgr_roomMap m @ [(?i, ?r)]" using fresh by (simp add: m'_def update_fresh)
  have list': "mgr_roomList m' = ?r # mgr_roomList m" by (simp add: m'_def)
  have plr': "mgr_playerToRoomMap m' = mgr_playerToRoomMap m" by (simp add: m'_def)
  have store': "length (mgr_store m') = Suc ?r" "mgr_roomIdCounter m' = ?i + 1" by (simp_all add: m'_def)
  have "mgr_ok m'"
  proof (rule mgr_okI)
    show "distinct (mgr_roomList m')" using mgr_ok_sets(1) [OF ok] lt list' by auto
    show "distinct (map fst (mgr_roomMap m'))" using mgr_ok_sets(2) [OF ok] fresh map' by simp
    show "distinct (map fst (mgr_playerToRoomMap m'))" using mgr_ok_sets(3) [OF ok] plr' by simp
    show "set (mgr_roomMap m') = (\<lambda>r. (rm_roomId (live m' r), r)) ` set (mgr_roomList m')"
      using mgr_ok_sets(4) [OF ok] by (simp add: map' list' new room(3) live cong: image_cong)
    show "set (mgr_playerToRoomMap m') = (\<Union>r \<in> set (mgr_roomList m'). residents (live m' r))"
      using mgr_ok_sets(5) [OF ok] by (simp add: plr' list' new room(6) live residents_def [of room])
  next
    fix r assume r: "r \<in> set (mgr_roomList m')"
    show "r < length (mgr_store m') \<and> room_ok (live m' r) \<and> sint (rm_roomId (live m' r)) < sint (mgr_roomIdCounter m')"
    proof (cases "r = ?r")
      case True
      then show ?thesis using room(2,3) new cnt' store' by simp
    next
      case False
      then have "r \<in> set (mgr_roomList m)" using r list' by simp
      from mgr_okD [OF ok this] live [OF this] show ?thesis using cnt' store' by simp
    qed
  qed
  moreover have "views m' = spec_create ?i title maxPlayers (views m)"
    using list' new live room by (simp add: views_def spec_create_def view_of_def)
  moreover have "mgr_roomIdCounter m' = ?i + 1" using store' by simp
  moreover have "?r \<in> set (mgr_roomList m')" "rm_roomId (live m' ?r) = ?i" using list' new room(3) by simp_all
  ultimately show ?thesis using eq by blast
qed

text \<open>Changing one live room.\<close>

lemma UN_insert_one:
  "r \<in> R \<Longrightarrow> (\<Union>x \<in> R. if x = r then insert a (f x) else f x) = insert a (\<Union>x \<in> R. f x)"
  by (auto split: if_splits)

lemma live_set_room: "r < length (mgr_store m) \<Longrightarrow> live (set_room m r room) x = (if x = r then room else live m x)"
  by (simp add: live_def set_room_def)

lemma JoinRoom_refines:
  assumes ok: "mgr_ok m"
  shows "\<exists>b m'. JoinRoom m roomId (Some p) = Inr (b, m') \<and> mgr_ok m' \<and>
    spec_join roomId p (views m) = (b, views m') \<and> mgr_roomIdCounter m' = mgr_roomIdCounter m"
proof -
  have joinable: "list_ex (\<lambda>v. rv_id v = roomId \<and> joinable v) (views m) \<longleftrightarrow>
      (\<exists>r \<in> set (mgr_roomList m). rm_roomId (live m r) = roomId \<and>
         int (length (rm_players (live m r))) < sint (rm_maxPlayers (live m r)))"
    by (auto simp: views_def list_ex_iff view_of_def joinable_def)
  show ?thesis
  proof (cases "in_some_room (views m) p \<or> FindRoom m roomId = None")
    case True
    then have "JoinRoom m roomId (Some p) = Inr (False, m)"
      using playerMap_None [OF ok] by (auto simp: JoinRoom_def)
    moreover have "\<not> (\<exists>r \<in> set (mgr_roomList m). rm_roomId (live m r) = roomId)" if "FindRoom m roomId = None"
      using that roomMap_lookup [OF ok, of roomId] by (auto simp: FindRoom_def)
    then have "spec_join roomId p (views m) = (False, views m)"
      using True joinable unfolding spec_join_def by auto
    ultimately show ?thesis using ok by blast
  next
    case False
    then obtain r where find: "FindRoom m roomId = Some r" and free: "\<not> in_some_room (views m) p" by auto
    then have r: "r \<in> set (mgr_roomList m)" "rm_roomId (live m r) = roomId"
      using roomMap_lookup [OF ok] by (auto simp: FindRoom_def)
    let ?room = "live m r"
    have only: "x = r" if "x \<in> set (mgr_roomList m)" "rm_roomId (live m x) = roomId" for x
      using same_id_same_room [OF ok r(1) that(1)] that(2) r(2) by simp
    have notin: "p \<notin> set (rm_players (live m x))" if "x \<in> set (mgr_roomList m)" for x
      using free that by (auto simp: in_some_room_views)
    show ?thesis
    proof (cases "int (length (rm_players ?room)) < sint (rm_maxPlayers ?room)")
      case full: False
      then have add: "AddPlayer ?room (Some p) = (False, ?room)"
        using AddPlayer_eq [OF mgr_okD(2) [OF ok r(1)]] mgr_okD(2) [OF ok r(1)] by (auto simp: room_ok_def)
      have "set_room m r ?room = m" by (simp add: set_room_def live_def)
      then have "JoinRoom m roomId (Some p) = Inr (False, m)"
        using find free add mgr_okD(4) [OF ok r(1)] playerMap_None [OF ok] by (simp add: JoinRoom_def)
      moreover have "\<not> list_ex (\<lambda>v. rv_id v = roomId \<and> joinable v) (views m)"
        unfolding joinable using full only by blast
      then have "spec_join roomId p (views m) = (False, views m)" by (simp add: spec_join_def)
      ultimately show ?thesis using ok by blast
    next
      case room: True
      define room' where "room' = snd (AddPlayer ?room (Some p))"
      have add: "AddPlayer ?room (Some p) = (True, room')"
          "rm_players room' = rm_players ?room @ [p]" "rm_roomId room' = roomId" "rm_title room' = rm_title ?room"
          "rm_maxPlayers room' = rm_maxPlayers ?room"
        using AddPlayer_eq [OF mgr_okD(2) [OF ok r(1)], of p] room notin [OF r(1)] r(2) by (auto simp: room'_def)
      have rok: "room_ok room'" unfolding room'_def by (rule AddPlayer_room_ok) (rule mgr_okD(2) [OF ok r(1)])
      have fresh: "p \<notin> fst ` set (mgr_playerToRoomMap m)"
        using playerMap_None [OF ok, of p] free by (simp add: map_of_eq_None_iff)
      define m' where "m' = set_room m r room'\<lparr>mgr_playerToRoomMap := mgr_playerToRoomMap m @ [(p, roomId)]\<rparr>"
      have eq: "JoinRoom m roomId (Some p) = Inr (True, m')"
        using find free add(1) mgr_okD(4) [OF ok r(1)] playerMap_None [OF ok] fresh
        by (simp add: JoinRoom_def m'_def update_fresh set_room_def)
      have list': "mgr_roomList m' = mgr_roomList m" "mgr_roomMap m' = mgr_roomMap m"
        "mgr_roomIdCounter m' = mgr_roomIdCounter m" "length (mgr_store m') = length (mgr_store m)"
        "mgr_playerToRoomMap m' = mgr_playerToRoomMap m @ [(p, roomId)]"
        by (simp_all add: m'_def set_room_def)
      have live': "live m' x = (if x = r then room' else live m x)" for x
        using live_set_room [OF mgr_okD(1) [OF ok r(1)], of room' x] by (simp add: m'_def live_def)
      have ids: "rm_roomId (live m' x) = rm_roomId (live m x)" for x using live' r(2) add(3) by simp
      have "mgr_ok m'"
      proof (rule mgr_okI)
        show "distinct (mgr_roomList m')" "distinct (map fst (mgr_roomMap m'))"
          using mgr_ok_sets [OF ok] list' by simp_all
        show "distinct (map fst (mgr_playerToRoomMap m'))"
          using mgr_ok_sets(3) [OF ok] fresh list' by simp
        show "set (mgr_roomMap m') = (\<lambda>r. (rm_roomId (live m' r), r)) ` set (mgr_roomList m')"
          using mgr_ok_sets(4) [OF ok] by (simp add: list' ids)
        have res: "residents (live m' x) = (if x = r then insert (p, roomId) (residents (live m x)) else residents (live m x))" for x
          using add(2,3) r(2) by (simp add: live' residents_def)
        have "(\<Union>x \<in> set (mgr_roomList m). residents (live m' x)) =
            insert (p, roomId) (\<Union>x \<in> set (mgr_roomList m). residents (live m x))"
          unfolding res by (rule UN_insert_one [OF r(1)])
        then show "set (mgr_playerToRoomMap m') = (\<Union>x \<in> set (mgr_roomList m'). residents (live m' x))"
          using mgr_ok_sets(5) [OF ok] by (simp add: list')
      next
        fix x assume "x \<in> set (mgr_roomList m')"
        then have "x \<in> set (mgr_roomList m)" using list' by simp
        from mgr_okD [OF ok this] show "x < length (mgr_store m') \<and> room_ok (live m' x) \<and>
            sint (rm_roomId (live m' x)) < sint (mgr_roomIdCounter m')"
          using rok list' ids live' by simp
      qed
      moreover have "spec_join roomId p (views m) = (True, views m')"
      proof -
        have "list_ex (\<lambda>v. rv_id v = roomId \<and> joinable v) (views m)"
          unfolding joinable using r room by blast
        moreover have "views m' = map (\<lambda>v. if rv_id v = roomId then v\<lparr>rv_players := rv_players v @ [p]\<rparr> else v) (views m)"
          unfolding views_def list' map_map comp_def
        proof (rule map_cong [OF refl])
          fix x assume x: "x \<in> set (mgr_roomList m)"
          show "view_of (live m' x) = (if rv_id (view_of (live m x)) = roomId
              then view_of (live m x)\<lparr>rv_players := rv_players (view_of (live m x)) @ [p]\<rparr> else view_of (live m x))"
          proof (cases "x = r")
            case True
            then show ?thesis using r(2) add(2-5) by (simp add: live' view_of_def)
          next
            case False
            then have "rm_roomId (live m x) \<noteq> roomId" using only [OF x] by blast
            then show ?thesis using False by (simp add: live' view_of_def)
          qed
        qed
        ultimately show ?thesis using free by (simp add: spec_join_def)
      qed
      ultimately show ?thesis using eq list'(3) by blast
    qed
  qed
qed

text \<open>Whether an id is in use, by the view.\<close>

lemma id_in_views:
  assumes "mgr_ok m"
  shows "list_ex (\<lambda>v. rv_id v = roomId) (views m) \<longleftrightarrow> FindRoom m roomId \<noteq> None"
proof -
  have "list_ex (\<lambda>v. rv_id v = roomId) (views m) \<longleftrightarrow> (\<exists>r \<in> set (mgr_roomList m). rm_roomId (live m r) = roomId)"
    by (auto simp: views_def list_ex_iff view_of_def)
  also have "\<dots> \<longleftrightarrow> (\<exists>r. map_of (mgr_roomMap m) roomId = Some r)" using roomMap_lookup [OF assms] by blast
  finally show ?thesis by (simp add: FindRoom_def)
qed

lemma DeleteRoom_refines:
  assumes ok: "mgr_ok m"
  shows "\<exists>b m'. DeleteRoom m roomId = Inr (b, m') \<and> mgr_ok m' \<and> spec_delete roomId (views m) = (b, views m') \<and>
    mgr_roomIdCounter m' = mgr_roomIdCounter m"
proof (cases "FindRoom m roomId")
  case None
  then show ?thesis
    using ok id_in_views [OF ok, of roomId] by (auto simp: DeleteRoom_def FindRoom_def spec_delete_def)
next
  case (Some r)
  then have r: "r \<in> set (mgr_roomList m)" "rm_roomId (live m r) = roomId"
    using roomMap_lookup [OF ok] by (auto simp: FindRoom_def)
  define m' where "m' = m\<lparr>
    mgr_playerToRoomMap := erase_players (rm_players (live m r)) (mgr_playerToRoomMap m),
    mgr_roomList := filter (\<lambda>x. x \<noteq> r) (mgr_roomList m), mgr_roomMap := AList.delete roomId (mgr_roomMap m)\<rparr>"
  have eq: "DeleteRoom m roomId = Inr (True, m')"
    using Some mgr_okD(4) [OF ok r(1)] by (simp add: DeleteRoom_def FindRoom_def m'_def Let_def)
  have list': "mgr_roomList m' = filter (\<lambda>x. x \<noteq> r) (mgr_roomList m)" "mgr_roomIdCounter m' = mgr_roomIdCounter m"
    "mgr_roomMap m' = AList.delete roomId (mgr_roomMap m)" "length (mgr_store m') = length (mgr_store m)"
    by (simp_all add: m'_def)
  have live': "live m' x = live m x" for x by (simp add: live_def m'_def)
  have only: "rm_roomId (live m x) = roomId \<longleftrightarrow> x = r" if "x \<in> set (mgr_roomList m)" for x
    using same_id_same_room [OF ok r(1) that] r(2) by auto
  have sep: "residents (live m x) \<inter> {y. fst y \<in> set (rm_players (live m r))} = {}"
    if "x \<in> set (mgr_roomList m)" "x \<noteq> r" for x
    using same_player_same_room [OF ok r(1) that(1)] that(2) by (auto simp: residents_def)
  have own: "residents (live m r) \<subseteq> {y. fst y \<in> set (rm_players (live m r))}" by (auto simp: residents_def)
  have "mgr_ok m'"
  proof (rule mgr_okI)
    show "distinct (mgr_roomList m')" using mgr_ok_sets(1) [OF ok] list' by simp
    show "distinct (map fst (mgr_roomMap m'))" using mgr_ok_sets(2) [OF ok] list' by (simp add: distinct_delete)
    show "distinct (map fst (mgr_playerToRoomMap m'))"
      using mgr_ok_sets(3) [OF ok] by (simp add: m'_def erase_players_distinct)
    show "set (mgr_roomMap m') = (\<lambda>r. (rm_roomId (live m' r), r)) ` set (mgr_roomList m')"
      using only unfolding list' live' set_delete mgr_ok_sets(4) [OF ok] set_filter by fastforce
    have "set (mgr_playerToRoomMap m') =
        (\<Union>x \<in> set (mgr_roomList m). residents (live m x)) - {y. fst y \<in> set (rm_players (live m r))}"
      using mgr_ok_sets(5) [OF ok] by (auto simp: m'_def erase_players_set)
    also have "\<dots> = (\<Union>x \<in> set (mgr_roomList m'). residents (live m' x))"
      using sep own unfolding list' live' set_filter by blast
    finally show "set (mgr_playerToRoomMap m') = (\<Union>x \<in> set (mgr_roomList m'). residents (live m' x))" .
  next
    fix x assume "x \<in> set (mgr_roomList m')"
    then have "x \<in> set (mgr_roomList m)" using list' by simp
    from mgr_okD [OF ok this] show "x < length (mgr_store m') \<and> room_ok (live m' x) \<and>
        sint (rm_roomId (live m' x)) < sint (mgr_roomIdCounter m')" using list' live' by simp
  qed
  moreover have "views m' = filter (\<lambda>v. rv_id v \<noteq> roomId) (views m)"
    using only by (simp add: views_def list' live' filter_map comp_def view_of_def cong: filter_cong)
  then have "spec_delete roomId (views m) = (True, views m')"
    using id_in_views [OF ok, of roomId] Some by (simp add: spec_delete_def)
  ultimately show ?thesis using eq list'(2) by blast
qed

text \<open>The player leaves, before an empty room is deleted.\<close>

lemma leave_room_ok:
  assumes ok: "mgr_ok m" and r: "r \<in> set (mgr_roomList m)" and p: "p \<in> set (rm_players (live m r))"
  defines "m' \<equiv> set_room m r (snd (RemovePlayer (live m r) (Some p)))
      \<lparr>mgr_playerToRoomMap := AList.delete p (mgr_playerToRoomMap m)\<rparr>"
  shows "mgr_ok m'"
    and "views m' = map (\<lambda>v. v\<lparr>rv_players := remove1 p (rv_players v)\<rparr>) (views m)"
proof -
  define room' where "room' = snd (RemovePlayer (live m r) (Some p))"
  note rok = mgr_okD(2) [OF ok r]
  have room: "room_ok room'" "rm_players room' = remove1 p (rm_players (live m r))"
      "rm_roomId room' = rm_roomId (live m r)" "rm_title room' = rm_title (live m r)"
      "rm_maxPlayers room' = rm_maxPlayers (live m r)"
    using RemovePlayer_room_ok [OF rok p] RemovePlayer_eq [OF rok p] by (simp_all add: room'_def)
  have frame: "mgr_roomList m' = mgr_roomList m" "mgr_roomMap m' = mgr_roomMap m"
    "mgr_roomIdCounter m' = mgr_roomIdCounter m" "length (mgr_store m') = length (mgr_store m)"
    "mgr_playerToRoomMap m' = AList.delete p (mgr_playerToRoomMap m)"
    by (simp_all add: m'_def set_room_def)
  have live': "live m' x = (if x = r then room' else live m x)" for x
    using live_set_room [OF mgr_okD(1) [OF ok r], of room' x] by (simp add: m'_def room'_def live_def)
  have ids: "rm_roomId (live m' x) = rm_roomId (live m x)" for x using live' room(3) by simp
  have gone: "p \<notin> set (rm_players (live m x))" if "x \<in> set (mgr_roomList m)" "x \<noteq> r" for x
    using same_player_same_room [OF ok r that(1) p] that(2) by blast
  have players: "rm_players (live m' x) = remove1 p (rm_players (live m x))" if "x \<in> set (mgr_roomList m)" for x
    using live' room(2) gone [OF that] by (simp add: remove1_idem)
  have dist: "distinct (rm_players (live m x))" if "x \<in> set (mgr_roomList m)" for x
    using mgr_okD(2) [OF ok that] by (simp add: room_ok_def)
  have res: "residents (live m' x) = {y \<in> residents (live m x). fst y \<noteq> p}" if "x \<in> set (mgr_roomList m)" for x
    using players [OF that] dist [OF that] ids by (auto simp: residents_def set_remove1_eq)
  show "mgr_ok m'"
  proof (rule mgr_okI)
    show "distinct (mgr_roomList m')" "distinct (map fst (mgr_roomMap m'))" using mgr_ok_sets [OF ok] frame by simp_all
    show "distinct (map fst (mgr_playerToRoomMap m'))" using mgr_ok_sets(3) [OF ok] frame by (simp add: distinct_delete)
    show "set (mgr_roomMap m') = (\<lambda>r. (rm_roomId (live m' r), r)) ` set (mgr_roomList m')"
      using mgr_ok_sets(4) [OF ok] by (simp add: frame ids)
    show "set (mgr_playerToRoomMap m') = (\<Union>x \<in> set (mgr_roomList m'). residents (live m' x))"
      using mgr_ok_sets(5) [OF ok] res by (auto simp: frame set_delete)
  next
    fix x assume "x \<in> set (mgr_roomList m')"
    then have "x \<in> set (mgr_roomList m)" using frame by simp
    from mgr_okD [OF ok this] show "x < length (mgr_store m') \<and> room_ok (live m' x) \<and>
        sint (rm_roomId (live m' x)) < sint (mgr_roomIdCounter m')"
      using room(1) frame ids live' by simp
  qed
  show "views m' = map (\<lambda>v. v\<lparr>rv_players := remove1 p (rv_players v)\<rparr>) (views m)"
    unfolding views_def frame map_map comp_def
  proof (rule map_cong [OF refl])
    fix x assume x: "x \<in> set (mgr_roomList m)"
    have "rm_title (live m' x) = rm_title (live m x)" "rm_maxPlayers (live m' x) = rm_maxPlayers (live m x)"
      using live' room(4,5) by simp_all
    then show "view_of (live m' x) = view_of (live m x)\<lparr>rv_players := remove1 p (rv_players (view_of (live m x)))\<rparr>"
      using players [OF x] ids by (simp add: view_of_def)
  qed
qed

lemma remove1_is_Nil: "p \<in> set xs \<Longrightarrow> remove1 p xs = [] \<longleftrightarrow> xs = [p]"
  by (cases xs) (auto split: if_splits)

lemma LeaveRoom_refines:
  assumes ok: "mgr_ok m"
  shows "\<exists>b m'. LeaveRoom m (Some p) = Inr (b, m') \<and> mgr_ok m' \<and> spec_leave p (views m) = (b, views m') \<and>
    mgr_roomIdCounter m' = mgr_roomIdCounter m"
proof (cases "map_of (mgr_playerToRoomMap m) p")
  case None
  then show ?thesis using ok playerMap_None [OF ok, of p] by (auto simp: LeaveRoom_def spec_leave_def)
next
  case (Some roomId)
  then obtain r where r: "r \<in> set (mgr_roomList m)" "rm_roomId (live m r) = roomId" "p \<in> set (rm_players (live m r))"
    using playerMap_lookup [OF ok] by blast
  have find: "FindRoom m roomId = Some r" using roomMap_lookup [OF ok] r by (simp add: FindRoom_def)
  let ?room = "snd (RemovePlayer (live m r) (Some p))"
  define m1 where "m1 = set_room m r ?room\<lparr>mgr_playerToRoomMap := AList.delete p (mgr_playerToRoomMap m)\<rparr>"
  have m1: "mgr_ok m1" "views m1 = map (\<lambda>v. v\<lparr>rv_players := remove1 p (rv_players v)\<rparr>) (views m)"
    "mgr_roomIdCounter m1 = mgr_roomIdCounter m" "mgr_roomList m1 = mgr_roomList m" "mgr_roomMap m1 = mgr_roomMap m"
    using leave_room_ok [OF ok r(1,3)] by (simp_all add: m1_def set_room_def)
  note rok = mgr_okD(2) [OF ok r(1)]
  have empty: "IsEmptyRoom ?room \<longleftrightarrow> rm_players (live m r) = [p]"
    using IsEmptyRoom_iff [OF RemovePlayer_room_ok [OF rok r(3)]] RemovePlayer_eq [OF rok r(3)] remove1_is_Nil [OF r(3)]
    by simp
  have leave: "LeaveRoom m (Some p) =
      (if IsEmptyRoom ?room then andThen (DeleteRoom m1 roomId) (\<lambda>(_, m). Inr (True, m)) else Inr (True, m1))"
    using Some find mgr_okD(4) [OF ok r(1)] by (simp add: LeaveRoom_def m1_def Let_def set_room_def)
  have "in_some_room (views m) p" using r by (auto simp: in_some_room_views)
  then have spec: "spec_leave p (views m) =
      (True, map (\<lambda>v. v\<lparr>rv_players := remove1 p (rv_players v)\<rparr>) (filter (\<lambda>v. rv_players v \<noteq> [p]) (views m)))"
    by (simp add: spec_leave_def)
  have single: "rm_players (live m x) = [p] \<longleftrightarrow> x = r \<and> rm_players (live m r) = [p]"
    if "x \<in> set (mgr_roomList m)" for x
    using same_player_same_room [OF ok r(1) that r(3)] by auto
  have ids: "rm_roomId (live m x) = roomId \<longleftrightarrow> x = r" if "x \<in> set (mgr_roomList m)" for x
    using same_id_same_room [OF ok r(1) that] r(2) by auto
  show ?thesis
  proof (cases "IsEmptyRoom ?room")
    case False
    then have "\<And>x. x \<in> set (mgr_roomList m) \<Longrightarrow> rm_players (live m x) \<noteq> [p]" using single empty by blast
    then have "filter (\<lambda>v. rv_players v \<noteq> [p]) (views m) = views m"
      by (auto simp: views_def view_of_def filter_id_conv)
    then show ?thesis using False leave m1 spec by auto
  next
    case True
    have "filter (\<lambda>v. rv_players v \<noteq> [p]) (views m) = filter (\<lambda>v. rv_id v \<noteq> roomId) (views m)"
    proof (rule filter_cong [OF refl])
      fix v assume "v \<in> set (views m)"
      then obtain x where x: "x \<in> set (mgr_roomList m)" "v = view_of (live m x)" by (auto simp: views_def)
      show "(rv_players v \<noteq> [p]) = (rv_id v \<noteq> roomId)"
        using single [OF x(1)] ids [OF x(1)] empty True x(2) by (simp add: view_of_def)
    qed
    moreover have "FindRoom m1 roomId = Some r" using find m1(5) by (simp add: FindRoom_def)
    then have "spec_delete roomId (views m1) = (True, filter (\<lambda>v. rv_id v \<noteq> roomId) (views m1))"
      using id_in_views [OF m1(1), of roomId] by (simp add: spec_delete_def)
    ultimately obtain m2 where "DeleteRoom m1 roomId = Inr (True, m2)" "mgr_ok m2"
        "views m2 = map (\<lambda>v. v\<lparr>rv_players := remove1 p (rv_players v)\<rparr>) (filter (\<lambda>v. rv_players v \<noteq> [p]) (views m))"
        "mgr_roomIdCounter m2 = mgr_roomIdCounter m"
      using DeleteRoom_refines [OF m1(1), of roomId] m1(2,3) by (auto simp: filter_map comp_def)
    then show ?thesis using True leave spec by auto
  qed
qed

lemma FindRoomByTitle_ok:
  assumes ok: "mgr_ok m"
  shows "\<exists>r. FindRoomByTitle m title = Inr r \<and> (r \<noteq> None \<longleftrightarrow> list_ex (\<lambda>v. rv_title v = title) (views m))"
proof -
  have "\<exists>r. find_title m title rs = Inr r \<and> (r \<noteq> None \<longleftrightarrow> (\<exists>x \<in> set rs. rm_title (live m x) = title))"
    if "set rs \<subseteq> set (mgr_roomList m)" for rs
    using that
  proof (induction rs)
    case (Cons x rs)
    then show ?case using mgr_okD(4) [OF ok, of x] by auto
  qed simp
  from this [of "mgr_roomList m"] show ?thesis
    by (simp add: FindRoomByTitle_def views_def list_ex_iff view_of_def)
qed

lemma views_join_id: "mgr_ok m \<Longrightarrow> distinct (map rv_id (views m))"
proof -
  assume ok: "mgr_ok m"
  have "inj_on (\<lambda>r. rm_roomId (live m r)) (set (mgr_roomList m))"
    using same_id_same_room [OF ok] by (auto intro: inj_onI)
  then show ?thesis using mgr_ok_sets(1) [OF ok] by (simp add: views_def view_of_def distinct_map comp_def)
qed

section \<open>The room manager is a room directory\<close>

interpretation rooms: room_directory mgr_ok views mgr_roomIdCounter
  "\<lambda>m title maxPlayers. CreateRoom m title maxPlayers" "\<lambda>m roomId p. JoinRoom m roomId (Some p)"
  "\<lambda>m p. LeaveRoom m (Some p)" DeleteRoom
proof (unfold_locales, goal_cases)
  case (1 m maxPlayers title)
  then show ?case using CreateRoom_refines [of m maxPlayers title] by blast
next
  case (2 m roomId p)
  then show ?case by (rule JoinRoom_refines)
next
  case (3 m p)
  then show ?case by (rule LeaveRoom_refines)
next
  case (4 m roomId)
  then show ?case by (rule DeleteRoom_refines)
qed

end
