(* ===== verification/Protocol.thy ===== *)
theory Protocol
  imports Codec Room
begin

text \<open>
  The messages between game server and client: \<open>MsgType\<close> and the packed structs of
  \<open>Protocol.h\<close> as byte images.  \<open>CentralizedServer.cpp\<close> and the client use the header with
  the member \<open>type\<close>, as the client's \<open>Protocol.h\<close> declares it.
\<close>

section \<open>Message types\<close>

datatype MsgType =
    C2S_REQUEST_ROOM_LIST | S2C_ROOM_LIST
  | C2S_CREATE_ROOM | S2C_ROOM_CREATED
  | C2S_JOIN_ROOM | S2C_ROOM_JOINED
  | C2S_LEAVE_ROOM | S2C_ROOM_LEFT
  | S2C_ERROR

text \<open>The values of the enumeration, which go over the wire.\<close>

fun msg_code :: "MsgType \<Rightarrow> uint16_t" where
  "msg_code C2S_REQUEST_ROOM_LIST = 1000"
| "msg_code S2C_ROOM_LIST = 1001"
| "msg_code C2S_CREATE_ROOM = 1002"
| "msg_code S2C_ROOM_CREATED = 1003"
| "msg_code C2S_JOIN_ROOM = 1004"
| "msg_code S2C_ROOM_JOINED = 1005"
| "msg_code C2S_LEAVE_ROOM = 1006"
| "msg_code S2C_ROOM_LEFT = 1007"
| "msg_code S2C_ERROR = 1008"

lemma msg_code_inj [simp]: "msg_code a = msg_code b \<longleftrightarrow> a = b"
  by (cases a; cases b) simp_all

text \<open>The types are ordered by their values.\<close>

instantiation MsgType :: linorder
begin

definition less_eq_MsgType :: "MsgType \<Rightarrow> MsgType \<Rightarrow> bool" where
  "less_eq_MsgType a b \<longleftrightarrow> msg_code a \<le> msg_code b"

definition less_MsgType :: "MsgType \<Rightarrow> MsgType \<Rightarrow> bool" where
  "less_MsgType a b \<longleftrightarrow> msg_code a < msg_code b"

instance
proof
  fix a b c :: MsgType
  show "a < b \<longleftrightarrow> a \<le> b \<and> \<not> b \<le> a" by (auto simp: less_eq_MsgType_def less_MsgType_def less_le)
  show "a \<le> a" by (simp add: less_eq_MsgType_def)
  show "a \<le> b \<Longrightarrow> b \<le> c \<Longrightarrow> a \<le> c" by (simp add: less_eq_MsgType_def)
  show "a \<le> b \<Longrightarrow> b \<le> a \<Longrightarrow> a = b" by (metis less_eq_MsgType_def antisym msg_code_inj)
  show "a \<le> b \<or> b \<le> a" by (auto simp: less_eq_MsgType_def)
qed

end

section \<open>Sizes\<close>

text \<open>\<open>sizeof\<close> of the packed structs.\<close>

definition sizeof_TypedHeader :: nat where "sizeof_TypedHeader = 4"
definition sizeof_RoomInfo :: nat where "sizeof_RoomInfo = 77"
definition sizeof_S2C_ROOM_LIST :: nat where "sizeof_S2C_ROOM_LIST = 8"
definition sizeof_C2S_CREATE_ROOM :: nat where "sizeof_C2S_CREATE_ROOM = 72"
definition sizeof_S2C_ROOM_CREATED :: nat where "sizeof_S2C_ROOM_CREATED = 9"
definition sizeof_C2S_JOIN_ROOM :: nat where "sizeof_C2S_JOIN_ROOM = 8"
definition sizeof_S2C_ROOM_JOINED :: nat where "sizeof_S2C_ROOM_JOINED = 9"
definition sizeof_C2S_LEAVE_ROOM :: nat where "sizeof_C2S_LEAVE_ROOM = 4"
definition sizeof_S2C_ROOM_LEFT :: nat where "sizeof_S2C_ROOM_LEFT = 5"
definition sizeof_S2C_ERROR :: nat where "sizeof_S2C_ERROR = 260"

lemmas sizes = sizeof_TypedHeader_def sizeof_RoomInfo_def sizeof_S2C_ROOM_LIST_def sizeof_C2S_CREATE_ROOM_def
  sizeof_S2C_ROOM_CREATED_def sizeof_C2S_JOIN_ROOM_def sizeof_S2C_ROOM_JOINED_def sizeof_C2S_LEAVE_ROOM_def
  sizeof_S2C_ROOM_LEFT_def sizeof_S2C_ERROR_def

section \<open>Byte images\<close>

definition msg_header :: "uint16_t \<Rightarrow> MsgType \<Rightarrow> byte list" where
  "msg_header sz t = put16 sz @ put16 (msg_code t)"

fun status_byte :: "RoomStatus \<Rightarrow> byte" where
  "status_byte WAITING = 0"
| "status_byte PLAYING = 1"

text \<open>A string literal as its characters.\<close>

definition str :: "string \<Rightarrow> byte list" where
  "str s = map of_char s"

text \<open>
  The two assignments to a \<open>char\<close> array of a message: \<open>strncpy_s\<close> with the count
  \<open>sizeof - 1\<close> and the final NUL.
\<close>

definition fill_text :: "byte list \<Rightarrow> byte list \<Rightarrow> byte list" where
  "fill_text arr s = (strncpy_s arr s (length arr - 1))[length arr - 1 := 0]"

lemma length_msg_header [simp]: "length (msg_header sz t) = 4"
  by (simp add: msg_header_def)

lemma length_fill_text [simp]: "arr \<noteq> [] \<Longrightarrow> length (fill_text arr s) = length arr"
  by (simp add: fill_text_def length_strncpy_s)

text \<open>Reading the text back gives the string, cut at the array's size.\<close>

lemma fill_text_eq:
  fixes arr s :: "byte list"
  assumes "arr \<noteq> []"
  defines "t \<equiv> take (length arr - 1) (takeWhile (\<lambda>c. c \<noteq> 0) s)"
  shows "\<exists>rest. fill_text arr s = t @ 0 # rest"
proof -
  let ?n = "length arr - 1"
  have e: "strncpy_s arr s ?n = t @ 0 # drop (length t + 1) arr"
    by (simp add: strncpy_s_def t_def Let_def)
  have "length t \<le> ?n" by (simp add: t_def)
  then have "(t @ 0 # drop (length t + 1) arr)[?n := 0] = t @ (0 # drop (length t + 1) arr)[?n - length t := 0]"
    by (simp add: list_update_append)
  moreover have "\<exists>rest. (0 # drop (length t + 1) arr)[?n - length t := 0] = 0 # rest"
    by (cases "?n - length t") simp_all
  ultimately show ?thesis unfolding fill_text_def e by metis
qed

lemma c_str_fill_text:
  assumes "arr \<noteq> []"
  shows "c_str (fill_text arr s @ rest) = Inr (take (length arr - 1) (takeWhile (\<lambda>c. c \<noteq> 0) s))"
proof -
  obtain r where "fill_text arr s = take (length arr - 1) (takeWhile (\<lambda>c. c \<noteq> 0) s) @ 0 # r"
    using fill_text_eq [OF assms] by blast
  moreover have "0 \<notin> set (take (length arr - 1) (takeWhile (\<lambda>c. c \<noteq> 0) s))"
    by (auto dest!: in_set_takeD set_takeWhileD)
  ultimately show ?thesis by (simp add: c_str_app)
qed

end
