(* ===== verification/CentralizedServer.thy ===== *)
theory CentralizedServer
  imports IOCPLifecycle RoomManager Protocol
begin

text \<open>
  \<open>CCentralizedServer\<close> (\<open>CentralizedServer.h\<close>, \<open>CentralizedServer.cpp\<close>): the game logic that
  takes network events from the queue, keeps the players and rooms, and answers through
  \<open>RequestSendMsg\<close>.  The message buffers on the stack are not initialised by the code;
  \<open>junk\<close> is what they hold.
\<close>

section \<open>State\<close>

record CCentralizedServer =
  ct_network :: CIOCPServer
  ct_rooms :: CRoomManager
  ct_running :: bool
  ct_store :: "CPlayer list"                       \<comment> \<open>the players, by address\<close>
  ct_players :: "(int64_t \<times> player_ptr) list"

definition CCentralizedServer_new :: "int32_t \<Rightarrow> CCentralizedServer" where
  "CCentralizedServer_new maxClients =
     \<lparr>ct_network = CIOCPServer_new maxClients Centralized, ct_rooms = CRoomManager_new, ct_running = False,
      ct_store = [], ct_players = []\<rparr>"

definition player_at :: "CCentralizedServer \<Rightarrow> player_ptr \<Rightarrow> CPlayer res" where
  "player_at st p = (if p < length (ct_store st) then Inr (ct_store st ! p) else Inl NullDeref)"

text \<open>\<open>Start\<close> has no return statement on its successful path, after the game thread is started.\<close>

definition ct_Start ::
  "(size_t \<Rightarrow> byte list option) \<Rightarrow> os \<Rightarrow> CCentralizedServer \<Rightarrow> (bool \<times> CCentralizedServer) res" where
  "ct_Start alloc os st =
     (let st = st\<lparr>ct_running := True\<rparr> in
      andThen (Start alloc os (ct_network st)) (\<lambda>(started, net).
      let st = st\<lparr>ct_network := net\<rparr> in
      if \<not> started then Inr (False, st) else Inl MissingReturn))"

definition ct_Stop :: "CCentralizedServer \<Rightarrow> CCentralizedServer" where
  "ct_Stop st = (if \<not> ct_running st then st else st\<lparr>ct_running := False\<rparr>)"

definition ct_destroy :: "CCentralizedServer \<Rightarrow> CCentralizedServer res" where
  "ct_destroy st =
     (let st = ct_Stop st in
      andThen (Disconnect (ct_network st)) (\<lambda>net. Inr (st\<lparr>ct_network := net\<rparr>)))"

section \<open>Players\<close>

definition GetPlayer :: "CCentralizedServer \<Rightarrow> int64_t \<Rightarrow> player_ptr option" where
  "GetPlayer st sessionId = map_of (ct_players st) sessionId"

definition ct_AddPlayer :: "CCentralizedServer \<Rightarrow> player_ptr \<Rightarrow> CCentralizedServer res" where
  "ct_AddPlayer st p =
     andThen (player_at st p) (\<lambda>player.
       Inr (st\<lparr>ct_players := AList.update (GetSessionId player) p (ct_players st)\<rparr>))"

definition ct_RemovePlayer :: "CCentralizedServer \<Rightarrow> int64_t \<Rightarrow> CCentralizedServer" where
  "ct_RemovePlayer st sessionId = st\<lparr>ct_players := AList.delete sessionId (ct_players st)\<rparr>"

section \<open>Sending\<close>

text \<open>\<open>_networkServer->RequestSendMsg(player->GetSessionId(), data, length)\<close>\<close>

definition send_to :: "os \<Rightarrow> CCentralizedServer \<Rightarrow> player_ptr \<Rightarrow> byte list \<Rightarrow> int32_t \<Rightarrow> CCentralizedServer res" where
  "send_to os st p data len =
     andThen (player_at st p) (\<lambda>player.
     andThen (RequestSendMsg os (ct_network st) (GetSessionId player) data len) (\<lambda>net.
     Inr (st\<lparr>ct_network := net\<rparr>)))"

definition room_info :: "CRoom \<Rightarrow> byte list" where
  "room_info rm =
     put32 (rm_roomId rm) @ fill_text (replicate 64 0) (rm_title rm) @
     put32 (rm_currentPlayers rm) @ put32 (rm_maxPlayers rm) @ [status_byte (rm_status rm)]"

text \<open>The rooms behind the pointers of a list.\<close>

fun deref_rooms :: "CRoomManager \<Rightarrow> room_ptr list \<Rightarrow> CRoom list res" where
  "deref_rooms m [] = Inr []"
| "deref_rooms m (r # rs) =
     andThen (room_at m r) (\<lambda>room. andThen (deref_rooms m rs) (\<lambda>rooms. Inr (room # rooms)))"

text \<open>The variable-length message: \<open>msgSize\<close> is a \<open>size_t\<close>, the header holds it as \<open>uint16_t\<close>.\<close>

definition room_list_size :: "CRoom list \<Rightarrow> size_t" where
  "room_list_size rooms = of_nat sizeof_S2C_ROOM_LIST + of_nat sizeof_RoomInfo * of_nat (length rooms)"

definition room_list_msg :: "CRoom list \<Rightarrow> byte list" where
  "room_list_msg rooms =
     msg_header (ucast (room_list_size rooms)) S2C_ROOM_LIST @ put32 (of_nat (length rooms)) @
     concat (map room_info rooms)"

definition SendRoomList :: "os \<Rightarrow> CCentralizedServer \<Rightarrow> player_ptr \<Rightarrow> CCentralizedServer res" where
  "SendRoomList os st p =
     andThen (deref_rooms (ct_rooms st) (GetRoomList (ct_rooms st))) (\<lambda>rooms.
     send_to os st p (room_list_msg rooms) (ucast (room_list_size rooms)))"

definition room_reply :: "MsgType \<Rightarrow> nat \<Rightarrow> int32_t \<Rightarrow> bool \<Rightarrow> byte list" where
  "room_reply t sz roomId success =
     msg_header (of_nat sz) t @ put32 roomId @ [if success then 1 else 0]"

definition SendRoomCreated :: "os \<Rightarrow> CCentralizedServer \<Rightarrow> player_ptr \<Rightarrow> int32_t \<Rightarrow> bool \<Rightarrow> CCentralizedServer res" where
  "SendRoomCreated os st p roomId success =
     send_to os st p (room_reply S2C_ROOM_CREATED sizeof_S2C_ROOM_CREATED roomId success)
       (of_nat sizeof_S2C_ROOM_CREATED)"

definition SendRoomJoined :: "os \<Rightarrow> CCentralizedServer \<Rightarrow> player_ptr \<Rightarrow> int32_t \<Rightarrow> bool \<Rightarrow> CCentralizedServer res" where
  "SendRoomJoined os st p roomId success =
     send_to os st p (room_reply S2C_ROOM_JOINED sizeof_S2C_ROOM_JOINED roomId success)
       (of_nat sizeof_S2C_ROOM_JOINED)"

definition room_left_msg :: "bool \<Rightarrow> byte list" where
  "room_left_msg success =
     msg_header (of_nat sizeof_S2C_ROOM_LEFT) S2C_ROOM_LEFT @ [if success then 1 else 0]"

definition SendRoomLeft :: "os \<Rightarrow> CCentralizedServer \<Rightarrow> player_ptr \<Rightarrow> bool \<Rightarrow> CCentralizedServer res" where
  "SendRoomLeft os st p success =
     send_to os st p (room_left_msg success) (of_nat sizeof_S2C_ROOM_LEFT)"

definition error_msg :: "byte list \<Rightarrow> byte list \<Rightarrow> byte list" where
  "error_msg junk message =
     msg_header (of_nat sizeof_S2C_ERROR) S2C_ERROR @ fill_text junk message"

definition SendError :: "os \<Rightarrow> byte list \<Rightarrow> CCentralizedServer \<Rightarrow> player_ptr \<Rightarrow> byte list \<Rightarrow> CCentralizedServer res" where
  "SendError os junk st p message = send_to os st p (error_msg junk message) (of_nat sizeof_S2C_ERROR)"

section \<open>Handlers\<close>

definition HandleRequestRoomList :: "os \<Rightarrow> CCentralizedServer \<Rightarrow> player_ptr \<Rightarrow> CCentralizedServer res" where
  "HandleRequestRoomList os st p = SendRoomList os st p"

text \<open>
  \<open>msg->title\<close> starts at byte 4 and is read up to the first NUL, \<open>msg->maxPlayers\<close> at byte 68.
  \<open>CreateRoom\<close> never returns a null pointer, so the last branch of the code has no case here.
\<close>

definition HandleCreateRoom ::
  "os \<Rightarrow> byte list \<Rightarrow> CCentralizedServer \<Rightarrow> player_ptr \<Rightarrow> byte list \<Rightarrow> CCentralizedServer res" where
  "HandleCreateRoom os junk st p data =
     andThen (c_str (drop 4 data)) (\<lambda>title.
     andThen (read32 data 68) (\<lambda>maxPlayers.
     if title = [] \<or> sint maxPlayers < 2 \<or> 10 < sint maxPlayers
     then andThen (SendRoomCreated os st p (- 1) False) (\<lambda>st.
          SendError os junk st p (str ''Invalid room parameters''))
     else
       andThen (FindRoomByTitle (ct_rooms st) title) (\<lambda>existing.
       if existing \<noteq> None
       then andThen (SendRoomCreated os st p (- 1) False) (\<lambda>st.
            SendError os junk st p (str ''Room title already exists''))
       else
         andThen (CreateRoom (ct_rooms st) title maxPlayers) (\<lambda>(room, m).
         andThen (room_at m room) (\<lambda>r.
         andThen (JoinRoom m (rm_roomId r) (Some p)) (\<lambda>(joinSuccess, m).
         let st = st\<lparr>ct_rooms := m\<rparr> in
         andThen (SendRoomCreated os st p (rm_roomId r) joinSuccess) (\<lambda>st.
         if \<not> joinSuccess
         then SendError os junk st p (str ''Failed to join created room'')
         else Inr st)))))))"

definition HandleJoinRoom ::
  "os \<Rightarrow> byte list \<Rightarrow> CCentralizedServer \<Rightarrow> player_ptr \<Rightarrow> byte list \<Rightarrow> CCentralizedServer res" where
  "HandleJoinRoom os junk st p data =
     andThen (read32 data 4) (\<lambda>roomId.
     andThen (JoinRoom (ct_rooms st) roomId (Some p)) (\<lambda>(success, m).
     let st = st\<lparr>ct_rooms := m\<rparr> in
     andThen (SendRoomJoined os st p roomId success) (\<lambda>st.
     if \<not> success then SendError os junk st p (str ''Failed to join room'') else Inr st)))"

definition HandleLeaveRoom :: "os \<Rightarrow> CCentralizedServer \<Rightarrow> player_ptr \<Rightarrow> CCentralizedServer res" where
  "HandleLeaveRoom os st p =
     andThen (LeaveRoom (ct_rooms st) (Some p)) (\<lambda>(success, m).
     SendRoomLeft os (st\<lparr>ct_rooms := m\<rparr>) p success)"

section \<open>Dispatch of network events\<close>

definition DispatchClientConnected :: "os \<Rightarrow> CCentralizedServer \<Rightarrow> int64_t \<Rightarrow> CCentralizedServer res" where
  "DispatchClientConnected os st sessionId =
     (let p = length (ct_store st); st = st\<lparr>ct_store := ct_store st @ [CPlayer_new sessionId]\<rparr> in
      andThen (ct_AddPlayer st p) (\<lambda>st. SendRoomList os st p))"

definition DispatchClientDisconnected :: "CCentralizedServer \<Rightarrow> int64_t \<Rightarrow> CCentralizedServer res" where
  "DispatchClientDisconnected st sessionId =
     (case GetPlayer st sessionId of
        None \<Rightarrow> Inr st
      | Some p \<Rightarrow>
          andThen (LeaveRoom (ct_rooms st) (Some p)) (\<lambda>(_, m).
          Inr (ct_RemovePlayer (st\<lparr>ct_rooms := m\<rparr>) sessionId)))"

definition DispatchDataReceived ::
  "os \<Rightarrow> byte list \<Rightarrow> CCentralizedServer \<Rightarrow> int64_t \<Rightarrow> byte list \<Rightarrow> CCentralizedServer res" where
  "DispatchDataReceived os junk st sessionId data =
     (case GetPlayer st sessionId of
        None \<Rightarrow> Inr st
      | Some p \<Rightarrow>
          if length data < sizeof_TypedHeader then Inr st
          else
            andThen (read16 data 0) (\<lambda>sz.
            if unat sz \<noteq> length data then Inr st
            else
              andThen (read16 data 2) (\<lambda>type.
              if type = msg_code C2S_REQUEST_ROOM_LIST
              then (if sizeof_TypedHeader \<le> length data then HandleRequestRoomList os st p else Inr st)
              else if type = msg_code C2S_CREATE_ROOM
              then (if sizeof_C2S_CREATE_ROOM \<le> length data then HandleCreateRoom os junk st p data else Inr st)
              else if type = msg_code C2S_JOIN_ROOM
              then (if sizeof_C2S_JOIN_ROOM \<le> length data then HandleJoinRoom os junk st p data else Inr st)
              else if type = msg_code C2S_LEAVE_ROOM
              then HandleLeaveRoom os st p
              else Inr st)))"

definition dispatch_event :: "os \<Rightarrow> byte list \<Rightarrow> CCentralizedServer \<Rightarrow> NetworkEvent \<Rightarrow> CCentralizedServer res" where
  "dispatch_event os junk st event =
     (case ev_type event of
        CONNECTED \<Rightarrow> DispatchClientConnected os st (ev_sessionId event)
      | DISCONNECTED \<Rightarrow> DispatchClientDisconnected st (ev_sessionId event)
      | RECEIVED \<Rightarrow> DispatchDataReceived os junk st (ev_sessionId event) (ev_data event))"

text \<open>
  The inner loop of \<open>GameLogicThread\<close>, which takes events until the queue is empty; answers
  that fail add events.  The fuel bounds the number of events taken.
\<close>

fun event_loop :: "nat \<Rightarrow> os \<Rightarrow> byte list \<Rightarrow> CCentralizedServer \<Rightarrow> CCentralizedServer res" where
  "event_loop 0 os junk st = Inl OutOfFuel"
| "event_loop (Suc fuel) os junk st =
     (case PopNetworkEvent (ct_network st) of
        None \<Rightarrow> Inr st
      | Some (event, net) \<Rightarrow>
          andThen (dispatch_event os junk (st\<lparr>ct_network := net\<rparr>) event) (\<lambda>st. event_loop fuel os junk st))"

text \<open>Each session that is connected can be reported as disconnected once more.\<close>

definition valid_sessions :: "CIOCPServer \<Rightarrow> nat" where
  "valid_sessions srv = length (filter (\<lambda>so. case so of None \<Rightarrow> False | Some s \<Rightarrow> cs_valid s) (srv_sessions srv))"

definition event_fuel :: "CIOCPServer \<Rightarrow> nat" where
  "event_fuel srv = length (srv_eventQueue srv) + 2 * valid_sessions srv + 1"

text \<open>One iteration of the outer loop; \<open>ProcessGameLogic\<close> is empty.\<close>

definition ProcessGameLogic :: "CCentralizedServer \<Rightarrow> CCentralizedServer" where
  "ProcessGameLogic st = st"

definition game_tick :: "os \<Rightarrow> byte list \<Rightarrow> CCentralizedServer \<Rightarrow> CCentralizedServer res" where
  "game_tick os junk st =
     (if \<not> ct_running st then Inr st
      else andThen (event_loop (event_fuel (ct_network st)) os junk st) (\<lambda>st. Inr (ProcessGameLogic st)))"

end
