(* ===== verification/GameLogic.thy ===== *)
theory GameLogic
  imports Reports CentralizedServer
begin

text \<open>
  The lemmas on the game logic server: the invariant that ties players, rooms and network
  together, that every dispatch keeps it and returns, and that the event loop ends.
\<close>

section \<open>Room views\<close>

lemma in_join: "spec_join i p rs = (b, rs') \<Longrightarrow> in_some_room rs' q \<Longrightarrow> in_some_room rs q \<or> q = p"
  by (auto simp: spec_join_def in_some_room_def list_ex_iff split: if_splits; blast)

lemma in_leave: "spec_leave p rs = (b, rs') \<Longrightarrow> in_some_room rs' q \<Longrightarrow> in_some_room rs q"
  using set_remove1_subset [of p] by (auto simp: spec_leave_def in_some_room_def list_ex_iff split: if_splits; blast)

lemma in_create: "in_some_room (spec_create i t mx rs) q = in_some_room rs q"
  by (simp add: spec_create_def in_some_room_def)

lemma left_all_rooms:
  assumes "mgr_ok m" "spec_leave p (views m) = (b, rs')" shows "\<not> in_some_room rs' p"
proof -
  have "distinct (rv_players v)" if "v \<in> set (views m)" for v
    using that mgr_okD(2) [OF assms(1)] by (auto simp: views_def view_of_def room_ok_def)
  then show ?thesis
    using assms(2) by (auto simp: spec_leave_def in_some_room_def list_ex_iff split: if_splits)
qed

section \<open>The events still to come\<close>

lemma length_filter_update:
  "i < length xs \<Longrightarrow> length (filter P (xs[i := x])) + (if P (xs ! i) then 1 else 0) =
     length (filter P xs) + (if P x then 1 else 0)"
proof (induction xs arbitrary: i)
  case (Cons y ys)
  then show ?case by (cases i) auto
qed simp

lemma valid_sessions_set:
  assumes "session_at srv i = Some s"
  shows "valid_sessions (set_session srv i t) + (if cs_valid s then 1 else 0) =
    valid_sessions srv + (if cs_valid t then 1 else 0)"
  using length_filter_update [of i "srv_sessions srv" "\<lambda>so. case so of None \<Rightarrow> False | Some s \<Rightarrow> cs_valid s" "Some t"]
    assms session_at_Some_less [OF assms]
  by (simp add: valid_sessions_def set_session_def session_at_def)

lemma valid_sessions_frame [simp]:
  "valid_sessions (syscall c srv) = valid_sessions srv"
  "valid_sessions (PushNetworkEvent srv e) = valid_sessions srv"
  "valid_sessions (srv\<lparr>srv_pendingDisconStack := p\<rparr>) = valid_sessions srv"
  "valid_sessions (srv\<lparr>srv_eventQueue := q\<rparr>) = valid_sessions srv"
  by (simp_all add: valid_sessions_def)

definition backlog :: "CIOCPServer \<Rightarrow> nat" where
  "backlog srv = length (srv_eventQueue srv) + 2 * valid_sessions srv"

lemma backlog_frame [simp]: "backlog (syscall c srv) = backlog srv"
  by (simp add: backlog_def)

lemma backlog_set:
  "session_at srv i = Some s \<Longrightarrow> cs_valid t = cs_valid s \<Longrightarrow> backlog (set_session srv i t) = backlog srv"
  using valid_sessions_set [of srv i s t] by (simp add: backlog_def)

text \<open>
  The network owes no more reports than before, and what it has reported meanwhile are
  disconnections.
\<close>

definition quiet :: "CIOCPServer \<Rightarrow> CIOCPServer \<Rightarrow> bool" where
  "quiet srv srv' \<longleftrightarrow> backlog srv' \<le> backlog srv \<and>
     (\<exists>es. srv_eventQueue srv' = srv_eventQueue srv @ es \<and> list_all (\<lambda>e. ev_type e = DISCONNECTED) es)"

lemma quiet_refl [simp]: "quiet srv srv"
  by (simp add: quiet_def)

lemma quiet_same: "backlog srv' = backlog srv \<Longrightarrow> srv_eventQueue srv' = srv_eventQueue srv \<Longrightarrow> quiet srv srv'"
  by (simp add: quiet_def)

lemma quiet_trans: "quiet a b \<Longrightarrow> quiet b c \<Longrightarrow> quiet a c"
  by (auto simp: quiet_def)

lemma quiet_disconnected:
  assumes "session_at srv i = Some s" "cs_valid s" shows "quiet srv (disconnected srv i s)"
proof -
  have "valid_sessions (disconnected srv i s) = valid_sessions (set_session srv i (closed_session s))"
    by (simp add: disconnected_def Let_def set_session_syscall)
  then have "valid_sessions (disconnected srv i s) + 1 = valid_sessions srv"
    using valid_sessions_set [OF assms(1), of "closed_session s"] assms(2) by simp
  then show ?thesis by (simp add: quiet_def backlog_def)
qed

lemma quiet_Disconnect: "quiet srv (snd (DisconnectSessionInternal srv i))"
proof (cases "\<exists>s. session_at srv i = Some s \<and> cs_valid s")
  case True
  then show ?thesis using quiet_disconnected by (auto simp: Disconnect_valid)
next
  case False
  then show ?thesis by (simp add: Disconnect_invalid)
qed

interpretation quiet: send_effect "\<lambda>_. quiet"
proof
  show "quiet a b \<Longrightarrow> quiet b c \<Longrightarrow> quiet a c" for a b c by (rule quiet_trans)
  show "session_at a i = Some s \<Longrightarrow> cs_sessionId t = cs_sessionId s \<Longrightarrow> cs_valid t = cs_valid s \<Longrightarrow>
      quiet a (set_session a i t)" for a i s t
    by (rule quiet_same) (simp_all add: backlog_set)
qed (simp_all add: quiet_same quiet_Disconnect)

section \<open>What the game thread does to the network\<close>

text \<open>One message to a player whose session id is in \<open>ids\<close>.\<close>

definition send_step :: "os \<Rightarrow> int64_t set \<Rightarrow> CIOCPServer \<Rightarrow> CIOCPServer \<Rightarrow> bool" where
  "send_step os ids srv srv' \<longleftrightarrow> (\<exists>sid data len. sid \<in> ids \<and>
     (unat (scast len :: size_t) \<le> length data \<or> 65536 \<le> unat (scast len :: size_t)) \<and>
     RequestSendMsg os srv sid data len = Inr srv')"

abbreviation sends :: "os \<Rightarrow> int64_t set \<Rightarrow> CIOCPServer \<Rightarrow> CIOCPServer \<Rightarrow> bool" where
  "sends os ids \<equiv> (send_step os ids)\<^sup>*\<^sup>*"

lemma send_step_effect:
  assumes "send_effect (\<lambda>_. E)" "srv_ok srv" "send_step os ids srv srv'"
  shows "srv_ok srv' \<and> E srv srv'"
proof -
  obtain sid data len where run: "RequestSendMsg os srv sid data len = Inr srv'"
    and mem: "unat (scast len :: size_t) \<le> length data \<or> 65536 \<le> unat (scast len :: size_t)"
    using assms(3) unfolding send_step_def by blast
  show ?thesis
  proof (cases "FindSession srv sid")
    case None
    then show ?thesis using run assms(2) send_effect.effect_refl [OF assms(1)] by (simp add: RequestSendMsg_def)
  next
    case (Some i)
    then show ?thesis using send_effect.RequestSendMsg_runs [OF assms(1,2) mem Some, of os] run by simp
  qed
qed

lemma sends_effect:
  assumes E: "send_effect (\<lambda>_. E)" and run: "sends os ids srv srv'" and ok: "srv_ok srv"
  shows "srv_ok srv' \<and> E srv srv'"
  using run
proof induction
  case base
  then show ?case using ok send_effect.effect_refl [OF E] by simp
next
  case (step a b)
  then show ?case using send_step_effect [OF E _ step(2)] send_effect.effect_trans [OF E] by blast
qed

lemmas sends_quiet = sends_effect [OF quiet.send_effect_axioms]
lemmas sends_reports = sends_effect [OF report.send_effect_axioms]

lemma sends_steps:
  assumes "sends os ids srv srv'" "\<And>sid. sid \<in> ids \<Longrightarrow> ExtractUniqueId sid \<noteq> 0"
  shows "(server_step os)\<^sup>*\<^sup>* srv srv'"
  using assms(1)
proof (rule rtranclp_mono [THEN predicate2D, rotated])
  show "send_step os ids \<le> server_step os"
    using assms(2) step_send unfolding send_step_def by blast
qed

lemma sends_mono: "sends os ids srv srv' \<Longrightarrow> ids \<subseteq> ids' \<Longrightarrow> sends os ids' srv srv'"
  by (erule rtranclp_mono [THEN predicate2D, rotated]) (unfold send_step_def, blast)

section \<open>The invariant\<close>

text \<open>
  Players are registered under the id of their session, and whoever is in a room is
  registered.
\<close>

definition game_ok :: "CCentralizedServer \<Rightarrow> bool" where
  "game_ok st \<longleftrightarrow> srv_ok (ct_network st) \<and> mgr_ok (ct_rooms st) \<and> distinct (map fst (ct_players st)) \<and>
     (\<forall>(sid, p) \<in> set (ct_players st). p < length (ct_store st) \<and> pl_sessionId (ct_store st ! p) = sid) \<and>
     (\<forall>p. in_some_room (views (ct_rooms st)) p \<longrightarrow> p \<in> snd ` set (ct_players st))"

text \<open>Only the network has changed, by messages to players.\<close>

definition player_ids :: "CCentralizedServer \<Rightarrow> int64_t set" where
  "player_ids st = pl_sessionId ` set (ct_store st)"

definition game_frame :: "os \<Rightarrow> CCentralizedServer \<Rightarrow> CCentralizedServer \<Rightarrow> bool" where
  "game_frame os st st' \<longleftrightarrow>
     (\<exists>net. st' = st\<lparr>ct_network := net\<rparr> \<and> sends os (player_ids st) (ct_network st) net)"

lemma player_ids_frame [simp]:
  "player_ids (st\<lparr>ct_network := net\<rparr>) = player_ids st" "player_ids (st\<lparr>ct_rooms := m\<rparr>) = player_ids st"
  by (simp_all add: player_ids_def)

lemma game_frame_fields:
  assumes "game_frame os st st'"
  shows "ct_rooms st' = ct_rooms st" "ct_store st' = ct_store st" "ct_players st' = ct_players st"
    "ct_running st' = ct_running st" "sends os (player_ids st) (ct_network st) (ct_network st')"
  using assms by (auto simp: game_frame_def)

lemma game_ok_frame: "game_ok st \<Longrightarrow> game_frame os st st' \<Longrightarrow> game_ok st'"
  using game_frame_fields [of os st st'] sends_quiet [of os "player_ids st" "ct_network st" "ct_network st'"]
  by (simp add: game_ok_def)

lemma game_frame_trans: "game_frame os a b \<Longrightarrow> game_frame os b c \<Longrightarrow> game_frame os a c"
  by (auto simp: game_frame_def player_ids_def)

section \<open>Sending\<close>

lemma sint_32: "sint (w :: int32_t) = (uint w + 2147483648) mod 4294967296 - 2147483648"
  unfolding sint_uint signed_take_bit_eq_take_bit_shift take_bit_eq_mod by simp

lemma uint_scast_64: "uint (scast (w :: int32_t) :: size_t) = sint w mod 18446744073709551616"
  unfolding scast_eq uint_word_of_int by simp

text \<open>A negative \<open>int\<close> length becomes a huge \<open>size_t\<close>.\<close>

lemma scast_len: "unat (scast (w :: int32_t) :: size_t) = unat w \<or> 65536 \<le> unat (scast w :: size_t)"
proof -
  have u: "0 \<le> uint w" "uint w < 4294967296" using unsigned_less [of w] by simp_all
  show ?thesis
  proof (cases "uint w < 2147483648")
    case True
    have "(uint w + 2147483648) mod 4294967296 = uint w + 2147483648"
      by (rule mod_pos_pos_trivial) (use True u in linarith)+
    then have "sint w = uint w" unfolding sint_32 by linarith
    moreover have "uint w mod 18446744073709551616 = uint w"
      by (rule mod_pos_pos_trivial) (use u in linarith)+
    ultimately have "uint (scast w :: size_t) = uint w" unfolding uint_scast_64 by metis
    then show ?thesis unfolding unat_eq_nat_uint by metis
  next
    case False
    have "(uint w + 2147483648) mod 4294967296 = uint w - 2147483648"
      by (rule int_mod_pos_eq [where q = 1]) (use False u in linarith)+
    then have "sint w = uint w - 4294967296" unfolding sint_32 by linarith
    moreover have "(uint w - 4294967296) mod 18446744073709551616 = uint w - 4294967296 + 18446744073709551616"
      by (rule int_mod_pos_eq [where q = "- 1"]) (use False u in linarith)+
    ultimately have "uint (scast w :: size_t) = uint w - 4294967296 + 18446744073709551616"
      unfolding uint_scast_64 by metis
    then have "65536 \<le> uint (scast w :: size_t)" using u by linarith
    then show ?thesis unfolding unat_eq_nat_uint by linarith
  qed
qed

lemma length_fits:
  assumes "unat (w :: int32_t) \<le> length data"
  shows "unat (scast w :: size_t) \<le> length data \<or> 65536 \<le> unat (scast w :: size_t)"
  using scast_len [of w] assms by auto

lemma send_to_ok:
  assumes st: "game_ok st" and p: "p < length (ct_store st)" and len: "unat len \<le> length data"
  shows "\<exists>st'. send_to os st p data len = Inr st' \<and> game_frame os st st' \<and>
    RequestSendMsg os (ct_network st) (pl_sessionId (ct_store st ! p)) data len = Inr (ct_network st')"
proof -
  have srv: "srv_ok (ct_network st)" using st by (simp add: game_ok_def)
  note mem = length_fits [OF len]
  obtain net where net: "RequestSendMsg os (ct_network st) (pl_sessionId (ct_store st ! p)) data len = Inr net" "srv_ok net"
    using RequestSendMsg_total [OF srv mem, of os] by blast
  then have "send_step os (player_ids st) (ct_network st) net" using mem p unfolding send_step_def
    by (intro exI [of _ "pl_sessionId (ct_store st ! p)"] exI [of _ data] exI [of _ len])
      (simp add: player_ids_def)
  then show ?thesis using net p by (auto simp: send_to_def player_at_def GetSessionId_def game_frame_def)
qed

text \<open>The messages have the length that is passed with them.\<close>

lemma length_messages [simp]:
  "length (room_reply t sz i b) = 9" "length (room_left_msg b) = 5"
  "length junk = 256 \<Longrightarrow> length (error_msg junk m) = 260"
  "length (room_info r) = 77"
proof -
  show "length (error_msg junk m) = 260" if "length junk = 256"
  proof -
    have "junk \<noteq> []" using that by auto
    then show ?thesis using that by (simp add: error_msg_def)
  qed
qed (simp_all add: room_reply_def room_left_msg_def room_info_def)

lemma length_room_list_msg: "length (room_list_msg rooms) = 8 + 77 * length rooms"
  by (induction rooms) (simp_all add: room_list_msg_def)

lemma room_list_size_eq: "room_list_size rooms = of_nat (8 + 77 * length rooms)"
  by (simp add: room_list_size_def sizes)

lemma unat_of_nat_le: "unat (of_nat n :: 'w::len word) \<le> n"
  by (simp add: unat_of_nat take_bit_nat_less_eq_self)

lemma unat_ucast_le: "unat (ucast (w :: size_t) :: int32_t) \<le> unat w"
  by (simp add: unsigned_ucast_eq take_bit_nat_less_eq_self)

lemma room_list_len: "unat (ucast (room_list_size rooms) :: int32_t) \<le> length (room_list_msg rooms)"
  using unat_ucast_le [of "room_list_size rooms"] unat_of_nat_le [where 'w = 64, of "8 + 77 * length rooms"]
  unfolding room_list_size_eq length_room_list_msg by linarith

lemma deref_rooms_ok:
  "mgr_ok m \<Longrightarrow> set rs \<subseteq> set (mgr_roomList m) \<Longrightarrow> deref_rooms m rs = Inr (map (live m) rs)"
  by (induction rs) (auto simp: mgr_okD)

definition replies :: "os \<Rightarrow> CCentralizedServer \<Rightarrow> CCentralizedServer res \<Rightarrow> bool" where
  "replies os st r \<longleftrightarrow> (\<exists>st'. r = Inr st' \<and> game_frame os st st')"

lemma send_replies:
  "game_ok st \<Longrightarrow> p < length (ct_store st) \<Longrightarrow> unat len \<le> length data \<Longrightarrow> replies os st (send_to os st p data len)"
  using send_to_ok [of st p len data os] by (auto simp: replies_def)

lemma SendRoomList_eq:
  assumes "game_ok st"
  shows "SendRoomList os st p =
    (let rooms = map (live (ct_rooms st)) (mgr_roomList (ct_rooms st))
     in send_to os st p (room_list_msg rooms) (ucast (room_list_size rooms)))"
  using assms by (simp add: SendRoomList_def GetRoomList_def game_ok_def deref_rooms_ok Let_def)

lemma SendRoomList_ok:
  assumes "game_ok st" "p < length (ct_store st)"
  shows "replies os st (SendRoomList os st p)"
  unfolding SendRoomList_eq [OF assms(1)] Let_def by (rule send_replies [OF assms room_list_len])

lemma unat_sizes:
  "unat (of_nat sizeof_S2C_ROOM_CREATED :: int32_t) = 9" "unat (of_nat sizeof_S2C_ROOM_JOINED :: int32_t) = 9"
  "unat (of_nat sizeof_S2C_ROOM_LEFT :: int32_t) = 5" "unat (of_nat sizeof_S2C_ERROR :: int32_t) = 260"
  by (simp_all add: sizes)

lemma Send_ok:
  assumes "game_ok st" "p < length (ct_store st)"
  shows "replies os st (SendRoomCreated os st p i b)" "replies os st (SendRoomJoined os st p i b)"
    "replies os st (SendRoomLeft os st p b)" "length junk = 256 \<Longrightarrow> replies os st (SendError os junk st p m)"
  unfolding SendRoomCreated_def SendRoomJoined_def SendRoomLeft_def SendError_def
  by (rule send_replies [OF assms]; auto simp: unat_sizes)+

text \<open>Sending one answer after another.\<close>

lemma replies_andThen:
  assumes "replies os st r" "game_ok st"
    and "\<And>st'. game_ok st' \<Longrightarrow> ct_store st' = ct_store st \<Longrightarrow> replies os st' (k st')"
  shows "replies os st (andThen r k)"
proof -
  obtain st1 where 1: "r = Inr st1" "game_frame os st st1" using assms(1) by (auto simp: replies_def)
  obtain st2 where "k st1 = Inr st2" "game_frame os st1 st2"
    using assms(3) [OF game_ok_frame [OF assms(2) 1(2)] game_frame_fields(2) [OF 1(2)]] by (auto simp: replies_def)
  then show ?thesis using 1 game_frame_trans [OF 1(2)] by (auto simp: replies_def)
qed

lemma replies_self: "game_ok st \<Longrightarrow> replies os st (Inr st)"
  by (auto simp: replies_def game_frame_def game_ok_def intro!: exI [of _ "ct_network st"])

section \<open>Handlers\<close>

text \<open>A handler returns, keeps the invariant, and acts on the network by sending to players only.\<close>

definition handled :: "os \<Rightarrow> CCentralizedServer \<Rightarrow> CCentralizedServer res \<Rightarrow> bool" where
  "handled os st r \<longleftrightarrow> (\<exists>st'. r = Inr st' \<and> game_ok st' \<and> ct_store st' = ct_store st \<and> ct_players st' = ct_players st \<and>
     ct_running st' = ct_running st \<and> sends os (player_ids st) (ct_network st) (ct_network st') \<and>
     sint (mgr_roomIdCounter (ct_rooms st')) \<le> sint (mgr_roomIdCounter (ct_rooms st)) + 1)"

lemma replies_handled: "game_ok st \<Longrightarrow> replies os st r \<Longrightarrow> handled os st r"
  by (auto simp: replies_def handled_def game_ok_frame game_frame_fields)

lemma handled_rooms:
  assumes "game_ok (st\<lparr>ct_rooms := m\<rparr>)" "replies os (st\<lparr>ct_rooms := m\<rparr>) r"
    and "sint (mgr_roomIdCounter m) \<le> sint (mgr_roomIdCounter (ct_rooms st)) + 1"
  shows "handled os st r"
  using assms game_frame_fields [of os "st\<lparr>ct_rooms := m\<rparr>"] by (auto simp: replies_def handled_def game_ok_frame)

lemma game_ok_rooms:
  assumes "game_ok st" "mgr_ok m" "\<And>q. in_some_room (views m) q \<Longrightarrow> q \<in> snd ` set (ct_players st)"
  shows "game_ok (st\<lparr>ct_rooms := m\<rparr>)"
  using assms by (simp add: game_ok_def)

lemma HandleJoinRoom_ok:
  assumes st: "game_ok st" and p: "p < length (ct_store st)" "p \<in> snd ` set (ct_players st)"
    and junk: "length junk = 256" and data: "8 \<le> length data"
  shows "handled os st (HandleJoinRoom os junk st p data)"
proof -
  obtain roomId where read: "read32 data 4 = Inr roomId" using data by (simp add: read32_def)
  obtain b m where join: "JoinRoom (ct_rooms st) roomId (Some p) = Inr (b, m)" "mgr_ok m"
      "spec_join roomId p (views (ct_rooms st)) = (b, views m)" "mgr_roomIdCounter m = mgr_roomIdCounter (ct_rooms st)"
    using JoinRoom_refines [of "ct_rooms st" roomId p] st by (auto simp: game_ok_def)
  have ok: "game_ok (st\<lparr>ct_rooms := m\<rparr>)"
    using st p(2) in_join [OF join(3)] by (intro game_ok_rooms join(2)) (auto simp: game_ok_def)
  have "replies os (st\<lparr>ct_rooms := m\<rparr>) (andThen (SendRoomJoined os (st\<lparr>ct_rooms := m\<rparr>) p roomId b) (\<lambda>st.
      if \<not> b then SendError os junk st p (str ''Failed to join room'') else Inr st))"
    using p junk by (intro replies_andThen Send_ok ok) (auto intro: Send_ok replies_self)
  then show ?thesis using handled_rooms [OF ok] read join(1,4) by (simp add: HandleJoinRoom_def Let_def)
qed

lemma HandleLeaveRoom_ok:
  assumes st: "game_ok st" and p: "p < length (ct_store st)"
  shows "handled os st (HandleLeaveRoom os st p)"
proof -
  obtain b m where leave: "LeaveRoom (ct_rooms st) (Some p) = Inr (b, m)" "mgr_ok m"
      "spec_leave p (views (ct_rooms st)) = (b, views m)" "mgr_roomIdCounter m = mgr_roomIdCounter (ct_rooms st)"
    using LeaveRoom_refines [of "ct_rooms st" p] st by (auto simp: game_ok_def)
  have ok: "game_ok (st\<lparr>ct_rooms := m\<rparr>)"
    using st in_leave [OF leave(3)] by (intro game_ok_rooms leave(2)) (auto simp: game_ok_def)
  then show ?thesis
    using handled_rooms [OF ok Send_ok(3) [OF ok]] p leave(1,4) by (simp add: HandleLeaveRoom_def)
qed

text \<open>What creating a room does, by the checks of the handler.\<close>

lemma HandleCreateRoom_ok:
  assumes st: "game_ok st" and p: "p < length (ct_store st)" "p \<in> snd ` set (ct_players st)"
    and junk: "length junk = 256" and data: "72 \<le> length data" "c_str (drop 4 data) = Inr title"
    and cnt: "sint (mgr_roomIdCounter (ct_rooms st)) < 2 ^ 31 - 1"
  shows "handled os st (HandleCreateRoom os junk st p data)"
proof -
  obtain mx where read: "read32 data 68 = Inr mx" using data(1) by (simp add: read32_def)
  have refuse: "handled os st (andThen (SendRoomCreated os st p (- 1) False) (\<lambda>st. SendError os junk st p t))" for t
    using st p junk by (intro replies_handled replies_andThen Send_ok) (auto intro: Send_ok)
  have mgr: "mgr_ok (ct_rooms st)" using st by (simp add: game_ok_def)
  obtain e where e: "FindRoomByTitle (ct_rooms st) title = Inr e" using FindRoomByTitle_ok [OF mgr] by blast
  show ?thesis
  proof (cases "title = [] \<or> sint mx < 2 \<or> 10 < sint mx \<or> e \<noteq> None")
    case True
    then show ?thesis using data(2) read refuse e by (auto simp: HandleCreateRoom_def)
  next
    case False
    then have "0 \<le> sint mx" by auto
    then obtain r m1 where create: "CreateRoom (ct_rooms st) title mx = Inr (r, m1)" "mgr_ok m1"
        "views m1 = spec_create (mgr_roomIdCounter (ct_rooms st)) title mx (views (ct_rooms st))"
        "r \<in> set (mgr_roomList m1)" "mgr_roomIdCounter m1 = mgr_roomIdCounter (ct_rooms st) + 1"
      using CreateRoom_refines [OF mgr _ cnt] by blast
    obtain b m where join: "JoinRoom m1 (rm_roomId (live m1 r)) (Some p) = Inr (b, m)" "mgr_ok m"
        "spec_join (rm_roomId (live m1 r)) p (views m1) = (b, views m)"
        "mgr_roomIdCounter m = mgr_roomIdCounter m1"
      using JoinRoom_refines [OF create(2)] by blast
    have cnt': "sint (mgr_roomIdCounter m) \<le> sint (mgr_roomIdCounter (ct_rooms st)) + 1"
      using join(4) create(5) sint_next [OF cnt] by simp
    have ok: "game_ok (st\<lparr>ct_rooms := m\<rparr>)"
      using st p(2) in_join [OF join(3)] create(3) by (intro game_ok_rooms join(2)) (auto simp: game_ok_def in_create)
    have "replies os (st\<lparr>ct_rooms := m\<rparr>) (andThen (SendRoomCreated os (st\<lparr>ct_rooms := m\<rparr>) p (rm_roomId (live m1 r)) b) (\<lambda>st.
        if \<not> b then SendError os junk st p (str ''Failed to join created room'') else Inr st))"
      using p junk by (intro replies_andThen Send_ok ok) (auto intro: Send_ok replies_self)
    then show ?thesis
      using handled_rooms [OF ok] False data(2) read e create(1) mgr_okD(4) [OF create(2,4)] join(1) cnt'
      by (simp add: HandleCreateRoom_def Let_def)
  qed
qed

section \<open>Dispatch\<close>

text \<open>A create request whose title has no NUL up to the end of the message.\<close>

definition title_unterminated :: "byte list \<Rightarrow> bool" where
  "title_unterminated data \<longleftrightarrow> 72 \<le> length data \<and> read16 data 0 = Inr (of_nat (length data)) \<and>
     length data \<le> 65535 \<and> read16 data 2 = Inr (msg_code C2S_CREATE_ROOM) \<and> 0 \<notin> set (drop 4 data)"

lemma c_str_total: "0 \<in> set s \<Longrightarrow> \<exists>t. c_str s = Inr t"
  by (induction s) auto

lemma registered:
  assumes "game_ok st" "GetPlayer st sid = Some p"
  shows "p < length (ct_store st)" "pl_sessionId (ct_store st ! p) = sid" "p \<in> snd ` set (ct_players st)"
  using assms by (force simp: game_ok_def GetPlayer_def dest: map_of_SomeD)+

lemma DispatchDataReceived_ok:
  assumes st: "game_ok st" and junk: "length junk = 256"
    and cnt: "sint (mgr_roomIdCounter (ct_rooms st)) < 2 ^ 31 - 1"
  shows "if GetPlayer st sid \<noteq> None \<and> title_unterminated data
    then DispatchDataReceived os junk st sid data = Inl OutOfBounds
    else handled os st (DispatchDataReceived os junk st sid data)"
proof (cases "GetPlayer st sid")
  case None
  then show ?thesis using replies_handled [OF st replies_self [OF st]] by (simp add: DispatchDataReceived_def)
next
  case (Some p)
  note p = registered [OF st Some]
  have self: "handled os st (Inr st)" by (rule replies_handled [OF st replies_self [OF st]])
  show ?thesis
  proof (cases "length data < 4 \<or> read16 data 0 \<noteq> Inr (of_nat (length data)) \<or> 65535 < length data")
    case True
    have "DispatchDataReceived os junk st sid data = Inr st"
    proof (cases "length data < 4")
      case False
      then obtain sz where sz: "read16 data 0 = Inr sz" by (simp add: read16_def)
      have "unat sz \<le> 65535" using unsigned_less [of sz, where 'a = nat] by simp
      moreover have "sz = of_nat (length data)" if "unat sz = length data" using that [symmetric] by simp
      ultimately have "unat sz \<noteq> length data" using True False sz by auto
      then show ?thesis using Some sz False by (simp add: DispatchDataReceived_def sizes)
    qed (use Some in \<open>simp add: DispatchDataReceived_def sizes\<close>)
    then show ?thesis using True self by (auto simp: title_unterminated_def)
  next
    case False
    then have len: "\<not> length data < 4" "read16 data 0 = Inr (of_nat (length data))" "length data \<le> 65535"
      and u: "unat (of_nat (length data) :: uint16_t) = length data"
      by (simp_all add: unat_of_nat_small)
    obtain t where t: "read16 data 2 = Inr t" using len(1) by (simp add: read16_def)
    have d: "DispatchDataReceived os junk st sid data =
        (if t = msg_code C2S_REQUEST_ROOM_LIST then HandleRequestRoomList os st p
         else if t = msg_code C2S_CREATE_ROOM
         then (if 72 \<le> length data then HandleCreateRoom os junk st p data else Inr st)
         else if t = msg_code C2S_JOIN_ROOM
         then (if 8 \<le> length data then HandleJoinRoom os junk st p data else Inr st)
         else if t = msg_code C2S_LEAVE_ROOM then HandleLeaveRoom os st p else Inr st)"
      using Some len t u by (simp add: DispatchDataReceived_def sizes)
    have list: "handled os st (HandleRequestRoomList os st p)"
      using replies_handled [OF st SendRoomList_ok [OF st p(1)]] by (simp add: HandleRequestRoomList_def)
    show ?thesis
    proof (cases "t = msg_code C2S_CREATE_ROOM \<and> 72 \<le> length data")
      case create: True
      show ?thesis
      proof (cases "0 \<in> set (drop 4 data)")
        case True
        then obtain title where title: "c_str (drop 4 data) = Inr title" using c_str_total by blast
        then show ?thesis
          using HandleCreateRoom_ok [OF st p(1,3) junk _ title cnt, of os] create d True
          by (simp add: title_unterminated_def)
      next
        case False
        then have "HandleCreateRoom os junk st p data = Inl OutOfBounds"
          using c_str_no_nul by (simp add: HandleCreateRoom_def)
        then show ?thesis using False create d len t Some by (simp add: title_unterminated_def)
      qed
    next
      case other: False
      have "\<not> title_unterminated data" using other t by (auto simp: title_unterminated_def)
      moreover have "handled os st (DispatchDataReceived os junk st sid data)"
        unfolding d using other list self HandleJoinRoom_ok [OF st p(1,3) junk, of data os] HandleLeaveRoom_ok [OF st p(1), of os]
        by auto
      ultimately show ?thesis by simp
    qed
  qed
qed

text \<open>A new connection: the id is not registered yet.\<close>

lemma DispatchClientConnected_ok:
  assumes st: "game_ok st" and new: "GetPlayer st sid = None"
  shows "\<exists>st'. DispatchClientConnected os st sid = Inr st' \<and> game_ok st' \<and>
    ct_store st' = ct_store st @ [CPlayer_new sid] \<and> ct_players st' = ct_players st @ [(sid, length (ct_store st))] \<and>
    ct_rooms st' = ct_rooms st \<and> ct_running st' = ct_running st \<and>
    sends os (player_ids st') (ct_network st) (ct_network st')"
proof -
  let ?p = "length (ct_store st)"
  let ?st = "st\<lparr>ct_store := ct_store st @ [CPlayer_new sid], ct_players := ct_players st @ [(sid, ?p)]\<rparr>"
  have fresh: "sid \<notin> fst ` set (ct_players st)"
    using new by (simp add: GetPlayer_def map_of_eq_None_iff)
  have "\<forall>(s, p) \<in> set (ct_players ?st). p < length (ct_store ?st) \<and> pl_sessionId (ct_store ?st ! p) = s"
    using st by (auto simp: game_ok_def nth_append CPlayer_new_def)
  then have ok: "game_ok ?st" using st fresh by (auto simp: game_ok_def)
  have "DispatchClientConnected os st sid = SendRoomList os ?st ?p"
    using fresh by (simp add: DispatchClientConnected_def ct_AddPlayer_def player_at_def CPlayer_new_def GetSessionId_def
        update_fresh Let_def)
  moreover obtain st' where "SendRoomList os ?st ?p = Inr st'" "game_frame os ?st st'"
    using SendRoomList_ok [OF ok, of ?p os] by (auto simp: replies_def)
  moreover have "player_ids st' = player_ids ?st"
    using game_frame_fields(2) [OF calculation(3)] by (simp add: player_ids_def)
  ultimately show ?thesis using game_ok_frame [OF ok] game_frame_fields [of os ?st st'] by simp
qed

lemma DispatchClientDisconnected_ok:
  assumes st: "game_ok st"
  shows "\<exists>st'. DispatchClientDisconnected st sid = Inr st' \<and> game_ok st' \<and> GetPlayer st' sid = None \<and>
    ct_store st' = ct_store st \<and> (\<forall>p. GetPlayer st sid = Some p \<longrightarrow> \<not> in_some_room (views (ct_rooms st')) p) \<and>
    ct_players st' = AList.delete sid (ct_players st) \<and> ct_network st' = ct_network st \<and>
    ct_running st' = ct_running st \<and> mgr_roomIdCounter (ct_rooms st') = mgr_roomIdCounter (ct_rooms st)"
proof (cases "GetPlayer st sid")
  case None
  then have "AList.delete sid (ct_players st) = ct_players st"
    by (force simp: AList.delete_eq GetPlayer_def map_of_eq_None_iff filter_id_conv)
  then show ?thesis using st None by (simp add: DispatchClientDisconnected_def)
next
  case (Some p)
  obtain b m where leave: "LeaveRoom (ct_rooms st) (Some p) = Inr (b, m)" "mgr_ok m"
      "spec_leave p (views (ct_rooms st)) = (b, views m)" "mgr_roomIdCounter m = mgr_roomIdCounter (ct_rooms st)"
    using LeaveRoom_refines [of "ct_rooms st" p] st by (auto simp: game_ok_def)
  let ?st = "ct_RemovePlayer (st\<lparr>ct_rooms := m\<rparr>) sid"
  have out: "\<not> in_some_room (views m) p" using left_all_rooms [OF _ leave(3)] st by (simp add: game_ok_def)
  have only: "q = p" if "(sid, q) \<in> set (ct_players st)" for q
    using that Some st by (simp add: game_ok_def GetPlayer_def)
  have "q \<in> snd ` set (ct_players ?st)" if inq: "in_some_room (views m) q" for q
  proof -
    obtain s where s: "(s, q) \<in> set (ct_players st)"
      using in_leave [OF leave(3) inq] st by (force simp: game_ok_def)
    moreover have "s \<noteq> sid" using s only out inq by blast
    ultimately show ?thesis by (force simp: ct_RemovePlayer_def set_delete)
  qed
  moreover have "\<forall>(s, p) \<in> set (ct_players ?st). p < length (ct_store ?st) \<and> pl_sessionId (ct_store ?st ! p) = s"
    using st by (auto simp: game_ok_def ct_RemovePlayer_def set_delete)
  ultimately have "game_ok ?st"
    using st leave(2) by (simp add: game_ok_def ct_RemovePlayer_def distinct_delete)
  then show ?thesis
    using Some leave(1,4) out by (simp add: DispatchClientDisconnected_def ct_RemovePlayer_def GetPlayer_def delete_conv')
qed

section \<open>The event loop\<close>

text \<open>
  What the queue must satisfy: new connections have ids that are neither registered nor
  announced twice, no request has an unterminated title, and there are ids for new rooms.
\<close>

fun queue_ok :: "int64_t set \<Rightarrow> int \<Rightarrow> NetworkEvent list \<Rightarrow> bool" where
  "queue_ok known i [] \<longleftrightarrow> True"
| "queue_ok known i (e # es) \<longleftrightarrow>
     (case ev_type e of
        CONNECTED \<Rightarrow> ev_sessionId e \<notin> known \<and> queue_ok (insert (ev_sessionId e) known) i es
      | DISCONNECTED \<Rightarrow> queue_ok known i es
      | RECEIVED \<Rightarrow> \<not> title_unterminated (ev_data e) \<and> i < 2 ^ 31 - 1 \<and> queue_ok known (i + 1) es)"

lemma queue_ok_mono: "queue_ok known i es \<Longrightarrow> known' \<subseteq> known \<Longrightarrow> i' \<le> i \<Longrightarrow> queue_ok known' i' es"
proof (induction es arbitrary: known known' i i')
  case (Cons e es)
  show ?case
  proof (cases "ev_type e")
    case CONNECTED
    then show ?thesis
      using Cons.prems Cons.IH [of "insert (ev_sessionId e) known" i "insert (ev_sessionId e) known'" i'] by auto
  next
    case DISCONNECTED
    then show ?thesis using Cons.prems Cons.IH [of known i known' i'] by simp
  next
    case RECEIVED
    then show ?thesis using Cons.prems Cons.IH [of known "i + 1" known' "i' + 1"] by simp
  qed
qed simp

lemma queue_ok_append:
  "queue_ok known i es \<Longrightarrow> list_all (\<lambda>e. ev_type e = DISCONNECTED) ds \<Longrightarrow> queue_ok known i (es @ ds)"
proof (induction es arbitrary: known i)
  case Nil
  then show ?case by (induction ds) auto
next
  case (Cons e es)
  then show ?case by (cases "ev_type e") auto
qed

definition queue_fits :: "CCentralizedServer \<Rightarrow> bool" where
  "queue_fits st \<longleftrightarrow> queue_ok (fst ` set (ct_players st)) (sint (mgr_roomIdCounter (ct_rooms st)))
     (srv_eventQueue (ct_network st))"

lemma GetPlayer_None_iff: "GetPlayer st sid = None \<longleftrightarrow> sid \<notin> set (map fst (ct_players st))"
  by (simp add: GetPlayer_def map_of_eq_None_iff)

text \<open>
  One event that the handlers can take: a new id, no unterminated title from a registered
  player, and an id left for a new room.
\<close>

definition event_ok :: "CCentralizedServer \<Rightarrow> NetworkEvent \<Rightarrow> bool" where
  "event_ok st e \<longleftrightarrow>
     (case ev_type e of
        CONNECTED \<Rightarrow> GetPlayer st (ev_sessionId e) = None
      | DISCONNECTED \<Rightarrow> True
      | RECEIVED \<Rightarrow> \<not> (GetPlayer st (ev_sessionId e) \<noteq> None \<and> title_unterminated (ev_data e)) \<and>
          sint (mgr_roomIdCounter (ct_rooms st)) < 2 ^ 31 - 1)"

text \<open>It is handled, the registered ids follow the event, and players are sent messages.\<close>

lemma dispatch_event_runs:
  assumes st: "game_ok st" and junk: "length junk = 256" and e: "event_ok st e"
  shows "\<exists>st'. dispatch_event os junk st e = Inr st' \<and> game_ok st' \<and> ct_running st' = ct_running st \<and>
    sends os (player_ids st') (ct_network st) (ct_network st') \<and>
    set (map fst (ct_players st')) = replay [e] (set (map fst (ct_players st))) \<and>
    player_ids st' = player_ids st \<union> (if ev_type e = CONNECTED then {ev_sessionId e} else {}) \<and>
    sint (mgr_roomIdCounter (ct_rooms st')) \<le> sint (mgr_roomIdCounter (ct_rooms st)) + (if ev_type e = RECEIVED then 1 else 0)"
proof (cases "ev_type e")
  case CONNECTED
  then have new: "GetPlayer st (ev_sessionId e) = None" using e by (simp add: event_ok_def)
  from DispatchClientConnected_ok [OF st new, of os] show ?thesis
    using CONNECTED by (auto simp: dispatch_event_def player_ids_def CPlayer_new_def)
next
  case DISCONNECTED
  from DispatchClientDisconnected_ok [OF st, of "ev_sessionId e"] show ?thesis
    using DISCONNECTED by (auto simp: dispatch_event_def player_ids_def set_delete)
next
  case RECEIVED
  have "handled os st (DispatchDataReceived os junk st (ev_sessionId e) (ev_data e))"
    using DispatchDataReceived_ok [OF st junk, of "ev_sessionId e" "ev_data e" os] e RECEIVED
    by (auto simp: event_ok_def split: if_splits)
  then show ?thesis
    using RECEIVED by (auto simp: handled_def dispatch_event_def player_ids_def)
qed

text \<open>One event: the backlog shrinks and the rest of the queue stays fit.\<close>

lemma dispatch_event_ok:
  assumes st: "game_ok st" and junk: "length junk = 256" and fits: "queue_fits st"
    and q: "srv_eventQueue (ct_network st) = e # es"
  defines "st1 \<equiv> st\<lparr>ct_network := ct_network st\<lparr>srv_eventQueue := es\<rparr>\<rparr>"
  shows "\<exists>st'. dispatch_event os junk st1 e = Inr st' \<and> game_ok st' \<and> queue_fits st' \<and> ct_running st' = ct_running st \<and>
    backlog (ct_network st') < backlog (ct_network st)"
proof -
  let ?known = "set (map fst (ct_players st))" and ?i = "sint (mgr_roomIdCounter (ct_rooms st))"
  have st1: "game_ok st1" "ct_players st1 = ct_players st" "ct_rooms st1 = ct_rooms st" "ct_running st1 = ct_running st"
    "srv_eventQueue (ct_network st1) = es" "backlog (ct_network st1) < backlog (ct_network st)"
    using st q by (simp_all add: game_ok_def st1_def srv_ok_def backlog_def)
  have fit: "queue_ok ?known ?i (e # es)" using fits q by (simp add: queue_fits_def)
  then have "event_ok st1 e"
    using st1(2,3) by (auto simp: event_ok_def GetPlayer_None_iff split: NetworkEventType.splits)
  then obtain st' where s: "dispatch_event os junk st1 e = Inr st'" "game_ok st'" "ct_running st' = ct_running st1"
      "sends os (player_ids st') (ct_network st1) (ct_network st')"
      "set (map fst (ct_players st')) = replay [e] ?known"
      "sint (mgr_roomIdCounter (ct_rooms st')) \<le> ?i + (if ev_type e = RECEIVED then 1 else 0)"
    using dispatch_event_runs [OF st1(1) junk, of e os] st1(2,3) by auto
  have quiet: "quiet (ct_network st1) (ct_network st')"
    using sends_quiet [OF s(4)] st1(1) by (simp add: game_ok_def)
  have "queue_ok (set (map fst (ct_players st'))) (sint (mgr_roomIdCounter (ct_rooms st'))) es"
  proof (cases "ev_type e")
    case CONNECTED
    then show ?thesis using fit s(5,6) by (auto intro: queue_ok_mono)
  next
    case DISCONNECTED
    then show ?thesis using fit s(5,6) by (auto intro: queue_ok_mono)
  next
    case RECEIVED
    then show ?thesis using fit s(5,6) by (auto intro: queue_ok_mono)
  qed
  then have "queue_fits st'" using quiet st1(5) by (auto simp: queue_fits_def quiet_def queue_ok_append)
  then show ?thesis using s(1-3) st1(4,6) quiet by (auto simp: quiet_def)
qed

lemma event_loop_ok:
  "game_ok st \<Longrightarrow> queue_fits st \<Longrightarrow> length junk = 256 \<Longrightarrow> backlog (ct_network st) < fuel \<Longrightarrow>
   \<exists>st'. event_loop fuel os junk st = Inr st' \<and> game_ok st' \<and> srv_eventQueue (ct_network st') = [] \<and>
     ct_running st' = ct_running st"
proof (induction fuel arbitrary: st)
  case (Suc fuel)
  show ?case
  proof (cases "srv_eventQueue (ct_network st)")
    case Nil
    then show ?thesis using Suc.prems by (auto simp: PopNetworkEvent_def TryPop_def)
  next
    case (Cons e es)
    let ?st1 = "st\<lparr>ct_network := ct_network st\<lparr>srv_eventQueue := es\<rparr>\<rparr>"
    have pop: "PopNetworkEvent (ct_network st) = Some (e, ct_network st\<lparr>srv_eventQueue := es\<rparr>)"
      using Cons by (simp add: PopNetworkEvent_def TryPop_def)
    obtain st' where "dispatch_event os junk ?st1 e = Inr st'" "game_ok st'" "queue_fits st'"
        "ct_running st' = ct_running st" "backlog (ct_network st') < backlog (ct_network st)"
      using dispatch_event_ok [OF Suc.prems(1,3,2) Cons] by blast
    then show ?thesis using Suc.IH [of st'] Suc.prems pop by auto
  qed
qed simp

end
