(* ===== verification/ClientRoom.thy ===== *)
theory ClientRoom
  imports IOCPServer Protocol
begin

text \<open>
  \<open>CRoom\<close> of the client (\<open>MO_MiniGames_Client/Room.h\<close>, \<open>Room.cpp\<close>): what the client knows of
  the room it is in, and what it shows of it.  Texts go to the console line by line; a view is
  the list of its lines, a table row the values it prints.
\<close>

section \<open>State\<close>

record RoomPlayer =
  rp_isMe :: bool
  rp_isPresent :: bool
  rp_name :: "byte list"

record ClientRoom =
  cr_network :: bool                       \<comment> \<open>the pointer to the network is set\<close>
  cr_inRoom :: bool
  cr_roomId :: int32_t
  cr_title :: "byte list"
  cr_maxPlayers :: int32_t
  cr_players :: "RoomPlayer list"
  cr_pendingTitle :: "byte list"
  cr_pendingMaxPlayers :: int32_t

definition ClientRoom_new :: ClientRoom where
  "ClientRoom_new = \<lparr>cr_network = False, cr_inRoom = False, cr_roomId = - 1, cr_title = [], cr_maxPlayers = 0,
     cr_players = [], cr_pendingTitle = [], cr_pendingMaxPlayers = 0\<rparr>"

definition cr_SetNetwork :: "ClientRoom \<Rightarrow> ClientRoom" where
  "cr_SetNetwork rm = rm\<lparr>cr_network := True\<rparr>"

section \<open>Server answers\<close>

fun other_players :: "nat \<Rightarrow> RoomPlayer list \<Rightarrow> RoomPlayer list" where
  "other_players 0 ps = ps"
| "other_players (Suc n) ps =
     other_players n (ps @ [\<lparr>rp_isMe = False, rp_isPresent = False, rp_name = []\<rparr>])"

definition InitPlayers :: "ClientRoom \<Rightarrow> ClientRoom" where
  "InitPlayers rm =
     (let rm = rm\<lparr>cr_players := []\<rparr>;
          rm = rm\<lparr>cr_players := cr_players rm @ [\<lparr>rp_isMe = True, rp_isPresent = True, rp_name = str ''You''\<rparr>]\<rparr>
      in rm\<lparr>cr_players := other_players 9 (cr_players rm)\<rparr>)"

definition cr_OnRoomCreated :: "ClientRoom \<Rightarrow> int32_t \<Rightarrow> ClientRoom" where
  "cr_OnRoomCreated rm roomId =
     InitPlayers (rm\<lparr>cr_inRoom := True, cr_roomId := roomId, cr_title := cr_pendingTitle rm,
                     cr_maxPlayers := cr_pendingMaxPlayers rm\<rparr>)"

definition cr_OnRoomJoined :: "ClientRoom \<Rightarrow> int32_t \<Rightarrow> ClientRoom" where
  "cr_OnRoomJoined rm roomId = InitPlayers (rm\<lparr>cr_inRoom := True, cr_roomId := roomId\<rparr>)"

definition cr_OnRoomLeft :: "ClientRoom \<Rightarrow> ClientRoom" where
  "cr_OnRoomLeft rm = rm\<lparr>cr_inRoom := False, cr_roomId := - 1, cr_title := [], cr_maxPlayers := 0, cr_players := []\<rparr>"

definition cr_AddPlayer :: "ClientRoom \<Rightarrow> int \<Rightarrow> byte list \<Rightarrow> ClientRoom" where
  "cr_AddPlayer rm index name =
     (if 0 \<le> index \<and> index < int (length (cr_players rm))
      then let p = cr_players rm ! nat index
           in rm\<lparr>cr_players := (cr_players rm)[nat index := p\<lparr>rp_isPresent := True, rp_name := name\<rparr>]\<rparr>
      else rm)"

definition cr_RemovePlayer :: "ClientRoom \<Rightarrow> int \<Rightarrow> ClientRoom" where
  "cr_RemovePlayer rm index =
     (if 0 \<le> index \<and> index < int (length (cr_players rm))
      then let p = cr_players rm ! nat index
           in rm\<lparr>cr_players := (cr_players rm)[nat index := p\<lparr>rp_isPresent := False, rp_name := []\<rparr>]\<rparr>
      else rm)"

section \<open>Tables\<close>

text \<open>The values of the row that \<open>DisplayRoomInfo\<close> prints.\<close>

record InfoRow =
  ir_roomId :: int32_t
  ir_title :: "byte list"
  ir_currentPlayers :: int32_t
  ir_maxPlayers :: int32_t
  ir_status :: string

fun count_present :: "RoomPlayer list \<Rightarrow> int32_t \<Rightarrow> int32_t" where
  "count_present [] n = n"
| "count_present (p # ps) n = count_present ps (if rp_isPresent p then n + 1 else n)"

definition DisplayRoomInfo :: "ClientRoom \<Rightarrow> InfoRow" where
  "DisplayRoomInfo rm =
     (let currentPlayers = count_present (cr_players rm) 0;
          statusStr = (if 0 < sint (cr_maxPlayers rm) \<and> currentPlayers = cr_maxPlayers rm
                       then ''PLAYING'' else ''WAITING'')
      in \<lparr>ir_roomId = cr_roomId rm, ir_title = cr_title rm, ir_currentPlayers = currentPlayers,
          ir_maxPlayers = cr_maxPlayers rm, ir_status = statusStr\<rparr>)"

text \<open>
  \<open>DisplayRoomList\<close> gets the \<open>RoomInfo\<close> structs of a vector, contiguous in memory; \<open>strlen\<close> reads
  a title up to a NUL that may lie behind the struct.
\<close>

fun DisplayRoomList :: "byte list list \<Rightarrow> InfoRow list res" where
  "DisplayRoomList [] = Inr []"
| "DisplayRoomList (r # rs) =
     andThen (read8 r 76) (\<lambda>status.
     andThen (read32 r 0) (\<lambda>roomId.
     andThen (c_str (drop 4 (concat (r # rs)))) (\<lambda>title.
     andThen (read32 r 68) (\<lambda>currentPlayers.
     andThen (read32 r 72) (\<lambda>maxPlayers.
     andThen (DisplayRoomList rs) (\<lambda>rows.
     Inr (\<lparr>ir_roomId = roomId, ir_title = title, ir_currentPlayers = currentPlayers, ir_maxPlayers = maxPlayers,
           ir_status = (if status = 0 then ''WAITING'' else ''PLAYING'')\<rparr> # rows)))))))"

section \<open>The room view\<close>

definition nth_res :: "'a list \<Rightarrow> nat \<Rightarrow> 'a res" where
  "nth_res xs i = (if i < length xs then Inr (xs ! i) else Inl OutOfBounds)"

definition my_screen :: "string list" where
  "my_screen =
    [''+---------------------+'',
     ''|                     |'',
     ''+---------------------+'',
     ''|                     |'',
     ''|                     |'',
     ''|                     |'',
     ''|                     |'',
     ''|                     |'',
     ''|                     |'',
     ''|        WAIT         |'',
     ''|                     |'',
     ''|                     |'',
     ''|                     |'',
     ''|                     |'',
     ''|                     |'',
     ''|                     |'',
     ''|                     |'',
     ''|                     |'',
     ''|                     |'',
     ''|                     |'',
     ''|                     |'',
     ''+---------------------+'']"

definition empty_box :: "string list" where
  "empty_box =
    [''+-------------+'',
     ''|             |'',
     ''|             |'',
     ''|             |'',
     ''|             |'',
     ''|             |'',
     ''|             |'',
     ''|             |'',
     ''+-------------+'']"

definition player_box :: "nat \<Rightarrow> string \<Rightarrow> string list" where
  "player_box i label =
    [''+-------------+'',
     ''|             |'',
     ''+-------------+'',
     ''|             |'',
     ''|             |'',
     ''|   '' @ [char_of (48 + i)] @ ''  '' @ label @ replicate (7 - length label) CHR '' '' @ ''|'',
     ''|             |'',
     ''|             |'',
     ''|             |'',
     ''|             |'',
     ''+-------------+'']"

definition seat_label :: "RoomPlayer list \<Rightarrow> nat \<Rightarrow> string" where
  "seat_label players i = (if i < length players \<and> rp_isPresent (players ! i) then ''[WAIT]'' else ''[NONE]'')"

definition small_screens :: "RoomPlayer list \<Rightarrow> string list list" where
  "small_screens players = empty_box # map (\<lambda>i. player_box i (seat_label players i)) [1..<10]"

text \<open>One line of the screens \<open>j\<close> to \<open>j_max\<close>, side by side.\<close>

fun join_row :: "string list list \<Rightarrow> nat \<Rightarrow> nat list \<Rightarrow> nat \<Rightarrow> string res" where
  "join_row screens line [] j_max = Inr []"
| "join_row screens line (j # js) j_max =
     andThen (nth_res screens j) (\<lambda>screen.
     andThen (nth_res screen line) (\<lambda>text.
     andThen (join_row screens line js j_max) (\<lambda>row.
     Inr (text @ (if j \<noteq> j_max then ''  '' else []) @ row))))"

fun join_rows :: "string list list \<Rightarrow> nat list \<Rightarrow> nat list \<Rightarrow> nat \<Rightarrow> string list res" where
  "join_rows screens [] js j_max = Inr []"
| "join_rows screens (line # lines) js j_max =
     andThen (join_row screens line js j_max) (\<lambda>row.
     andThen (join_rows screens lines js j_max) (\<lambda>rows. Inr (row # rows)))"

definition right_block :: "string list list \<Rightarrow> string list res" where
  "right_block screens =
     andThen (nth_res screens 0) (\<lambda>first.
     andThen (join_rows screens [0..<length first] [0..<5] 4) (\<lambda>top.
     andThen (nth_res screens 5) (\<lambda>fifth.
     andThen (join_rows screens [0..<length fifth] [5..<10] 9) (\<lambda>bottom.
     Inr (top @ bottom)))))"

definition view_line :: "string list \<Rightarrow> string list \<Rightarrow> nat \<Rightarrow> string" where
  "view_line mine right i =
     (if i < length mine then mine ! i else replicate (length (mine ! 0)) CHR '' '') @
     (if i < length right then ''  '' @ right ! i else [])"

text \<open>The row of \<open>DisplayRoomInfo\<close>, the lines of the screens, and the menu below them.\<close>

definition DisplayRoomView :: "ClientRoom \<Rightarrow> (InfoRow \<times> string list \<times> string list) res" where
  "DisplayRoomView rm =
     andThen (right_block (small_screens (cr_players rm))) (\<lambda>right.
     Inr (DisplayRoomInfo rm,
          map (view_line my_screen right) [0..<max (length my_screen) (length right)],
          [''[1] Leave Room'', ''[0] Disconnect'', ''Select: '']))"

section \<open>Lemmas\<close>

lemma InitPlayers_eq:
  "InitPlayers rm = rm\<lparr>cr_players :=
     \<lparr>rp_isMe = True, rp_isPresent = True, rp_name = str ''You''\<rparr> #
     replicate 9 \<lparr>rp_isMe = False, rp_isPresent = False, rp_name = []\<rparr>\<rparr>"
proof -
  have "other_players n ps = ps @ replicate n \<lparr>rp_isMe = False, rp_isPresent = False, rp_name = []\<rparr>" for n ps
    by (induction n arbitrary: ps) (simp_all add: replicate_append_same)
  then show ?thesis by (simp add: InitPlayers_def Let_def)
qed

lemma count_present_eq: "count_present ps n = n + of_nat (length (filter rp_isPresent ps))"
  by (induction ps arbitrary: n) simp_all

end
