(* ===== verification/GameInstance.thy ===== *)
theory GameInstance
  imports ClientRoom
begin

text \<open>
  \<open>CClientNetwork\<close> and \<open>CGameInstance\<close> of the client (\<open>MO_MiniGames_Client/ClientNetwork.cpp\<close>,
  \<open>GameInstance.cpp\<close>): connecting, requests, reception and its handlers, and the menus.  The
  receive thread and the main thread are sequences of calls on one state.  What goes to the
  console is appended to \<open>gi_shown\<close>.
\<close>

section \<open>State\<close>

record CClientNetwork =
  cn_socket :: SOCKET
  cn_connected :: bool
  cn_running :: bool
  cn_gameInstance :: bool                  \<comment> \<open>the pointer to the game instance is set\<close>
  cn_wire :: "byte list"                   \<comment> \<open>the bytes the connection has accepted\<close>

datatype shown =
    ShownRoomList "InfoRow list"
  | ShownNoRooms
  | ShownCreated "int32_t option"
  | ShownJoined "int32_t option"
  | ShownLeft bool
  | ShownError "byte list"
  | ShownInvalidSize
  | ShownSizeMismatch
  | ShownUnknownType uint16_t
  | ShownConnectionLost

record CGameInstance =
  gi_network :: CClientNetwork
  gi_room :: ClientRoom
  gi_running :: bool
  gi_shown :: "shown list"

definition CClientNetwork_new :: CClientNetwork where
  "CClientNetwork_new = \<lparr>cn_socket = INVALID_SOCKET, cn_connected = False, cn_running = False,
     cn_gameInstance = False, cn_wire = []\<rparr>"

definition CGameInstance_new :: CGameInstance where
  "CGameInstance_new = \<lparr>gi_network = CClientNetwork_new, gi_room = ClientRoom_new, gi_running = False, gi_shown = []\<rparr>"

definition Initialize_client :: "CGameInstance \<Rightarrow> CGameInstance" where
  "Initialize_client gi =
     (let gi = gi\<lparr>gi_network := gi_network gi\<lparr>cn_gameInstance := True\<rparr>\<rparr>;
          gi = gi\<lparr>gi_room := cr_SetNetwork (gi_room gi)\<rparr>
      in gi\<lparr>gi_running := True\<rparr>)"

definition show_on :: "shown \<Rightarrow> CGameInstance \<Rightarrow> CGameInstance" where
  "show_on e gi = gi\<lparr>gi_shown := gi_shown gi @ [e]\<rparr>"

section \<open>Connection\<close>

text \<open>The results of \<open>WSAStartup\<close>, \<open>socket\<close> and \<open>connect\<close> are arguments.\<close>

definition Connect :: "int32_t \<Rightarrow> SOCKET \<Rightarrow> int32_t \<Rightarrow> CClientNetwork \<Rightarrow> bool \<times> CClientNetwork" where
  "Connect startup sock conn net =
     (if startup \<noteq> 0 then (False, net)
      else
        let net = net\<lparr>cn_socket := sock\<rparr> in
        if cn_socket net = INVALID_SOCKET then (False, net)
        else if conn = - 1 then (False, net)
        else (True, net\<lparr>cn_connected := True, cn_running := True\<rparr>))"

definition cn_Disconnect :: "CClientNetwork \<Rightarrow> CClientNetwork" where
  "cn_Disconnect net =
     (if \<not> cn_connected net then net
      else
        let net = net\<lparr>cn_running := False, cn_connected := False\<rparr> in
        if cn_socket net \<noteq> INVALID_SOCKET then net\<lparr>cn_socket := INVALID_SOCKET\<rparr> else net)"

definition Shutdown :: "CGameInstance \<Rightarrow> CGameInstance" where
  "Shutdown gi =
     (let gi = gi\<lparr>gi_running := False\<rparr> in gi\<lparr>gi_network := cn_Disconnect (gi_network gi)\<rparr>)"

section \<open>Requests\<close>

text \<open>What \<open>send\<close> does with the bytes: \<open>None\<close> for \<open>SOCKET_ERROR\<close>, else how many it took.\<close>

type_synonym send_fun = "byte list \<Rightarrow> nat option"

definition SendPacket :: "send_fun \<Rightarrow> CClientNetwork \<Rightarrow> byte list \<Rightarrow> bool \<times> CClientNetwork" where
  "SendPacket snd_os net data =
     (if \<not> cn_connected net then (False, net)
      else
        (case snd_os data of
           None \<Rightarrow> (False, net)
         | Some bytesSent \<Rightarrow> (True, net\<lparr>cn_wire := cn_wire net @ take bytesSent data\<rparr>)))"

definition room_list_request :: "byte list" where
  "room_list_request = msg_header (of_nat sizeof_TypedHeader) C2S_REQUEST_ROOM_LIST"

text \<open>\<open>junk\<close> is what the uninitialised \<open>title\<close> array of the message holds.\<close>

definition create_request :: "byte list \<Rightarrow> byte list \<Rightarrow> int32_t \<Rightarrow> byte list" where
  "create_request junk title maxPlayers =
     msg_header (of_nat sizeof_C2S_CREATE_ROOM) C2S_CREATE_ROOM @ fill_text junk title @ put32 maxPlayers"

definition join_request :: "int32_t \<Rightarrow> byte list" where
  "join_request roomId = msg_header (of_nat sizeof_C2S_JOIN_ROOM) C2S_JOIN_ROOM @ put32 roomId"

definition leave_request :: "byte list" where
  "leave_request = msg_header (of_nat sizeof_C2S_LEAVE_ROOM) C2S_LEAVE_ROOM"

definition RequestRoomList :: "send_fun \<Rightarrow> CClientNetwork \<Rightarrow> CClientNetwork" where
  "RequestRoomList snd_os net = snd (SendPacket snd_os net room_list_request)"

definition RequestCreateRoom :: "send_fun \<Rightarrow> byte list \<Rightarrow> CClientNetwork \<Rightarrow> byte list \<Rightarrow> int32_t \<Rightarrow> CClientNetwork" where
  "RequestCreateRoom snd_os junk net title maxPlayers =
     snd (SendPacket snd_os net (create_request junk title maxPlayers))"

definition RequestJoinRoom :: "send_fun \<Rightarrow> CClientNetwork \<Rightarrow> int32_t \<Rightarrow> CClientNetwork" where
  "RequestJoinRoom snd_os net roomId = snd (SendPacket snd_os net (join_request roomId))"

definition RequestLeaveRoom :: "send_fun \<Rightarrow> CClientNetwork \<Rightarrow> CClientNetwork" where
  "RequestLeaveRoom snd_os net = snd (SendPacket snd_os net leave_request)"

text \<open>The requests of \<open>CRoom\<close>, which go through its pointer to the network.\<close>

definition cr_RequestCreateRoom :: "send_fun \<Rightarrow> byte list \<Rightarrow> CGameInstance \<Rightarrow> byte list \<Rightarrow> int32_t \<Rightarrow> CGameInstance" where
  "cr_RequestCreateRoom snd_os junk gi title maxPlayers =
     (if \<not> cr_network (gi_room gi) then gi
      else
        let gi = gi\<lparr>gi_room := gi_room gi\<lparr>cr_pendingTitle := title, cr_pendingMaxPlayers := maxPlayers\<rparr>\<rparr>
        in gi\<lparr>gi_network := RequestCreateRoom snd_os junk (gi_network gi) title maxPlayers\<rparr>)"

definition cr_RequestJoinRoom :: "send_fun \<Rightarrow> CGameInstance \<Rightarrow> int32_t \<Rightarrow> CGameInstance" where
  "cr_RequestJoinRoom snd_os gi roomId =
     (if \<not> cr_network (gi_room gi) then gi
      else gi\<lparr>gi_network := RequestJoinRoom snd_os (gi_network gi) roomId\<rparr>)"

definition cr_RequestLeaveRoom :: "send_fun \<Rightarrow> CGameInstance \<Rightarrow> CGameInstance" where
  "cr_RequestLeaveRoom snd_os gi =
     (if \<not> cr_network (gi_room gi) then gi
      else gi\<lparr>gi_network := RequestLeaveRoom snd_os (gi_network gi)\<rparr>)"

section \<open>Server messages\<close>

text \<open>
  The handlers get a pointer to the start of the receive buffer \<open>buf\<close>; what they read is not
  bounded by the number of bytes received, only by the buffer.
\<close>

fun read_rooms :: "byte list \<Rightarrow> nat \<Rightarrow> nat \<Rightarrow> byte list list res" where
  "read_rooms buf off 0 = Inr []"
| "read_rooms buf off (Suc n) =
     (if length buf < off + sizeof_RoomInfo then Inl OutOfBounds
      else andThen (read_rooms buf (off + sizeof_RoomInfo) n) (\<lambda>rooms.
           Inr (take sizeof_RoomInfo (drop off buf) # rooms)))"

definition OnRoomListReceived :: "CGameInstance \<Rightarrow> byte list \<Rightarrow> nat \<Rightarrow> CGameInstance res" where
  "OnRoomListReceived gi buf msgSize =
     andThen (read32 buf 4) (\<lambda>roomCount.
     if roomCount = 0 then Inr (show_on ShownNoRooms gi)
     else
       andThen (read_rooms buf sizeof_S2C_ROOM_LIST (nat (sint roomCount))) (\<lambda>rooms.
       andThen (DisplayRoomList rooms) (\<lambda>rows. Inr (show_on (ShownRoomList rows) gi))))"

definition OnRoomCreated :: "CGameInstance \<Rightarrow> byte list \<Rightarrow> CGameInstance res" where
  "OnRoomCreated gi buf =
     andThen (read8 buf 8) (\<lambda>success.
     if success \<noteq> 0 then
       andThen (read32 buf 4) (\<lambda>roomId.
       Inr (show_on (ShownCreated (Some roomId)) (gi\<lparr>gi_room := cr_OnRoomCreated (gi_room gi) roomId\<rparr>)))
     else Inr (show_on (ShownCreated None) gi))"

definition OnRoomJoined :: "CGameInstance \<Rightarrow> byte list \<Rightarrow> CGameInstance res" where
  "OnRoomJoined gi buf =
     andThen (read8 buf 8) (\<lambda>success.
     if success \<noteq> 0 then
       andThen (read32 buf 4) (\<lambda>roomId.
       Inr (show_on (ShownJoined (Some roomId)) (gi\<lparr>gi_room := cr_OnRoomJoined (gi_room gi) roomId\<rparr>)))
     else Inr (show_on (ShownJoined None) gi))"

definition OnRoomLeft :: "CGameInstance \<Rightarrow> byte list \<Rightarrow> CGameInstance res" where
  "OnRoomLeft gi buf =
     andThen (read8 buf 4) (\<lambda>success.
     if success \<noteq> 0 then Inr (show_on (ShownLeft True) (gi\<lparr>gi_room := cr_OnRoomLeft (gi_room gi)\<rparr>))
     else Inr (show_on (ShownLeft False) gi))"

definition OnError :: "CGameInstance \<Rightarrow> byte list \<Rightarrow> CGameInstance res" where
  "OnError gi buf = andThen (c_str (drop 4 buf)) (\<lambda>message. Inr (show_on (ShownError message) gi))"

definition HandleServerMessage :: "CGameInstance \<Rightarrow> byte list \<Rightarrow> nat \<Rightarrow> CGameInstance res" where
  "HandleServerMessage gi buf len =
     (if \<not> cn_gameInstance (gi_network gi) then Inr gi
      else if len < sizeof_TypedHeader then Inr (show_on ShownInvalidSize gi)
      else
        andThen (read16 buf 0) (\<lambda>sz.
        if len < unat sz then Inr (show_on ShownSizeMismatch gi)
        else
          andThen (read16 buf 2) (\<lambda>type.
          if type = msg_code S2C_ROOM_LIST
          then (if sizeof_S2C_ROOM_LIST \<le> len then OnRoomListReceived gi buf len else Inr gi)
          else if type = msg_code S2C_ROOM_CREATED
          then (if sizeof_S2C_ROOM_CREATED \<le> len then OnRoomCreated gi buf else Inr gi)
          else if type = msg_code S2C_ROOM_JOINED
          then (if sizeof_S2C_ROOM_JOINED \<le> len then OnRoomJoined gi buf else Inr gi)
          else if type = msg_code S2C_ROOM_LEFT
          then (if sizeof_S2C_ROOM_LEFT \<le> len then OnRoomLeft gi buf else Inr gi)
          else if type = msg_code S2C_ERROR
          then (if sizeof_S2C_ERROR \<le> len then OnError gi buf else Inr gi)
          else Inr (show_on (ShownUnknownType type) gi))))"

text \<open>
  The receive thread, one received piece after another.  An empty piece is the result of a
  \<open>recv\<close> that returns zero or an error; \<open>recv\<close> writes at most 4096 bytes to the front of the
  buffer.
\<close>

fun RecvThread :: "byte list \<Rightarrow> byte list list \<Rightarrow> CGameInstance \<Rightarrow> CGameInstance res" where
  "RecvThread buf [] gi = Inr gi"
| "RecvThread buf (piece # pieces) gi =
     (if \<not> (cn_running (gi_network gi) \<and> cn_connected (gi_network gi)) then Inr gi
      else
        let bytes = take 4096 piece; buf = bytes @ drop (length bytes) buf in
        if bytes = [] then
          let gi = (if cn_running (gi_network gi) then show_on ShownConnectionLost gi else gi)
          in Inr (gi\<lparr>gi_network := gi_network gi\<lparr>cn_connected := False, cn_running := False\<rparr>\<rparr>)
        else andThen (HandleServerMessage gi buf (length bytes)) (RecvThread buf pieces))"

section \<open>Menus\<close>

text \<open>
  The main menu reads keys until Enter; arrow keys are two codes.  \<open>None\<close> if it still waits
  after the keys given.
\<close>

fun ShowMainMenuWithSelection :: "int \<Rightarrow> int list \<Rightarrow> (int \<times> int list) option" where
  "ShowMainMenuWithSelection selectedIndex [] = None"
| "ShowMainMenuWithSelection selectedIndex (key # keys) =
     (if key = 224 \<or> key = 0 then
        (case keys of
           [] \<Rightarrow> None
         | key2 # rest \<Rightarrow>
             ShowMainMenuWithSelection
               (if key2 = 72 then (selectedIndex - 1 + 3) mod 3
                else if key2 = 80 then (selectedIndex + 1) mod 3
                else selectedIndex) rest)
      else if key = 13 then Some (selectedIndex + 1, keys)
      else ShowMainMenuWithSelection selectedIndex keys)"

text \<open>What the extractions from \<open>std::wcin\<close> deliver; \<open>None\<close> when the choice is not a number.\<close>

record menu_input =
  mi_choice :: "int option"
  mi_title :: "byte list"
  mi_maxPlayers :: int32_t
  mi_roomId :: int32_t

definition ProcessLobbyInput :: "send_fun \<Rightarrow> byte list \<Rightarrow> CGameInstance \<Rightarrow> menu_input \<Rightarrow> CGameInstance" where
  "ProcessLobbyInput snd_os junk gi inp =
     (case mi_choice inp of
        None \<Rightarrow> gi
      | Some choice \<Rightarrow>
          if choice = 1 then gi\<lparr>gi_network := RequestRoomList snd_os (gi_network gi)\<rparr>
          else if choice = 2 then
            (if sint (mi_maxPlayers inp) < 2 \<or> 10 < sint (mi_maxPlayers inp) then gi
             else cr_RequestCreateRoom snd_os junk gi (mi_title inp) (mi_maxPlayers inp))
          else if choice = 3 then cr_RequestJoinRoom snd_os gi (mi_roomId inp)
          else if choice = 0 then gi\<lparr>gi_running := False\<rparr>
          else gi)"

definition ProcessRoomInput :: "send_fun \<Rightarrow> CGameInstance \<Rightarrow> menu_input \<Rightarrow> CGameInstance res" where
  "ProcessRoomInput snd_os gi inp =
     andThen (DisplayRoomView (gi_room gi)) (\<lambda>view. Inr
       (case mi_choice inp of
          None \<Rightarrow> gi
        | Some choice \<Rightarrow>
            if choice = 1 then cr_RequestLeaveRoom snd_os gi
            else if choice = 0 then gi\<lparr>gi_running := False\<rparr>
            else gi))"

text \<open>The main loop of \<open>Run\<close>, over the inputs of its iterations.\<close>

fun run_loop :: "send_fun \<Rightarrow> byte list \<Rightarrow> menu_input list \<Rightarrow> CGameInstance \<Rightarrow> CGameInstance res" where
  "run_loop snd_os junk [] gi = Inr gi"
| "run_loop snd_os junk (inp # inps) gi =
     (if \<not> (gi_running gi \<and> cn_connected (gi_network gi)) then Inr gi
      else
        andThen (if cr_inRoom (gi_room gi) then ProcessRoomInput snd_os gi inp
                 else Inr (ProcessLobbyInput snd_os junk gi inp))
          (run_loop snd_os junk inps))"

text \<open>
  \<open>Run\<close>: the selection of the main menu, the connection, the main loop.  \<open>port\<close> is \<open>None\<close> for an
  empty line, which stands for port 9000, else what \<open>std::stoi\<close> makes of the line, \<open>Some None\<close> when
  it throws.
\<close>

definition Run ::
  "int list \<Rightarrow> int option option \<Rightarrow> int32_t \<Rightarrow> SOCKET \<Rightarrow> int32_t \<Rightarrow> send_fun \<Rightarrow> byte list \<Rightarrow> menu_input list \<Rightarrow>
   CGameInstance \<Rightarrow> CGameInstance res option" where
  "Run keys port startup sock conn snd_os junk inps gi =
     (case ShowMainMenuWithSelection 0 keys of
        None \<Rightarrow> None
      | Some (selectedMenu, _) \<Rightarrow>
          Some
            (if selectedMenu = 1 \<or> selectedMenu = 3 then Inr gi
             else if port = Some None then Inl InvalidArgument
             else
               let (ok, net) = Connect startup sock conn (gi_network gi); gi = gi\<lparr>gi_network := net\<rparr> in
               if \<not> ok then Inr gi else run_loop snd_os junk inps gi))"

end
