(* ===== verification/Lobby.thy ===== *)
theory Lobby
  imports GameLogic GameInstance
begin

text \<open>
  The abstract service the game server offers: a client's request and the directory of rooms
  give the answers and the new directory.  The dispatch of the server on the messages the
  client sends refines it.
\<close>

section \<open>Requests and answers\<close>

datatype request = ReqRoomList | ReqCreate "byte list" int32_t | ReqJoin int32_t | ReqLeave

datatype answer = AnsRoomList | AnsCreated int32_t bool | AnsJoined int32_t bool | AnsLeft bool | AnsError "byte list"

text \<open>The bytes of a request, as the client sends it, and of an answer.\<close>

fun request_msg :: "byte list \<Rightarrow> request \<Rightarrow> byte list" where
  "request_msg junk ReqRoomList = room_list_request"
| "request_msg junk (ReqCreate title maxPlayers) = create_request junk title maxPlayers"
| "request_msg junk (ReqJoin roomId) = join_request roomId"
| "request_msg junk ReqLeave = leave_request"

fun answer_msg :: "byte list \<Rightarrow> CRoom list \<Rightarrow> answer \<Rightarrow> byte list" where
  "answer_msg junk rooms AnsRoomList = room_list_msg rooms"
| "answer_msg junk rooms (AnsCreated roomId b) = room_reply S2C_ROOM_CREATED sizeof_S2C_ROOM_CREATED roomId b"
| "answer_msg junk rooms (AnsJoined roomId b) = room_reply S2C_ROOM_JOINED sizeof_S2C_ROOM_JOINED roomId b"
| "answer_msg junk rooms (AnsLeft b) = room_left_msg b"
| "answer_msg junk rooms (AnsError text) = error_msg junk text"

text \<open>A title that fits the message: at most 63 characters, up to the first NUL.\<close>

definition wire_title :: "byte list \<Rightarrow> byte list" where
  "wire_title title = take 63 (takeWhile (\<lambda>c. c \<noteq> 0) title)"

section \<open>The service\<close>

fun serve :: "request \<Rightarrow> player_ptr \<Rightarrow> int32_t \<times> room_view list \<Rightarrow> answer list \<times> int32_t \<times> room_view list" where
  "serve ReqRoomList p (i, rs) = ([AnsRoomList], i, rs)"
| "serve (ReqCreate title maxPlayers) p (i, rs) =
     (let t = wire_title title in
      if t = [] \<or> sint maxPlayers < 2 \<or> 10 < sint maxPlayers
      then ([AnsCreated (- 1) False, AnsError (str ''Invalid room parameters'')], i, rs)
      else if list_ex (\<lambda>v. rv_title v = t) rs
      then ([AnsCreated (- 1) False, AnsError (str ''Room title already exists'')], i, rs)
      else if in_some_room rs p
      then ([AnsCreated i False, AnsError (str ''Failed to join created room'')], i + 1, spec_create i t maxPlayers rs)
      else ([AnsCreated i True], i + 1, \<lparr>rv_id = i, rv_title = t, rv_max = maxPlayers, rv_players = [p]\<rparr> # rs))"
| "serve (ReqJoin roomId) p (i, rs) =
     (case spec_join roomId p rs of (b, rs) \<Rightarrow>
        (AnsJoined roomId b # (if b then [] else [AnsError (str ''Failed to join room'')]), i, rs))"
| "serve ReqLeave p (i, rs) = (case spec_leave p rs of (b, rs) \<Rightarrow> ([AnsLeft b], i, rs))"

text \<open>The answers go to one session, one message after another.\<close>

fun send_answers :: "os \<Rightarrow> int64_t \<Rightarrow> byte list list \<Rightarrow> CIOCPServer \<Rightarrow> CIOCPServer res" where
  "send_answers os sid [] net = Inr net"
| "send_answers os sid (msg # msgs) net =
     andThen (RequestSendMsg os net sid msg (of_nat (length msg))) (send_answers os sid msgs)"

section \<open>The handlers serve\<close>

text \<open>A handler that has set the rooms to \<open>m\<close> and sends \<open>msgs\<close>.\<close>

definition answers :: "os \<Rightarrow> int64_t \<Rightarrow> CCentralizedServer \<Rightarrow> CRoomManager \<Rightarrow> byte list list \<Rightarrow> CCentralizedServer res \<Rightarrow> bool" where
  "answers os sid st m msgs r \<longleftrightarrow>
     (\<exists>net. send_answers os sid msgs (ct_network st) = Inr net \<and> r = Inr (st\<lparr>ct_rooms := m, ct_network := net\<rparr>))"

lemma answers_nil: "answers os sid st (ct_rooms st) [] (Inr st)"
  by (simp add: answers_def)

lemma answers_send:
  assumes st: "game_ok st" and p: "p < length (ct_store st)" "pl_sessionId (ct_store st ! p) = sid"
    and len: "len = of_nat (length data)"
    and k: "\<And>net. game_ok (st\<lparr>ct_network := net\<rparr>) \<Longrightarrow>
      answers os sid (st\<lparr>ct_network := net\<rparr>) (ct_rooms st) msgs (k (st\<lparr>ct_network := net\<rparr>))"
  shows "answers os sid st (ct_rooms st) (data # msgs) (andThen (send_to os st p data len) k)"
proof -
  have "unat len \<le> length data" unfolding len by (rule unat_of_nat_le)
  then obtain st' where st': "send_to os st p data len = Inr st'" "game_frame os st st'"
      "RequestSendMsg os (ct_network st) sid data len = Inr (ct_network st')"
    using send_to_ok [OF st p(1), of len data os] p(2) by blast
  then obtain net where net: "st' = st\<lparr>ct_network := net\<rparr>" by (auto simp: game_frame_def)
  then have "game_ok (st\<lparr>ct_network := net\<rparr>)" using game_ok_frame [OF st st'(2)] by simp
  from k [OF this] show ?thesis using st' net len by (auto simp: answers_def)
qed

lemmas answers_last = answers_send [where k = Inr and msgs = "[]", simplified]

lemma andThen_Inr [simp]: "andThen r Inr = r"
  by (cases r) auto

lemma answers_set_rooms:
  "answers os sid (st\<lparr>ct_rooms := m\<rparr>) m msgs r \<Longrightarrow> answers os sid st m msgs r"
  by (simp add: answers_def)

text \<open>The header of a message, and what the dispatch makes of each request.\<close>

lemma read_header: "read16 (msg_header sz t @ rest) 0 = Inr sz" "read16 (msg_header sz t @ rest) 2 = Inr (msg_code t)"
proof -
  show "read16 (msg_header sz t @ rest) 0 = Inr sz"
    using read16_put0 [of sz "put16 (msg_code t) @ rest"] by (simp add: msg_header_def)
  show "read16 (msg_header sz t @ rest) 2 = Inr (msg_code t)"
    using read16_put [of "put16 sz" 2 "msg_code t" rest] by (simp add: msg_header_def)
qed

lemmas read_header_only = read_header [where rest = "[]", simplified]

lemma read_body: "read32 (msg_header sz t @ put32 w @ rest) 4 = Inr w"
  by (rule read32_put) simp

lemma length_requests [simp]:
  "length room_list_request = 4" "length junk = 64 \<Longrightarrow> length (create_request junk title mx) = 72"
  "length (join_request i) = 8" "length leave_request = 4"
proof -
  show "length (create_request junk title mx) = 72" if "length junk = 64"
  proof -
    have "junk \<noteq> []" using that by auto
    then show ?thesis using that by (simp add: create_request_def)
  qed
qed (simp_all add: room_list_request_def join_request_def leave_request_def)

lemma read_requests:
  "read16 room_list_request 0 = Inr 4" "read16 room_list_request 2 = Inr (msg_code C2S_REQUEST_ROOM_LIST)"
  "read16 (create_request junk title mx) 0 = Inr 72" "read16 (create_request junk title mx) 2 = Inr (msg_code C2S_CREATE_ROOM)"
  "read16 (join_request i) 0 = Inr 8" "read16 (join_request i) 2 = Inr (msg_code C2S_JOIN_ROOM)"
  "read32 (join_request i) 4 = Inr i"
  "read16 leave_request 0 = Inr 4" "read16 leave_request 2 = Inr (msg_code C2S_LEAVE_ROOM)"
  using read_body [of _ _ i "[]"]
  by (simp_all add: room_list_request_def create_request_def join_request_def leave_request_def read_header
      read_header_only sizes del: msg_code.simps)

lemma read_create:
  assumes "length junk = 64"
  shows "c_str (drop 4 (create_request junk title mx)) = Inr (wire_title title)"
    "read32 (create_request junk title mx) 68 = Inr mx"
proof -
  have j: "junk \<noteq> []" using assms by auto
  show "c_str (drop 4 (create_request junk title mx)) = Inr (wire_title title)"
    using c_str_fill_text [OF j, of title "put32 mx"] assms by (simp add: create_request_def wire_title_def)
  show "read32 (create_request junk title mx) 68 = Inr mx"
    using read32_put [of "msg_header 72 C2S_CREATE_ROOM @ fill_text junk title" 68 mx "[]"] j assms
    by (simp add: create_request_def sizes)
qed

lemma dispatch_requests:
  assumes "GetPlayer st sid = Some p" "length cjunk = 64"
  shows "DispatchDataReceived os junk st sid (request_msg cjunk req) =
    (case req of ReqRoomList \<Rightarrow> HandleRequestRoomList os st p
       | ReqCreate title mx \<Rightarrow> HandleCreateRoom os junk st p (create_request cjunk title mx)
       | ReqJoin roomId \<Rightarrow> HandleJoinRoom os junk st p (join_request roomId)
       | ReqLeave \<Rightarrow> HandleLeaveRoom os st p)"
  using assms
  by (cases req) (simp_all add: DispatchDataReceived_def read_requests sizes del: msg_code.simps)

text \<open>One answer, or one and an error, with the rooms set to \<open>m\<close>.\<close>

lemma answers_rooms:
  assumes st: "game_ok (st\<lparr>ct_rooms := m\<rparr>)" and p: "p < length (ct_store st)" "pl_sessionId (ct_store st ! p) = sid"
    and len: "l1 = of_nat (length d1)" "l2 = of_nat (length d2)"
  shows "answers os sid st m [d1] (send_to os (st\<lparr>ct_rooms := m\<rparr>) p d1 l1)"
    "answers os sid st m [d1, d2] (andThen (send_to os (st\<lparr>ct_rooms := m\<rparr>) p d1 l1) (\<lambda>st. send_to os st p d2 l2))"
proof -
  have 1: "answers os sid (st\<lparr>ct_rooms := m, ct_network := net\<rparr>) m [d2]
      (send_to os (st\<lparr>ct_rooms := m, ct_network := net\<rparr>) p d2 l2)"
    if "game_ok (st\<lparr>ct_rooms := m, ct_network := net\<rparr>)" for net
    using answers_last [OF that, of p sid l2 d2 os] p len by (simp add: answers_nil answers_def)
  show "answers os sid st m [d1] (send_to os (st\<lparr>ct_rooms := m\<rparr>) p d1 l1)"
    using answers_last [OF st, of p sid l1 d1 os] p len by (simp add: answers_nil answers_def)
  have "answers os sid (st\<lparr>ct_rooms := m\<rparr>) (ct_rooms (st\<lparr>ct_rooms := m\<rparr>)) [d1, d2]
      (andThen (send_to os (st\<lparr>ct_rooms := m\<rparr>) p d1 l1) (\<lambda>st. send_to os st p d2 l2))"
    using 1 p len by (intro answers_send [OF st]) auto
  then show "answers os sid st m [d1, d2]
      (andThen (send_to os (st\<lparr>ct_rooms := m\<rparr>) p d1 l1) (\<lambda>st. send_to os st p d2 l2))"
    by (simp add: answers_def)
qed

lemmas send_defs = SendRoomCreated_def SendRoomJoined_def SendRoomLeft_def SendError_def

lemma answers_same_rooms:
  assumes st: "game_ok st" and p: "p < length (ct_store st)" "pl_sessionId (ct_store st ! p) = sid"
    and len: "l1 = of_nat (length d1)" "l2 = of_nat (length d2)"
  shows "answers os sid st (ct_rooms st) [d1] (send_to os st p d1 l1)"
    "answers os sid st (ct_rooms st) [d1, d2] (andThen (send_to os st p d1 l1) (\<lambda>st. send_to os st p d2 l2))"
  using answers_rooms [where m = "ct_rooms st", OF _ p len, of os] st by simp_all

text \<open>The rooms after a handler are those of the service.\<close>

definition served ::
  "os \<Rightarrow> byte list \<Rightarrow> int64_t \<Rightarrow> CCentralizedServer \<Rightarrow> answer list \<times> int32_t \<times> room_view list \<Rightarrow> CCentralizedServer res \<Rightarrow> bool" where
  "served os junk sid st out r \<longleftrightarrow>
     (\<exists>m. answers os sid st m
        (map (answer_msg junk (map (live (ct_rooms st)) (mgr_roomList (ct_rooms st)))) (fst out)) r \<and>
        game_ok (st\<lparr>ct_rooms := m\<rparr>) \<and> (mgr_roomIdCounter m, views m) = snd out)"

abbreviation directory :: "CCentralizedServer \<Rightarrow> int32_t \<times> room_view list" where
  "directory st \<equiv> (mgr_roomIdCounter (ct_rooms st), views (ct_rooms st))"

lemma ucast_of_nat: "(ucast (of_nat n :: size_t) :: int32_t) = of_nat n"
  by (rule word_unat_eq_iff [THEN iffD2]) (simp add: unsigned_ucast_eq unsigned_of_nat take_bit_take_bit)

lemma serve_list:
  assumes st: "game_ok st" and p: "p < length (ct_store st)" "pl_sessionId (ct_store st ! p) = sid"
  shows "served os junk sid st (serve ReqRoomList p (directory st)) (HandleRequestRoomList os st p)"
proof -
  let ?rooms = "map (live (ct_rooms st)) (mgr_roomList (ct_rooms st))"
  have "answers os sid st (ct_rooms st) [room_list_msg ?rooms]
      (send_to os st p (room_list_msg ?rooms) (ucast (room_list_size ?rooms)))"
    by (rule answers_same_rooms(1) [OF st p _ refl]) (simp only: room_list_size_eq length_room_list_msg ucast_of_nat)
  then show ?thesis
    using SendRoomList_eq [OF st] st by (auto simp: served_def HandleRequestRoomList_def Let_def)
qed

lemma serve_leave:
  assumes st: "game_ok st" and p: "p < length (ct_store st)" "pl_sessionId (ct_store st ! p) = sid"
  shows "served os junk sid st (serve ReqLeave p (directory st)) (HandleLeaveRoom os st p)"
proof -
  obtain b m where leave: "LeaveRoom (ct_rooms st) (Some p) = Inr (b, m)" "mgr_ok m"
      "spec_leave p (views (ct_rooms st)) = (b, views m)" "mgr_roomIdCounter m = mgr_roomIdCounter (ct_rooms st)"
    using LeaveRoom_refines [of "ct_rooms st" p] st by (auto simp: game_ok_def)
  have ok: "game_ok (st\<lparr>ct_rooms := m\<rparr>)"
    using st in_leave [OF leave(3)] by (intro game_ok_rooms leave(2)) (auto simp: game_ok_def)
  have "answers os sid st m [room_left_msg b] (SendRoomLeft os (st\<lparr>ct_rooms := m\<rparr>) p b)"
    unfolding send_defs by (rule answers_rooms(1) [OF ok p _ refl]) (simp add: sizes)
  then show ?thesis using leave ok by (auto simp: served_def HandleLeaveRoom_def)
qed

lemma serve_join:
  assumes st: "game_ok st" and p: "p < length (ct_store st)" "pl_sessionId (ct_store st ! p) = sid"
    and known: "p \<in> snd ` set (ct_players st)" and junk: "length junk = 256"
  shows "served os junk sid st (serve (ReqJoin roomId) p (directory st)) (HandleJoinRoom os junk st p (join_request roomId))"
proof -
  obtain b m where join: "JoinRoom (ct_rooms st) roomId (Some p) = Inr (b, m)" "mgr_ok m"
      "spec_join roomId p (views (ct_rooms st)) = (b, views m)" "mgr_roomIdCounter m = mgr_roomIdCounter (ct_rooms st)"
    using JoinRoom_refines [of "ct_rooms st" roomId p] st by (auto simp: game_ok_def)
  have ok: "game_ok (st\<lparr>ct_rooms := m\<rparr>)"
    using st known in_join [OF join(3)] by (intro game_ok_rooms join(2)) (auto simp: game_ok_def)
  have h: "HandleJoinRoom os junk st p (join_request roomId) =
      andThen (SendRoomJoined os (st\<lparr>ct_rooms := m\<rparr>) p roomId b)
        (\<lambda>st. if b then Inr st else SendError os junk st p (str ''Failed to join room''))"
    using join(1) by (cases b) (simp_all add: HandleJoinRoom_def read_requests Let_def)
  have "answers os sid st m [room_reply S2C_ROOM_JOINED sizeof_S2C_ROOM_JOINED roomId True]
      (SendRoomJoined os (st\<lparr>ct_rooms := m\<rparr>) p roomId True)"
    unfolding send_defs by (rule answers_rooms(1) [OF ok p _ refl]) (simp add: sizes)
  moreover have "answers os sid st m [room_reply S2C_ROOM_JOINED sizeof_S2C_ROOM_JOINED roomId False,
        error_msg junk (str ''Failed to join room'')]
      (andThen (SendRoomJoined os (st\<lparr>ct_rooms := m\<rparr>) p roomId False) (\<lambda>st. SendError os junk st p (str ''Failed to join room'')))"
    unfolding send_defs by (rule answers_rooms(2) [OF ok p]) (simp_all add: sizes junk)
  ultimately show ?thesis using join(3,4) ok h by (cases b) (auto simp: served_def)
qed

text \<open>Joining the room just created.\<close>

lemma join_created:
  assumes "distinct (map rv_id (spec_create i t mx rs))" "0 < sint mx"
  shows "spec_join i p (spec_create i t mx rs) =
    (if in_some_room rs p then (False, spec_create i t mx rs)
     else (True, \<lparr>rv_id = i, rv_title = t, rv_max = mx, rv_players = [p]\<rparr> # rs))"
proof -
  have "rv_id v \<noteq> i" if "v \<in> set rs" for v using assms(1) that by (auto simp: spec_create_def)
  then have "map (\<lambda>v. if rv_id v = i then v\<lparr>rv_players := rv_players v @ [p]\<rparr> else v) rs = rs"
    by (intro map_idI) simp
  then show ?thesis using assms(2) by (simp add: spec_join_def in_some_room_def spec_create_def joinable_def)
qed

lemma serve_create:
  assumes st: "game_ok st" and p: "p < length (ct_store st)" "pl_sessionId (ct_store st ! p) = sid"
    and known: "p \<in> snd ` set (ct_players st)" and junk: "length junk = 256" "length cjunk = 64"
    and cnt: "sint (mgr_roomIdCounter (ct_rooms st)) < 2 ^ 31 - 1"
  shows "served os junk sid st (serve (ReqCreate title mx) p (directory st))
    (HandleCreateRoom os junk st p (create_request cjunk title mx))"
proof -
  let ?t = "wire_title title" and ?i = "mgr_roomIdCounter (ct_rooms st)" and ?rs = "views (ct_rooms st)"
  have mgr: "mgr_ok (ct_rooms st)" using st by (simp add: game_ok_def)
  obtain e where e: "FindRoomByTitle (ct_rooms st) ?t = Inr e" "e \<noteq> None \<longleftrightarrow> list_ex (\<lambda>v. rv_title v = ?t) ?rs"
    using FindRoomByTitle_ok [OF mgr] by blast
  note reads = read_create [OF junk(2)]
  have two: "answers os sid st m [room_reply S2C_ROOM_CREATED sizeof_S2C_ROOM_CREATED i b, error_msg junk c]
      (andThen (SendRoomCreated os (st\<lparr>ct_rooms := m\<rparr>) p i b) (\<lambda>st. SendError os junk st p c))"
    if "game_ok (st\<lparr>ct_rooms := m\<rparr>)" for m i b c
    unfolding send_defs by (rule answers_rooms(2) [OF that p]) (simp_all add: sizes junk)
  note refused = two [of "ct_rooms st", simplified, OF st]
  consider "?t = [] \<or> sint mx < 2 \<or> 10 < sint mx" | "\<not> (?t = [] \<or> sint mx < 2 \<or> 10 < sint mx)" "e \<noteq> None"
    | "\<not> (?t = [] \<or> sint mx < 2 \<or> 10 < sint mx)" "e = None" by blast
  then show ?thesis
  proof cases
    case 1
    then show ?thesis using refused [of "- 1" False "str ''Invalid room parameters''"] st
      by (auto simp: served_def HandleCreateRoom_def reads Let_def)
  next
    case 2
    then show ?thesis using refused [of "- 1" False "str ''Room title already exists''"] st e
      by (auto simp: served_def HandleCreateRoom_def reads Let_def)
  next
    case 3
    then have "0 \<le> sint mx" and mx: "0 < sint mx" by auto
    then obtain r m1 where create: "CreateRoom (ct_rooms st) ?t mx = Inr (r, m1)" "mgr_ok m1"
        "views m1 = spec_create ?i ?t mx ?rs" "r \<in> set (mgr_roomList m1)" "mgr_roomIdCounter m1 = ?i + 1"
        "rm_roomId (live m1 r) = ?i"
      using CreateRoom_refines [OF mgr _ cnt] by blast
    obtain b m where join: "JoinRoom m1 ?i (Some p) = Inr (b, m)" "mgr_ok m"
        "spec_join ?i p (views m1) = (b, views m)" "mgr_roomIdCounter m = mgr_roomIdCounter m1"
      using JoinRoom_refines [OF create(2)] by blast
    have ok: "game_ok (st\<lparr>ct_rooms := m\<rparr>)"
      using st known in_join [OF join(3)] create(3) by (intro game_ok_rooms join(2)) (auto simp: game_ok_def in_create)
    have h: "HandleCreateRoom os junk st p (create_request cjunk title mx) =
        andThen (SendRoomCreated os (st\<lparr>ct_rooms := m\<rparr>) p ?i b)
          (\<lambda>st. if b then Inr st else SendError os junk st p (str ''Failed to join created room''))"
      using 3 e(1) create(1,6) mgr_okD(4) [OF create(2,4)] join(1)
      by (cases b) (simp_all add: HandleCreateRoom_def reads Let_def)
    have joined: "spec_join ?i p (views m1) = (if in_some_room ?rs p then (False, spec_create ?i ?t mx ?rs)
        else (True, \<lparr>rv_id = ?i, rv_title = ?t, rv_max = mx, rv_players = [p]\<rparr> # ?rs))"
      using join_created [OF _ mx] views_join_id [OF create(2)] create(3) by simp
    have spec: "serve (ReqCreate title mx) p (?i, ?rs) =
        (AnsCreated ?i b # (if b then [] else [AnsError (str ''Failed to join created room'')]), ?i + 1, views m)"
      using 3 e(2) joined join(3) by (auto simp: Let_def split: if_splits)
    have "answers os sid st m [room_reply S2C_ROOM_CREATED sizeof_S2C_ROOM_CREATED ?i True]
        (SendRoomCreated os (st\<lparr>ct_rooms := m\<rparr>) p ?i True)"
      unfolding send_defs by (rule answers_rooms(1) [OF ok p _ refl]) (simp add: sizes)
    then show ?thesis
      using two [OF ok, of ?i False "str ''Failed to join created room''"] ok create(5) join(4)
      unfolding served_def h spec by (cases b) auto
  qed
qed

text \<open>The dispatch of the server serves every request the client can send.\<close>

lemma dispatch_serves:
  assumes st: "game_ok st" and known: "GetPlayer st sid = Some p" and junk: "length junk = 256" "length cjunk = 64"
    and cnt: "sint (mgr_roomIdCounter (ct_rooms st)) < 2 ^ 31 - 1"
  shows "served os junk sid st (serve req p (directory st)) (DispatchDataReceived os junk st sid (request_msg cjunk req))"
proof -
  note p = registered [OF st known]
  show ?thesis
    unfolding dispatch_requests [OF known junk(2)]
    using serve_list [OF st p(1,2), of os junk] serve_create [OF st p junk cnt] serve_join [OF st p junk(1)]
      serve_leave [OF st p(1,2), of os junk]
    by (cases req) (simp_all del: serve.simps)
qed

lemma send_answers_ok:
  "srv_ok net \<Longrightarrow> send_answers os sid msgs net = Inr net' \<Longrightarrow> srv_ok net'"
proof (induction msgs arbitrary: net)
  case (Cons msg msgs)
  have "unat (of_nat (length msg) :: int32_t) \<le> length msg" by (rule unat_of_nat_le)
  then obtain net1 where "RequestSendMsg os net sid msg (of_nat (length msg)) = Inr net1" "srv_ok net1"
    using RequestSendMsg_total [OF Cons.prems(1) length_fits, of _ msg os sid] by blast
  then show ?case using Cons by simp
qed simp

end
