(* ===== verification/ClientAnswers.thy ===== *)
theory ClientAnswers
  imports Lobby
begin

text \<open>
  What the client makes of the answers of the server, and the agreement of both sides on
  where a player is.
\<close>

section \<open>The effect of an answer\<close>

text \<open>The row of a room in the list, with the title as it fits the message.\<close>

definition info_row :: "CRoom \<Rightarrow> InfoRow" where
  "info_row rm = \<lparr>ir_roomId = rm_roomId rm, ir_title = wire_title (rm_title rm), ir_currentPlayers = rm_currentPlayers rm,
     ir_maxPlayers = rm_maxPlayers rm, ir_status = (case rm_status rm of WAITING \<Rightarrow> ''WAITING'' | PLAYING \<Rightarrow> ''PLAYING'')\<rparr>"

text \<open>An error text that fits the message.\<close>

definition wire_error :: "byte list \<Rightarrow> byte list" where
  "wire_error t = take 255 (takeWhile (\<lambda>c. c \<noteq> 0) t)"

fun client_after :: "CRoom list \<Rightarrow> answer \<Rightarrow> CGameInstance \<Rightarrow> CGameInstance" where
  "client_after rooms AnsRoomList gi =
     show_on (if rooms = [] then ShownNoRooms else ShownRoomList (map info_row rooms)) gi"
| "client_after rooms (AnsCreated roomId b) gi =
     (if b then show_on (ShownCreated (Some roomId)) (gi\<lparr>gi_room := cr_OnRoomCreated (gi_room gi) roomId\<rparr>)
      else show_on (ShownCreated None) gi)"
| "client_after rooms (AnsJoined roomId b) gi =
     (if b then show_on (ShownJoined (Some roomId)) (gi\<lparr>gi_room := cr_OnRoomJoined (gi_room gi) roomId\<rparr>)
      else show_on (ShownJoined None) gi)"
| "client_after rooms (AnsLeft b) gi =
     (if b then show_on (ShownLeft True) (gi\<lparr>gi_room := cr_OnRoomLeft (gi_room gi)\<rparr>) else show_on (ShownLeft False) gi)"
| "client_after rooms (AnsError t) gi = show_on (ShownError (wire_error t)) gi"

section \<open>Reading the room list\<close>

lemma read_rooms_ok:
  "buf = pre @ concat rs @ rest \<Longrightarrow> length pre = off \<Longrightarrow> \<forall>r \<in> set rs. length r = 77 \<Longrightarrow>
   read_rooms buf off (length rs) = Inr rs"
proof (induction rs arbitrary: pre off)
  case (Cons r rs)
  have "read_rooms buf (off + 77) (length rs) = Inr rs"
    using Cons.prems by (intro Cons.IH [of "pre @ r"]) simp_all
  then show ?case using Cons.prems by (simp add: sizes)
qed simp

lemma room_info_reads:
  "read8 (room_info rm) 76 = Inr (status_byte (rm_status rm))" "read32 (room_info rm) 0 = Inr (rm_roomId rm)"
  "c_str (drop 4 (room_info rm) @ rest) = Inr (wire_title (rm_title rm))"
  "read32 (room_info rm) 68 = Inr (rm_currentPlayers rm)" "read32 (room_info rm) 72 = Inr (rm_maxPlayers rm)"
proof -
  have len: "length (fill_text (replicate 64 0) (rm_title rm)) = 64" by simp
  show "read8 (room_info rm) 76 = Inr (status_byte (rm_status rm))"
    by (simp add: read8_def room_info_def nth_append)
  show "read32 (room_info rm) 0 = Inr (rm_roomId rm)"
    using read32_put [of "[]"] by (simp add: room_info_def)
  show "c_str (drop 4 (room_info rm) @ rest) = Inr (wire_title (rm_title rm))"
    using c_str_fill_text [of "replicate 64 0" "rm_title rm"] by (simp add: room_info_def wire_title_def)
  show "read32 (room_info rm) 68 = Inr (rm_currentPlayers rm)"
    using read32_put [of "put32 (rm_roomId rm) @ fill_text (replicate 64 0) (rm_title rm)" 68] by (simp add: room_info_def)
  show "read32 (room_info rm) 72 = Inr (rm_maxPlayers rm)"
    using read32_put [of "put32 (rm_roomId rm) @ fill_text (replicate 64 0) (rm_title rm) @ put32 (rm_currentPlayers rm)" 72]
    by (simp add: room_info_def)
qed

lemma DisplayRoomList_ok: "DisplayRoomList (map room_info rooms) = Inr (map info_row rooms)"
proof (induction rooms)
  case (Cons rm rooms)
  have "(if status_byte (rm_status rm) = 0 then ''WAITING'' else ''PLAYING'') =
      (case rm_status rm of WAITING \<Rightarrow> ''WAITING'' | PLAYING \<Rightarrow> ''PLAYING'')"
    by (cases "rm_status rm") simp_all
  then show ?case using Cons by (simp add: room_info_reads info_row_def)
qed simp

lemma sint_count_pos: "0 < n \<Longrightarrow> n \<le> 53 \<Longrightarrow> (of_nat n :: int32_t) \<noteq> 0 \<and> nat (sint (of_nat n :: int32_t)) = n"
  using sint_count [of n] by auto

lemma OnRoomListReceived_ok:
  assumes "length rooms \<le> 53"
  shows "OnRoomListReceived gi (room_list_msg rooms @ rest) n = Inr (client_after rooms AnsRoomList gi)"
proof -
  let ?h = "msg_header (ucast (room_list_size rooms)) S2C_ROOM_LIST" and ?n = "of_nat (length rooms) :: int32_t"
  have count: "read32 (room_list_msg rooms @ rest) 4 = Inr ?n"
    using read_body [of _ _ ?n] by (simp add: room_list_msg_def)
  have rooms: "read_rooms (room_list_msg rooms @ rest) 8 (length rooms) = Inr (map room_info rooms)"
    using read_rooms_ok [of "room_list_msg rooms @ rest" "?h @ put32 ?n" "map room_info rooms" rest 8]
    by (simp add: room_list_msg_def)
  show ?thesis
  proof (cases "rooms = []")
    case True
    then show ?thesis using count by (simp add: OnRoomListReceived_def)
  next
    case False
    then have "?n \<noteq> 0" "nat (sint ?n) = length rooms" using sint_count_pos [OF _ assms] by auto
    then show ?thesis using False count rooms by (simp add: OnRoomListReceived_def DisplayRoomList_ok sizes)
  qed
qed

section \<open>Every answer\<close>

text \<open>An answer fits the receive buffer of the client; only a list of more than 53 rooms does not.\<close>

definition fits_client :: "CRoom list \<Rightarrow> answer \<Rightarrow> bool" where
  "fits_client rooms a \<longleftrightarrow> (a = AnsRoomList \<longrightarrow> length rooms \<le> 53)"

lemma answer_length:
  assumes "length junk = 256" "fits_client rooms a"
  shows "4 \<le> length (answer_msg junk rooms a)" "length (answer_msg junk rooms a) \<le> 4096"
  using assms by (cases a; auto simp: length_room_list_msg fits_client_def)+

lemma answer_size:
  assumes "length junk = 256" "fits_client rooms a"
  shows "\<exists>sz. read16 (answer_msg junk rooms a @ rest) 0 = Inr sz \<and> unat sz = length (answer_msg junk rooms a)"
proof (cases a)
  case AnsRoomList
  have "unat (ucast (of_nat (8 + 77 * length rooms) :: size_t) :: uint16_t) = 8 + 77 * length rooms"
    using assms(2) AnsRoomList by (simp add: fits_client_def unsigned_ucast_eq unsigned_of_nat take_bit_nat_eq_self del: of_nat_add)
  then show ?thesis
    using AnsRoomList length_room_list_msg [of rooms] by (simp add: room_list_msg_def read_header room_list_size_eq)
next
  case (AnsError t)
  then show ?thesis using length_messages(3) [OF assms(1), of t] by (simp add: error_msg_def read_header sizes)
qed (simp_all add: room_reply_def room_left_msg_def read_header sizes)

lemma HandleServerMessage_ok:
  assumes gi: "cn_gameInstance (gi_network gi)" and junk: "length junk = 256" and fits: "fits_client rooms a"
    and n: "length (answer_msg junk rooms a) \<le> n"
  shows "HandleServerMessage gi (answer_msg junk rooms a @ rest) n = Inr (client_after rooms a gi)"
proof -
  let ?m = "answer_msg junk rooms a"
  obtain sz where sz: "read16 (?m @ rest) 0 = Inr sz" "unat sz = length ?m" using answer_size [OF junk fits] by blast
  then have h: "HandleServerMessage gi (?m @ rest) n = andThen (read16 (?m @ rest) 2) (\<lambda>type.
      if type = msg_code S2C_ROOM_LIST then (if 8 \<le> n then OnRoomListReceived gi (?m @ rest) n else Inr gi)
      else if type = msg_code S2C_ROOM_CREATED then (if 9 \<le> n then OnRoomCreated gi (?m @ rest) else Inr gi)
      else if type = msg_code S2C_ROOM_JOINED then (if 9 \<le> n then OnRoomJoined gi (?m @ rest) else Inr gi)
      else if type = msg_code S2C_ROOM_LEFT then (if 5 \<le> n then OnRoomLeft gi (?m @ rest) else Inr gi)
      else if type = msg_code S2C_ERROR then (if 260 \<le> n then OnError gi (?m @ rest) else Inr gi)
      else Inr (show_on (ShownUnknownType type) gi))"
    using gi n answer_length(1) [OF junk fits] by (simp add: HandleServerMessage_def sizes del: msg_code.simps)
  show ?thesis
  proof (cases a)
    case AnsRoomList
    then show ?thesis
      using h n OnRoomListReceived_ok [of rooms gi rest n] fits read_header(2) [of _ S2C_ROOM_LIST]
      by (simp add: fits_client_def room_list_msg_def length_room_list_msg [unfolded room_list_msg_def] del: msg_code.simps)
  next
    case (AnsCreated i b)
    then show ?thesis using h n
      by (cases b) (simp_all add: room_reply_def read_header read_body OnRoomCreated_def read8_def nth_append del: msg_code.simps)
  next
    case (AnsJoined i b)
    then show ?thesis using h n
      by (cases b) (simp_all add: room_reply_def read_header read_body OnRoomJoined_def read8_def nth_append del: msg_code.simps)
  next
    case (AnsLeft b)
    then show ?thesis using h n
      by (cases b) (simp_all add: room_left_msg_def read_header OnRoomLeft_def read8_def nth_append del: msg_code.simps)
  next
    case (AnsError t)
    have "junk \<noteq> []" using junk by auto
    then show ?thesis using h n AnsError junk c_str_fill_text [of junk t rest]
      by (simp add: error_msg_def read_header OnError_def wire_error_def del: msg_code.simps)
  qed
qed

section \<open>Receiving answers one by one\<close>

lemma client_after_network [simp]: "gi_network (client_after rooms a gi) = gi_network gi"
  by (cases a) (simp_all add: show_on_def)

definition receiving :: "CGameInstance \<Rightarrow> bool" where
  "receiving gi \<longleftrightarrow> cn_gameInstance (gi_network gi) \<and> cn_connected (gi_network gi) \<and> cn_running (gi_network gi)"

lemma RecvThread_step:
  assumes gi: "receiving gi" and junk: "length junk = 256" and fits: "fits_client rooms a"
    and buf: "length (answer_msg junk rooms a @ more_bytes) \<le> 4096"
  shows "RecvThread buf ((answer_msg junk rooms a @ more_bytes) # pieces) gi =
    RecvThread (answer_msg junk rooms a @ more_bytes @ drop (length (answer_msg junk rooms a @ more_bytes)) buf) pieces
      (client_after rooms a gi)"
proof -
  let ?p = "answer_msg junk rooms a @ more_bytes"
  have "take 4096 ?p = ?p" using buf by simp
  moreover have "answer_msg junk rooms a \<noteq> []" using answer_length(1) [OF junk fits] by auto
  moreover have "HandleServerMessage gi (?p @ drop (length ?p) buf) (length ?p) = Inr (client_after rooms a gi)"
    using HandleServerMessage_ok [OF _ junk fits, of gi "length ?p" "more_bytes @ drop (length ?p) buf"] gi
    by (simp add: receiving_def)
  ultimately show ?thesis using gi by (simp add: receiving_def Let_def)
qed

lemma RecvThread_answers:
  "receiving gi \<Longrightarrow> length junk = 256 \<Longrightarrow> list_all (fits_client rooms) as \<Longrightarrow>
   RecvThread buf (map (answer_msg junk rooms) as) gi = Inr (fold (client_after rooms) as gi)"
proof (induction as arbitrary: buf gi)
  case (Cons a as)
  have "receiving (client_after rooms a gi)" using Cons.prems(1) by (simp add: receiving_def)
  then show ?case
    using Cons RecvThread_step [OF Cons.prems(1,2), of rooms a "[]" buf "map (answer_msg junk rooms) as"]
      answer_length(2) [OF Cons.prems(2), of rooms a] by simp
qed simp

section \<open>Both sides agree on where the player is\<close>

definition agrees :: "ClientRoom \<Rightarrow> player_ptr \<Rightarrow> room_view list \<Rightarrow> bool" where
  "agrees cr p rs \<longleftrightarrow>
     (if cr_inRoom cr then list_ex (\<lambda>v. rv_id v = cr_roomId cr \<and> p \<in> set (rv_players v)) rs
      else \<not> in_some_room rs p)"

lemma client_room_after [simp]:
  "gi_room (show_on e gi) = gi_room gi"
  "cr_inRoom (cr_OnRoomCreated cr i)" "cr_roomId (cr_OnRoomCreated cr i) = i"
  "cr_inRoom (cr_OnRoomJoined cr i)" "cr_roomId (cr_OnRoomJoined cr i) = i"
  "\<not> cr_inRoom (cr_OnRoomLeft cr)"
  by (simp_all add: show_on_def cr_OnRoomCreated_def cr_OnRoomJoined_def cr_OnRoomLeft_def InitPlayers_eq)

lemma join_keeps:
  assumes "spec_join i q rs = (b, rs')" "v \<in> set rs" "p \<in> set (rv_players v) \<or> b \<and> rv_id v = i \<and> p = q"
  shows "list_ex (\<lambda>w. rv_id w = rv_id v \<and> p \<in> set (rv_players w)) rs'"
proof -
  let ?f = "\<lambda>v. if rv_id v = i then v\<lparr>rv_players := rv_players v @ [q]\<rparr> else v"
  have "rs' = (if b then map ?f rs else rs)" using assms(1) by (auto simp: spec_join_def split: if_splits)
  then have "(if b then ?f v else v) \<in> set rs'" using assms(2) by auto
  moreover have "rv_id (if b then ?f v else v) = rv_id v" "p \<in> set (rv_players (if b then ?f v else v))"
    using assms(3) by auto
  ultimately show ?thesis unfolding list_ex_iff by blast
qed

lemma agrees_create: "agrees cr p rs \<Longrightarrow> agrees cr p (spec_create i t mx rs)"
  by (auto simp: agrees_def spec_create_def in_some_room_def split: if_splits)

lemma serve_agrees:
  assumes ag: "agrees (gi_room gi) p rs" and dist: "\<forall>v \<in> set rs. distinct (rv_players v)"
    and serve: "serve req p (i, rs) = (as, i', rs')"
  shows "agrees (gi_room (fold (client_after rooms) as gi)) p rs'"
proof (cases req)
  case ReqRoomList
  then show ?thesis using ag serve by auto
next
  case (ReqCreate title mx)
  then show ?thesis using ag serve agrees_create [OF ag]
    by (auto simp: Let_def agrees_def [of "cr_OnRoomCreated _ _"] split: if_splits)
next
  case (ReqJoin roomId)
  obtain b where b: "spec_join roomId p rs = (b, rs')" using serve ReqJoin by (auto split: prod.splits)
  show ?thesis
  proof (cases b)
    case True
    then obtain v where "v \<in> set rs" "rv_id v = roomId"
      using b by (auto simp: spec_join_def list_ex_iff split: if_splits)
    then have "list_ex (\<lambda>v. rv_id v = roomId \<and> p \<in> set (rv_players v)) rs'"
      using join_keeps [OF b, of v p] True by simp
    then show ?thesis using True b serve ReqJoin by (auto simp: agrees_def)
  next
    case False
    then have "rs' = rs" using b by (auto simp: spec_join_def split: if_splits)
    then show ?thesis using False b ag serve ReqJoin by auto
  qed
next
  case ReqLeave
  obtain b where b: "spec_leave p rs = (b, rs')" using serve ReqLeave by (auto split: prod.splits)
  show ?thesis
  proof (cases b)
    case True
    have "\<not> in_some_room rs' p"
      using b dist by (auto simp: spec_leave_def in_some_room_def list_ex_iff split: if_splits)
    then show ?thesis using True b serve ReqLeave by (auto simp: agrees_def)
  next
    case False
    then have "rs' = rs" using b by (auto simp: spec_leave_def split: if_splits)
    then show ?thesis using False b ag serve ReqLeave by auto
  qed
qed

text \<open>The requests of other players do not disturb the agreement.\<close>

lemma serve_agrees_other:
  assumes ag: "agrees cr p rs" and other: "q \<noteq> p" and serve: "serve req q (i, rs) = (as, i', rs')"
  shows "agrees cr p rs'"
proof (cases req)
  case (ReqCreate title mx)
  have "agrees cr p (\<lparr>rv_id = i, rv_title = wire_title title, rv_max = mx, rv_players = [q]\<rparr> # rs)"
    using ag other by (auto simp: agrees_def in_some_room_def split: if_splits)
  then show ?thesis using ag serve ReqCreate agrees_create [OF ag] by (auto simp: Let_def split: if_splits)
next
  case (ReqJoin roomId)
  obtain b where b: "spec_join roomId q rs = (b, rs')" using serve ReqJoin by (auto split: prod.splits)
  show ?thesis
  proof (cases "cr_inRoom cr")
    case True
    then obtain v where v: "v \<in> set rs" "rv_id v = cr_roomId cr" "p \<in> set (rv_players v)"
      using ag by (auto simp: agrees_def list_ex_iff)
    then have "list_ex (\<lambda>v. rv_id v = cr_roomId cr \<and> p \<in> set (rv_players v)) rs'"
      using join_keeps [OF b, of v p] by simp
    then show ?thesis using True by (simp add: agrees_def)
  next
    case False
    then show ?thesis using ag in_join [OF b] other by (auto simp: agrees_def)
  qed
next
  case ReqLeave
  obtain b where b: "spec_leave q rs = (b, rs')" using serve ReqLeave by (auto split: prod.splits)
  show ?thesis
  proof (cases "cr_inRoom cr")
    case True
    then obtain v where v: "v \<in> set rs" "rv_id v = cr_roomId cr" "p \<in> set (rv_players v)"
      using ag by (auto simp: agrees_def list_ex_iff)
    then have "rv_players v \<noteq> [q]" "p \<in> set (remove1 q (rv_players v))" using other by auto
    then have "list_ex (\<lambda>v. rv_id v = cr_roomId cr \<and> p \<in> set (rv_players v)) rs'"
      using b v by (auto simp: spec_leave_def list_ex_iff split: if_splits)
    then show ?thesis using True by (simp add: agrees_def)
  next
    case False
    then show ?thesis using ag in_leave [OF b] by (auto simp: agrees_def)
  qed
qed (use ag serve in simp)

end
