(* ===== verification/Transport.thy ===== *)
theory Transport
  imports ClientAnswers Framing
begin

text \<open>
  Messages on the way between client and server: what the client's requests put on the wire and
  how the server's framing cuts it, and messages that do not get through.
\<close>

section \<open>Requests on the wire\<close>

text \<open>The call of the client program that issues a request.\<close>

fun issue :: "send_fun \<Rightarrow> byte list \<Rightarrow> request \<Rightarrow> CGameInstance \<Rightarrow> CGameInstance" where
  "issue snd_os junk ReqRoomList gi = gi\<lparr>gi_network := RequestRoomList snd_os (gi_network gi)\<rparr>"
| "issue snd_os junk (ReqCreate title maxPlayers) gi = cr_RequestCreateRoom snd_os junk gi title maxPlayers"
| "issue snd_os junk (ReqJoin roomId) gi = cr_RequestJoinRoom snd_os gi roomId"
| "issue snd_os junk ReqLeave gi = cr_RequestLeaveRoom snd_os gi"

text \<open>A \<open>send\<close> that takes all bytes.\<close>

definition sends_all :: "send_fun \<Rightarrow> bool" where
  "sends_all snd_os \<longleftrightarrow> (\<forall>data. snd_os data = Some (length data))"

lemma issue_wire:
  assumes "sends_all snd_os" "cn_connected (gi_network gi)" "cr_network (gi_room gi)"
  shows "cn_wire (gi_network (issue snd_os junk req gi)) = cn_wire (gi_network gi) @ request_msg junk req"
    "cn_connected (gi_network (issue snd_os junk req gi))" "cr_network (gi_room (issue snd_os junk req gi))"
  using assms
  by (cases req; simp add: RequestRoomList_def cr_RequestCreateRoom_def RequestCreateRoom_def cr_RequestJoinRoom_def
      RequestJoinRoom_def cr_RequestLeaveRoom_def RequestLeaveRoom_def SendPacket_def sends_all_def)+

lemma issue_all_wire:
  "sends_all snd_os \<Longrightarrow> cn_connected (gi_network gi) \<Longrightarrow> cr_network (gi_room gi) \<Longrightarrow>
   cn_wire (gi_network (fold (issue snd_os junk) reqs gi)) =
     cn_wire (gi_network gi) @ concat (map (request_msg junk) reqs)"
  by (induction reqs arbitrary: gi) (simp_all add: issue_wire)

text \<open>The framing of the server cuts the requests apart.\<close>

lemma header_size: "packet_size False (msg_header sz t @ rest) = unat sz"
  by (simp add: packet_size_def msg_header_def put16_def join16_split)

lemma request_size:
  assumes "length junk = 64"
  shows "packet_size False (request_msg junk req @ rest) = length (request_msg junk req)"
proof -
  have "junk \<noteq> []" using assms by auto
  then show ?thesis using assms
    by (cases req) (simp_all add: room_list_request_def create_request_def join_request_def leave_request_def header_size sizes)
qed

lemma request_long: "length junk = 64 \<Longrightarrow> 4 \<le> length (request_msg junk req)"
  by (cases req) simp_all

lemma split_requests:
  assumes "length junk = 64"
  shows "split_packets False (concat (map (request_msg junk) reqs)) = (map (request_msg junk) reqs, [], False)"
proof (induction reqs)
  case (Cons req reqs)
  let ?r = "request_msg junk req" and ?rest = "concat (map (request_msg junk) reqs)"
  have "split_packets False (?r @ ?rest) = (case split_packets False ?rest of (ps, r, bad) \<Rightarrow> (?r # ps, r, bad))"
    using split_packet [of "?r @ ?rest" False] request_size [OF assms, of req ?rest] request_long [OF assms, of req] by simp
  then show ?case using Cons by simp
qed (simp add: split_short)

section \<open>Room lists that do not get through\<close>

text \<open>A list that is longer than the receive buffer of the client.\<close>

lemma long_list_header:
  assumes "53 < length rooms" "length rooms \<le> 851"
  shows "HandleServerMessage gi (take 4096 (room_list_msg rooms) @ rest) 4096 =
    (if cn_gameInstance (gi_network gi) then Inr (show_on ShownSizeMismatch gi) else Inr gi)"
proof -
  let ?w = "ucast (room_list_size rooms) :: uint16_t"
  have "unat ?w = 8 + 77 * length rooms"
    using assms by (simp add: room_list_size_eq unsigned_ucast_eq unsigned_of_nat take_bit_nat_eq_self del: of_nat_add)
  moreover have "read16 (take 4096 (room_list_msg rooms) @ rest) 0 = Inr ?w"
  proof -
    have "take 4096 (room_list_msg rooms) =
        msg_header ?w S2C_ROOM_LIST @ take 4092 (put32 (of_nat (length rooms)) @ concat (map room_info rooms))"
      by (simp add: room_list_msg_def)
    then show ?thesis by (simp only: append_assoc read_header)
  qed
  ultimately show ?thesis using assms by (simp add: HandleServerMessage_def sizes)
qed

text \<open>A count of rooms that exceeds the buffer.\<close>

lemma read_rooms_overrun: "off \<le> length buf \<Longrightarrow> length buf < off + 77 * n \<Longrightarrow> read_rooms buf off n = Inl OutOfBounds"
proof (induction n arbitrary: off)
  case (Suc n)
  show ?case
  proof (cases "length buf < off + 77")
    case False
    then have "read_rooms buf (off + 77) n = Inl OutOfBounds" using Suc.prems by (intro Suc.IH) simp_all
    then show ?thesis using False by (simp add: sizes)
  qed (simp add: sizes)
qed (simp add: sizes)

lemma OnRoomListReceived_overrun:
  assumes "length buf = 4096" "read32 buf 4 = Inr c" "53 < sint c"
  shows "OnRoomListReceived gi buf n = Inl OutOfBounds"
proof -
  have "length buf < 8 + 77 * nat (sint c)" using assms(1,3) by linarith
  moreover have "c \<noteq> 0" using assms(3) by auto
  ultimately show ?thesis using assms(1,2) by (simp add: OnRoomListReceived_def read_rooms_overrun sizes)
qed

text \<open>A message that does not fit an empty send queue disconnects its receiver.\<close>

lemma RequestSendMsg_too_long:
  assumes "FindSession srv sid = Some i" "session_at srv i = Some s" "session_ok s" "cs_valid s"
    and "65535 < length data" "length data < 2 ^ 31"
  shows "RequestSendMsg os srv sid data (of_nat (length data)) = Inr (disconnected srv i s)"
proof -
  let ?n = "of_nat (length data) :: int32_t"
  have u: "unat ?n = length data" using assms(6) by (simp add: unat_of_nat_small)
  have "room (cs_sendQ s) < 65536"
    using room_less [OF session_rings(1) [OF assms(3)]] assms(3) by (simp add: session_ok_def)
  moreover have "unat (scast ?n :: size_t) = length data \<or> 65536 \<le> unat (scast ?n :: size_t)"
    using scast_len [of ?n] u by simp
  ultimately have "\<not> unat (scast ?n :: size_t) \<le> room (cs_sendQ s)" using assms(5) by linarith
  then show ?thesis using RequestSendMsg_eq [OF assms(1-4), of ?n data os] by simp
qed

lemma SendRoomList_too_long:
  assumes "deref_rooms (ct_rooms st) (GetRoomList (ct_rooms st)) = Inr rooms" "851 < length rooms" "length rooms < 2 ^ 24"
    and "p < length (ct_store st)" "FindSession (ct_network st) (pl_sessionId (ct_store st ! p)) = Some i"
    and "session_at (ct_network st) i = Some s" "session_ok s" "cs_valid s"
  shows "SendRoomList os st p = Inr (st\<lparr>ct_network := disconnected (ct_network st) i s\<rparr>)"
proof -
  have "RequestSendMsg os (ct_network st) (pl_sessionId (ct_store st ! p)) (room_list_msg rooms)
      (of_nat (length (room_list_msg rooms))) = Inr (disconnected (ct_network st) i s)"
    using assms(2,3) by (intro RequestSendMsg_too_long assms(5-8)) (simp_all add: length_room_list_msg)
  moreover have "(ucast (room_list_size rooms) :: int32_t) = of_nat (length (room_list_msg rooms))"
    by (simp only: room_list_size_eq length_room_list_msg ucast_of_nat)
  ultimately show ?thesis
    using assms(1,4) by (simp add: SendRoomList_def send_to_def player_at_def GetSessionId_def)
qed

end
