(* ===== verification/GameProperties.thy ===== *)
theory GameProperties
  imports Demo Transport
begin

text \<open>
  The properties of rooms and of the game logic server, with their witnesses.
\<close>

section \<open>A concrete game\<close>

text \<open>The server of \<open>Demo\<close>, with the player of session 2 registered and the events \<open>es\<close> waiting.\<close>

definition demo_game :: "NetworkEvent list \<Rightarrow> CCentralizedServer" where
  "demo_game es =
     \<lparr>ct_network = demo_server Centralized\<lparr>srv_eventQueue := es\<rparr>, ct_rooms = CRoomManager_new, ct_running = True,
      ct_store = [CPlayer_new 2], ct_players = [(2, 0)]\<rparr>"

lemma demo_game_simps [simp]:
  "ct_rooms (demo_game es) = CRoomManager_new" "ct_players (demo_game es) = [(2, 0)]" "ct_running (demo_game es)"
  "srv_eventQueue (ct_network (demo_game es)) = es" "GetPlayer (demo_game es) 2 = Some 0"
  "mgr_roomIdCounter CRoomManager_new = 1"
  by (simp_all add: demo_game_def GetPlayer_def CRoomManager_new_def)

lemma demo_game_ok: "game_ok (demo_game es)"
  using demo_server_ok(2) [of Centralized]
  by (simp add: game_ok_def demo_game_def srv_ok_def mgr_ok_new in_some_room_def CPlayer_new_def)

section \<open>Rooms\<close>

text \<open>
  C11: The room manager is a directory of rooms.  Any sequence of CreateRoom, JoinRoom,
  LeaveRoom and DeleteRoom on a new manager, with limits that are not negative, returns without
  a fault; every result, and the rooms in the list, are those of the abstract directory; room
  ids are then unique, nobody is in two rooms, and no room is over its limit.  The list, the map
  by id and the map by player stay consistent.
\<close>

theorem room_manager_directory:
  assumes "list_all call_ok cs" "length cs < 2 ^ 31 - 1"
  shows "\<exists>bs m. room_run (\<lambda>m title maxPlayers. CreateRoom m title maxPlayers) (\<lambda>m roomId p. JoinRoom m roomId (Some p))
      (\<lambda>m p. LeaveRoom m (Some p)) DeleteRoom cs CRoomManager_new = Inr (bs, m) \<and>
    spec_run cs (1, []) = (bs, mgr_roomIdCounter m, views m) \<and> directory_ok (views m) \<and> mgr_ok m"
proof -
  have "sint (mgr_roomIdCounter CRoomManager_new) + int (length cs) < 2 ^ 31" using assms(2) by simp
  from rooms.run_refines [OF mgr_ok_new(1) assms(1) this] obtain bs m where
    run: "room_run (\<lambda>m title maxPlayers. CreateRoom m title maxPlayers) (\<lambda>m roomId p. JoinRoom m roomId (Some p))
      (\<lambda>m p. LeaveRoom m (Some p)) DeleteRoom cs CRoomManager_new = Inr (bs, m)" "mgr_ok m"
    "spec_run cs (1, []) = (bs, mgr_roomIdCounter m, views m)"
    by (auto simp: mgr_ok_new)
  have "directory_ok (views m)"
    using spec_run_ok [OF _ _ assms(1) _ run(3)] assms(2) by (simp add: directory_ok_def ids_below_def)
  then show ?thesis using run by blast
qed

theorem room_manager_directory_witness:
  "\<exists>m. room_run (\<lambda>m title maxPlayers. CreateRoom m title maxPlayers) (\<lambda>m roomId p. JoinRoom m roomId (Some p))
      (\<lambda>m p. LeaveRoom m (Some p)) DeleteRoom
      [CallCreate [65] 2, CallJoin 1 7, CallJoin 1 7, CallJoin 1 8, CallJoin 1 9, CallLeave 7] CRoomManager_new
      = Inr ([True, True, False, True, False, True], m) \<and>
    views m = [\<lparr>rv_id = 1, rv_title = [65], rv_max = 2, rv_players = [8]\<rparr>]"
proof -
  let ?cs = "[CallCreate [65] 2, CallJoin 1 7, CallJoin 1 7, CallJoin 1 8, CallJoin 1 9, CallLeave 7]"
  have "spec_run ?cs (1, []) = ([True, True, False, True, False, True], 2,
      [\<lparr>rv_id = 1, rv_title = [65], rv_max = 2, rv_players = [8]\<rparr>])"
    by (simp add: spec_create_def spec_join_def spec_leave_def in_some_room_def joinable_def)
  then show ?thesis using room_manager_directory [of ?cs] by auto
qed

text \<open>
  C22: Membership and ownership of a room.  In a well-formed room, AddPlayer refuses a member and
  a full room and otherwise appends the player; RemovePlayer refuses who is not a member and
  otherwise removes exactly that player.  Count and limit stay right, and the owner is always
  the player who has been there longest: when the owner leaves, the next one takes over.
\<close>

theorem room_membership:
  assumes "room_ok rm"
  shows "AddPlayer rm (Some p) =
      (if p \<in> set (rm_players rm) \<or> int (length (rm_players rm)) = sint (rm_maxPlayers rm) then (False, rm)
       else (True, rm\<lparr>rm_players := rm_players rm @ [p],
               rm_currentPlayers := of_nat (Suc (length (rm_players rm))),
               rm_owner := first_of (rm_players rm @ [p])\<rparr>)) \<and>
    RemovePlayer rm (Some p) =
      (if p \<notin> set (rm_players rm) then (False, rm)
       else (True, rm\<lparr>rm_players := remove1 p (rm_players rm),
               rm_currentPlayers := of_nat (length (remove1 p (rm_players rm))),
               rm_owner := first_of (remove1 p (rm_players rm))\<rparr>)) \<and>
    room_ok (snd (AddPlayer rm (Some p))) \<and> room_ok (snd (RemovePlayer rm (Some p)))"
proof (intro conjI)
  have out: "RemovePlayer rm (Some p) = (False, rm)" if "p \<notin> set (rm_players rm)"
    using that by (simp add: RemovePlayer_def)
  show "RemovePlayer rm (Some p) =
      (if p \<notin> set (rm_players rm) then (False, rm)
       else (True, rm\<lparr>rm_players := remove1 p (rm_players rm),
               rm_currentPlayers := of_nat (length (remove1 p (rm_players rm))),
               rm_owner := first_of (remove1 p (rm_players rm))\<rparr>))"
    using out RemovePlayer_eq [OF assms] by simp
  show "room_ok (snd (RemovePlayer rm (Some p)))"
    using out RemovePlayer_room_ok [OF assms] assms by (cases "p \<in> set (rm_players rm)") simp_all
qed (rule AddPlayer_eq [OF assms] AddPlayer_room_ok [OF assms])+

theorem room_membership_witness:
  "let rm = \<lparr>rm_roomId = 3, rm_title = [66], rm_currentPlayers = 2, rm_maxPlayers = 2, rm_status = WAITING,
       rm_owner = Some 5, rm_players = [5, 6]\<rparr>
   in AddPlayer rm (Some 7) = (False, rm) \<and> rm_owner (snd (RemovePlayer rm (Some 5))) = Some 6"
proof -
  let ?rm = "\<lparr>rm_roomId = 3, rm_title = [66], rm_currentPlayers = 2, rm_maxPlayers = 2, rm_status = WAITING,
       rm_owner = Some 5, rm_players = [5, 6]\<rparr>"
  have "room_ok ?rm" by (simp add: room_ok_def first_of_def)
  from room_membership [OF this, of 7] room_membership [OF this, of 5] show ?thesis
    by (simp add: Let_def first_of_def)
qed

section \<open>The game logic server\<close>

text \<open>
  C1: The game server offers an abstract room service.  For every request the client program can
  send, dispatching the message returns without a fault, leaves the players as they are, sends
  the requesting session exactly the answers the service gives, in order, and changes the
  directory of rooms as the service does: a created room gets the requester as its only member,
  a bad title, limit or taken title is refused, and a requester who is in a room already gets a
  refusal but leaves a new empty room behind.
\<close>

theorem dispatch_refines_service:
  assumes "game_ok st" "GetPlayer st sid = Some p" "length junk = 256" "length cjunk = 64"
    and "sint (mgr_roomIdCounter (ct_rooms st)) < 2 ^ 31 - 1"
    and "serve req p (mgr_roomIdCounter (ct_rooms st), views (ct_rooms st)) = (as, i, rs)"
  shows "\<exists>m net. DispatchDataReceived os junk st sid (request_msg cjunk req) =
      Inr (st\<lparr>ct_rooms := m, ct_network := net\<rparr>) \<and>
    send_answers os sid (map (answer_msg junk (map (live (ct_rooms st)) (GetRoomList (ct_rooms st)))) as)
      (ct_network st) = Inr net \<and>
    views m = rs \<and> mgr_roomIdCounter m = i \<and> game_ok (st\<lparr>ct_rooms := m, ct_network := net\<rparr>)"
proof -
  have "served os junk sid st (serve req p (directory st)) (DispatchDataReceived os junk st sid (request_msg cjunk req))"
    by (rule dispatch_serves [OF assms(1-5)])
  then obtain m net where
    m: "send_answers os sid (map (answer_msg junk (map (live (ct_rooms st)) (mgr_roomList (ct_rooms st)))) as) (ct_network st) = Inr net"
      "DispatchDataReceived os junk st sid (request_msg cjunk req) = Inr (st\<lparr>ct_rooms := m, ct_network := net\<rparr>)"
      "game_ok (st\<lparr>ct_rooms := m\<rparr>)" "mgr_roomIdCounter m = i" "views m = rs"
    using assms(6) by (auto simp: served_def answers_def)
  have "srv_ok net" using send_answers_ok [OF _ m(1)] assms(1) by (simp add: game_ok_def)
  then show ?thesis using m by (auto simp: GetRoomList_def game_ok_def)
qed

theorem dispatch_refines_service_witness:
  "\<exists>st'. DispatchDataReceived happy_os (replicate 256 7) (demo_game []) 2 (create_request (replicate 64 7) [72, 105] 4) = Inr st' \<and>
    views (ct_rooms st') = [\<lparr>rv_id = 1, rv_title = [72, 105], rv_max = 4, rv_players = [0]\<rparr>]"
proof -
  let ?v = "\<lparr>rv_id = 1, rv_title = [72, 105], rv_max = 4, rv_players = [0]\<rparr>"
  have "serve (ReqCreate [72, 105] 4) 0 (1, []) = ([AnsCreated 1 True], 2, [?v])"
    by (simp add: wire_title_def in_some_room_def)
  then show ?thesis
    using dispatch_refines_service [OF demo_game_ok, of "[]" 2 0 "replicate 256 7" "replicate 64 7" "ReqCreate [72, 105] 4"
        "[AnsCreated 1 True]" 2 "[?v]" happy_os] by (auto simp: mgr_ok_new)
qed

text \<open>
  C12: Bytes from the network cannot make the game server fault, with one exception.  For every
  registered or unregistered session and every byte sequence, the dispatch returns, keeps
  players, rooms and network well-formed and leaves the players as they are, unless the message
  is a complete create request without a NUL between the title and its end: then the
  construction of the title reads beyond the message.
\<close>

theorem received_data_safe:
  assumes "game_ok st" "length junk = 256" "sint (mgr_roomIdCounter (ct_rooms st)) < 2 ^ 31 - 1"
  shows "if GetPlayer st sid \<noteq> None \<and> title_unterminated data
    then DispatchDataReceived os junk st sid data = Inl OutOfBounds
    else \<exists>st'. DispatchDataReceived os junk st sid data = Inr st' \<and> game_ok st' \<and> ct_players st' = ct_players st"
  using DispatchDataReceived_ok [OF assms, of sid data os] by (auto simp: handled_def split: if_splits)

theorem received_data_safe_witness:
  "DispatchDataReceived happy_os (replicate 256 7) (demo_game []) 2 ([72, 0, 234, 3] @ replicate 68 1) = Inl OutOfBounds \<and>
   (\<exists>st'. DispatchDataReceived happy_os (replicate 256 7) (demo_game []) 2 [1, 2, 3] = Inr st')"
proof -
  have "title_unterminated ([72, 0, 234, 3] @ replicate 68 1)"
    by (simp add: title_unterminated_def read16_def join16_def)
  moreover have "\<not> title_unterminated [1, 2, 3]" by (simp add: title_unterminated_def)
  ultimately show ?thesis
    using received_data_safe [OF demo_game_ok, of "replicate 256 7" "[]" 2 "[72, 0, 234, 3] @ replicate 68 1" happy_os]
      received_data_safe [OF demo_game_ok, of "replicate 256 7" "[]" 2 "[1, 2, 3]" happy_os] by auto
qed

text \<open>
  C21: A disconnected player is gone everywhere.  After a DISCONNECTED event the session has no
  player, the player it had is in no room, all other players stay registered, and the state is
  well-formed; for a session without a player nothing changes.
\<close>

theorem disconnect_cleans_up:
  assumes "game_ok st"
  shows "\<exists>st'. DispatchClientDisconnected st sid = Inr st' \<and> game_ok st' \<and>
    GetPlayer st' = (GetPlayer st)(sid := None) \<and>
    (case GetPlayer st sid of None \<Rightarrow> st' = st
     | Some p \<Rightarrow> \<not> in_some_room (views (ct_rooms st')) p \<and>
         snd (spec_leave p (views (ct_rooms st))) = views (ct_rooms st'))"
proof (cases "GetPlayer st sid")
  case None
  then show ?thesis using assms by (auto simp: DispatchClientDisconnected_def)
next
  case (Some p)
  obtain st' where st': "DispatchClientDisconnected st sid = Inr st'" "game_ok st'"
      "\<not> in_some_room (views (ct_rooms st')) p" "ct_players st' = AList.delete sid (ct_players st)"
    using DispatchClientDisconnected_ok [OF assms, of sid] Some by blast
  obtain b m where leave: "LeaveRoom (ct_rooms st) (Some p) = Inr (b, m)" "spec_leave p (views (ct_rooms st)) = (b, views m)"
    using LeaveRoom_refines [of "ct_rooms st" p] assms by (auto simp: game_ok_def)
  have "GetPlayer st' = (GetPlayer st)(sid := None)"
    using st'(4) by (auto simp: GetPlayer_def delete_conv' fun_eq_iff)
  then show ?thesis
    using st' leave Some by (auto simp: DispatchClientDisconnected_def ct_RemovePlayer_def)
qed

theorem disconnect_cleans_up_witness:
  "\<exists>st'. DispatchClientDisconnected (demo_game []) 2 = Inr st' \<and> GetPlayer st' 2 = None"
  using disconnect_cleans_up [OF demo_game_ok, of "[]" 2] by auto

end
