(* ===== verification/GameTurn.thy ===== *)
theory GameTurn
  imports GameLogic
begin

text \<open>
  The handling of one event, cut at the calls of \<open>RequestSendMsg\<close>.  Players and rooms belong to the
  game thread alone, the network does not: while the game thread handles an event, the accept thread
  and the workers go on.  A handler is therefore its work on players and rooms, followed by the
  messages it sends, one after the other.  The handlers of \<open>CentralizedServer\<close> are exactly
  these two parts run without interruption.
\<close>

section \<open>Messages to be sent\<close>

text \<open>The arguments of a call of \<open>send_to\<close>: the player, the buffer and its length.\<close>

type_synonym outgoing = "player_ptr \<times> byte list \<times> int32_t"

fun send_all :: "os \<Rightarrow> outgoing list \<Rightarrow> CCentralizedServer \<Rightarrow> CCentralizedServer res" where
  "send_all os [] st = Inr st"
| "send_all os ((p, data, len) # ms) st = andThen (send_to os st p data len) (send_all os ms)"

definition created_out :: "player_ptr \<Rightarrow> int32_t \<Rightarrow> bool \<Rightarrow> outgoing" where
  "created_out p roomId success =
     (p, room_reply S2C_ROOM_CREATED sizeof_S2C_ROOM_CREATED roomId success, of_nat sizeof_S2C_ROOM_CREATED)"

definition joined_out :: "player_ptr \<Rightarrow> int32_t \<Rightarrow> bool \<Rightarrow> outgoing" where
  "joined_out p roomId success =
     (p, room_reply S2C_ROOM_JOINED sizeof_S2C_ROOM_JOINED roomId success, of_nat sizeof_S2C_ROOM_JOINED)"

definition left_out :: "player_ptr \<Rightarrow> bool \<Rightarrow> outgoing" where
  "left_out p success = (p, room_left_msg success, of_nat sizeof_S2C_ROOM_LEFT)"

definition error_out :: "byte list \<Rightarrow> player_ptr \<Rightarrow> byte list \<Rightarrow> outgoing" where
  "error_out junk p message = (p, error_msg junk message, of_nat sizeof_S2C_ERROR)"

definition list_out :: "CCentralizedServer \<Rightarrow> player_ptr \<Rightarrow> outgoing res" where
  "list_out st p =
     andThen (deref_rooms (ct_rooms st) (GetRoomList (ct_rooms st))) (\<lambda>rooms.
     Inr (p, room_list_msg rooms, ucast (room_list_size rooms)))"

section \<open>The handlers up to their messages\<close>

definition turn_list :: "CCentralizedServer \<Rightarrow> player_ptr \<Rightarrow> (CCentralizedServer \<times> outgoing list) res" where
  "turn_list st p = andThen (list_out st p) (\<lambda>m. Inr (st, [m]))"

definition turn_create ::
  "byte list \<Rightarrow> CCentralizedServer \<Rightarrow> player_ptr \<Rightarrow> byte list \<Rightarrow> (CCentralizedServer \<times> outgoing list) res" where
  "turn_create junk st p data =
     andThen (c_str (drop 4 data)) (\<lambda>title.
     andThen (read32 data 68) (\<lambda>maxPlayers.
     if title = [] \<or> sint maxPlayers < 2 \<or> 10 < sint maxPlayers
     then Inr (st, [created_out p (- 1) False, error_out junk p (str ''Invalid room parameters'')])
     else
       andThen (FindRoomByTitle (ct_rooms st) title) (\<lambda>existing.
       if existing \<noteq> None
       then Inr (st, [created_out p (- 1) False, error_out junk p (str ''Room title already exists'')])
       else
         andThen (CreateRoom (ct_rooms st) title maxPlayers) (\<lambda>(room, m).
         andThen (room_at m room) (\<lambda>r.
         andThen (JoinRoom m (rm_roomId r) (Some p)) (\<lambda>(joinSuccess, m).
         Inr (st\<lparr>ct_rooms := m\<rparr>, created_out p (rm_roomId r) joinSuccess #
           (if \<not> joinSuccess then [error_out junk p (str ''Failed to join created room'')] else []))))))))"

definition turn_join ::
  "byte list \<Rightarrow> CCentralizedServer \<Rightarrow> player_ptr \<Rightarrow> byte list \<Rightarrow> (CCentralizedServer \<times> outgoing list) res" where
  "turn_join junk st p data =
     andThen (read32 data 4) (\<lambda>roomId.
     andThen (JoinRoom (ct_rooms st) roomId (Some p)) (\<lambda>(success, m).
     Inr (st\<lparr>ct_rooms := m\<rparr>, joined_out p roomId success #
       (if \<not> success then [error_out junk p (str ''Failed to join room'')] else []))))"

definition turn_leave :: "CCentralizedServer \<Rightarrow> player_ptr \<Rightarrow> (CCentralizedServer \<times> outgoing list) res" where
  "turn_leave st p =
     andThen (LeaveRoom (ct_rooms st) (Some p)) (\<lambda>(success, m).
     Inr (st\<lparr>ct_rooms := m\<rparr>, [left_out p success]))"

definition turn_connected :: "CCentralizedServer \<Rightarrow> int64_t \<Rightarrow> (CCentralizedServer \<times> outgoing list) res" where
  "turn_connected st sessionId =
     (let p = length (ct_store st); st = st\<lparr>ct_store := ct_store st @ [CPlayer_new sessionId]\<rparr> in
      andThen (ct_AddPlayer st p) (\<lambda>st. andThen (list_out st p) (\<lambda>m. Inr (st, [m]))))"

definition turn_received ::
  "byte list \<Rightarrow> CCentralizedServer \<Rightarrow> int64_t \<Rightarrow> byte list \<Rightarrow> (CCentralizedServer \<times> outgoing list) res" where
  "turn_received junk st sessionId data =
     (case GetPlayer st sessionId of
        None \<Rightarrow> Inr (st, [])
      | Some p \<Rightarrow>
          if length data < sizeof_TypedHeader then Inr (st, [])
          else
            andThen (read16 data 0) (\<lambda>sz.
            if unat sz \<noteq> length data then Inr (st, [])
            else
              andThen (read16 data 2) (\<lambda>type.
              if type = msg_code C2S_REQUEST_ROOM_LIST
              then (if sizeof_TypedHeader \<le> length data then turn_list st p else Inr (st, []))
              else if type = msg_code C2S_CREATE_ROOM
              then (if sizeof_C2S_CREATE_ROOM \<le> length data then turn_create junk st p data else Inr (st, []))
              else if type = msg_code C2S_JOIN_ROOM
              then (if sizeof_C2S_JOIN_ROOM \<le> length data then turn_join junk st p data else Inr (st, []))
              else if type = msg_code C2S_LEAVE_ROOM
              then turn_leave st p
              else Inr (st, []))))"

definition turn_event :: "byte list \<Rightarrow> CCentralizedServer \<Rightarrow> NetworkEvent \<Rightarrow> (CCentralizedServer \<times> outgoing list) res" where
  "turn_event junk st event =
     (case ev_type event of
        CONNECTED \<Rightarrow> turn_connected st (ev_sessionId event)
      | DISCONNECTED \<Rightarrow> andThen (DispatchClientDisconnected st (ev_sessionId event)) (\<lambda>st. Inr (st, []))
      | RECEIVED \<Rightarrow> turn_received junk st (ev_sessionId event) (ev_data event))"

section \<open>A handler is its turn and then its messages\<close>

text \<open>The state and the messages of a turn, run to the end.\<close>

definition finish :: "os \<Rightarrow> (CCentralizedServer \<times> outgoing list) res \<Rightarrow> CCentralizedServer res" where
  "finish os r = andThen r (\<lambda>(st, ms). send_all os ms st)"

lemma finish_simps [simp]:
  "finish os (Inr (st, ms)) = send_all os ms st" "finish os (Inl f) = Inl f"
  by (simp_all add: finish_def)

lemma finish_andThen [simp]: "finish os (andThen r k) = andThen r (\<lambda>x. finish os (k x))"
  by (cases r) simp_all

lemma finish_if [simp]: "finish os (if b then r else r') = (if b then finish os r else finish os r')"
  by simp

lemma finish_prod [simp]: "finish os (case x of (a, b) \<Rightarrow> f a b) = (case x of (a, b) \<Rightarrow> finish os (f a b))"
  by (simp split: prod.split)

lemma andThen_finished [simp]: "andThen r (send_all os []) = r" "andThen r Inr = r"
  by (cases r, simp_all)+

lemma send_one: "send_all os [(p, data, len)] = (\<lambda>st. send_to os st p data len)"
  by (simp add: fun_eq_iff)

lemmas send_out_defs = SendRoomCreated_def SendRoomJoined_def SendRoomLeft_def SendError_def
  created_out_def joined_out_def left_out_def error_out_def

lemma send_outs:
  "send_all os [created_out p i b] st = SendRoomCreated os st p i b"
  "send_all os [joined_out p i b] st = SendRoomJoined os st p i b"
  "send_all os [left_out p b] st = SendRoomLeft os st p b"
  "send_all os [created_out p i b, error_out junk p m] st =
     andThen (SendRoomCreated os st p i b) (\<lambda>st. SendError os junk st p m)"
  "send_all os [joined_out p i b, error_out junk p m] st =
     andThen (SendRoomJoined os st p i b) (\<lambda>st. SendError os junk st p m)"
  by (simp_all only: send_out_defs send_one send_all.simps(2))

lemma turn_list_finish: "finish os (turn_list st p) = HandleRequestRoomList os st p"
  by (cases "deref_rooms (ct_rooms st) (GetRoomList (ct_rooms st))")
    (simp_all add: turn_list_def list_out_def HandleRequestRoomList_def SendRoomList_def)

lemma turn_leave_finish: "finish os (turn_leave st p) = HandleLeaveRoom os st p"
  by (cases "LeaveRoom (ct_rooms st) (Some p)")
    (auto simp: turn_leave_def HandleLeaveRoom_def send_outs simp del: send_all.simps)

lemma turn_join_finish: "finish os (turn_join junk st p data) = HandleJoinRoom os junk st p data"
proof -
  have "finish os (Inr (st\<lparr>ct_rooms := m\<rparr>, joined_out p roomId b #
      (if \<not> b then [error_out junk p (str ''Failed to join room'')] else []))) =
    andThen (SendRoomJoined os (st\<lparr>ct_rooms := m\<rparr>) p roomId b)
      (\<lambda>st. if \<not> b then SendError os junk st p (str ''Failed to join room'') else Inr st)" for roomId b m
    by (cases b) (simp_all add: send_outs del: send_all.simps)
  then show ?thesis
    by (simp add: turn_join_def HandleJoinRoom_def Let_def del: finish_simps)
qed

lemma turn_create_finish: "finish os (turn_create junk st p data) = HandleCreateRoom os junk st p data"
proof -
  have "finish os (Inr (st\<lparr>ct_rooms := m\<rparr>, created_out p i b #
      (if \<not> b then [error_out junk p t] else []))) =
    andThen (SendRoomCreated os (st\<lparr>ct_rooms := m\<rparr>) p i b)
      (\<lambda>st. if \<not> b then SendError os junk st p t else Inr st)" for m i b t
    by (cases b) (simp_all add: send_outs del: send_all.simps)
  moreover have "finish os (Inr (st, [created_out p (- 1) False, error_out junk p t])) =
      andThen (SendRoomCreated os st p (- 1) False) (\<lambda>st. SendError os junk st p t)" for t
    by (simp add: send_outs del: send_all.simps)
  ultimately show ?thesis
    by (simp add: turn_create_def HandleCreateRoom_def Let_def cong: if_cong del: finish_simps)
qed

lemma turn_connected_finish: "finish os (turn_connected st sid) = DispatchClientConnected os st sid"
proof -
  have "finish os (andThen (list_out st p) (\<lambda>m. Inr (st, [m]))) = SendRoomList os st p" for st p
    using turn_list_finish [of os st p] by (simp add: turn_list_def HandleRequestRoomList_def)
  then show ?thesis
    by (simp add: turn_connected_def DispatchClientConnected_def Let_def del: finish_simps finish_andThen)
      (simp add: finish_andThen)
qed

text \<open>The handling of an event as one step is its turn, finished without interruption.\<close>

lemma turn_event_finish: "finish os (turn_event junk st e) = dispatch_event os junk st e"
proof (cases "ev_type e")
  case RECEIVED
  have "finish os (turn_received junk st sid data) = DispatchDataReceived os junk st sid data" for sid data
    by (simp add: turn_received_def DispatchDataReceived_def turn_list_finish turn_leave_finish turn_join_finish
        turn_create_finish split: option.split cong: if_cong)
  then show ?thesis using RECEIVED by (simp add: turn_event_def dispatch_event_def)
qed (simp_all add: turn_event_def dispatch_event_def turn_connected_finish)

section \<open>What a turn does\<close>

text \<open>It leaves the network alone, and its messages are as long as it says.\<close>

definition fits :: "outgoing \<Rightarrow> bool" where
  "fits m \<longleftrightarrow> (case m of (p, data, len) \<Rightarrow> unat len \<le> length data)"

lemma fits_outs [simp]:
  "fits (created_out p i b)" "fits (joined_out p i b)" "fits (left_out p b)"
  "length junk = 256 \<Longrightarrow> fits (error_out junk p m)"
  by (simp_all add: fits_def created_out_def joined_out_def left_out_def error_out_def unat_sizes)

lemma fits_list: "list_out st p = Inr m \<Longrightarrow> fits m"
  by (auto simp: fits_def list_out_def andThen_Inr_iff room_list_len)

definition own_work :: "CCentralizedServer \<Rightarrow> (CCentralizedServer \<times> outgoing list) res \<Rightarrow> bool" where
  "own_work st r \<longleftrightarrow> (\<forall>st' ms. r = Inr (st', ms) \<longrightarrow> ct_network st' = ct_network st \<and> list_all fits ms)"

lemma own_work_Inr: "own_work st (Inr (st', ms)) \<longleftrightarrow> ct_network st' = ct_network st \<and> list_all fits ms"
  by (simp add: own_work_def)

lemma own_work_rules:
  "ct_network st' = ct_network st \<Longrightarrow> list_all fits ms \<Longrightarrow> own_work st (Inr (st', ms))"
  "(\<And>x. q = Inr x \<Longrightarrow> own_work st (k x)) \<Longrightarrow> own_work st (andThen q k)"
  "own_work st r \<Longrightarrow> own_work st r' \<Longrightarrow> own_work st (if b then r else r')"
  "(\<And>a b. x = (a, b) \<Longrightarrow> own_work st (f a b)) \<Longrightarrow> own_work st (case x of (a, b) \<Rightarrow> f a b)"
proof -
  show "own_work st (andThen q k)" if "\<And>x. q = Inr x \<Longrightarrow> own_work st (k x)"
    using that by (cases q) (simp_all add: own_work_def [of st "Inl f" for f])
  show "own_work st (case x of (a, b) \<Rightarrow> f a b)" if "\<And>a b. x = (a, b) \<Longrightarrow> own_work st (f a b)"
    using that by (cases x) simp
qed (simp_all add: own_work_Inr)

lemma own_work_turns:
  assumes "length junk = 256"
  shows "own_work st (turn_list st p)" "own_work st (turn_leave st p)" "own_work st (turn_join junk st p data)"
    "own_work st (turn_create junk st p data)" "own_work st (turn_connected st sid)"
  unfolding turn_list_def turn_leave_def turn_join_def turn_create_def turn_connected_def Let_def
  using assms by (intro own_work_rules; auto simp: fits_list ct_AddPlayer_def andThen_Inr_iff; fail)+

lemma own_work_event:
  assumes "length junk = 256"
  shows "own_work st (turn_event junk st e)"
proof (cases "ev_type e")
  case CONNECTED
  then show ?thesis using own_work_turns(5) [OF assms] by (simp add: turn_event_def)
next
  case DISCONNECTED
  have "ct_network st' = ct_network st" if "DispatchClientDisconnected st sid = Inr st'" for sid st'
    using that by (auto simp: DispatchClientDisconnected_def andThen_Inr_iff ct_RemovePlayer_def split: option.splits)
  then show ?thesis using DISCONNECTED by (auto simp: turn_event_def intro!: own_work_rules)
next
  case RECEIVED
  have "own_work st (Inr (st, []))" by (simp add: own_work_Inr)
  then have "own_work st (turn_received junk st sid data)" for sid data
    unfolding turn_received_def
    by (cases "GetPlayer st sid") (simp_all add: own_work_rules own_work_turns [OF assms])
  then show ?thesis using RECEIVED by (simp add: turn_event_def)
qed

text \<open>Messages that can be sent, and what sending all of them changes.\<close>

definition outgoing_ok :: "CCentralizedServer \<Rightarrow> outgoing list \<Rightarrow> bool" where
  "outgoing_ok st ms \<longleftrightarrow> list_all fits ms \<and> (\<forall>m \<in> set ms. fst m < length (ct_store st))"

lemma outgoing_ok_simps [simp]:
  "outgoing_ok st []"
  "outgoing_ok st ((p, data, len) # ms) \<longleftrightarrow> p < length (ct_store st) \<and> unat len \<le> length data \<and> outgoing_ok st ms"
  "outgoing_ok (st\<lparr>ct_network := net\<rparr>) ms = outgoing_ok st ms"
  by (auto simp: outgoing_ok_def fits_def)

lemma send_all_frame:
  "send_all os ms st = Inr st' \<Longrightarrow> st' = st\<lparr>ct_network := ct_network st'\<rparr> \<and>
     (\<forall>m \<in> set ms. fst m < length (ct_store st))"
proof (induction ms arbitrary: st)
  case (Cons m ms)
  obtain p data len where m: "m = (p, data, len)" by (cases m)
  then obtain net where "send_all os ms (st\<lparr>ct_network := net\<rparr>) = Inr st'" "p < length (ct_store st)"
    using Cons.prems by (auto simp: send_to_def player_at_def andThen_Inr_iff split: if_splits)
  then show ?case using Cons.IH [of "st\<lparr>ct_network := net\<rparr>"] m by simp
qed simp

lemma turn_event_runs:
  assumes st: "game_ok st" and junk: "length junk = 256" and e: "event_ok st e"
  shows "\<exists>st' ms. turn_event junk st e = Inr (st', ms) \<and> game_ok st' \<and> outgoing_ok st' ms \<and>
    ct_network st' = ct_network st \<and>
    set (map fst (ct_players st')) = replay [e] (set (map fst (ct_players st))) \<and>
    player_ids st' = player_ids st \<union> (if ev_type e = CONNECTED then {ev_sessionId e} else {})"
proof -
  fix os
  obtain st2 where st2: "finish os (turn_event junk st e) = Inr st2" "game_ok st2"
      "set (map fst (ct_players st2)) = replay [e] (set (map fst (ct_players st)))"
      "player_ids st2 = player_ids st \<union> (if ev_type e = CONNECTED then {ev_sessionId e} else {})"
    using dispatch_event_runs [OF st junk e, of os] unfolding turn_event_finish by blast
  obtain st' ms where r: "turn_event junk st e = Inr (st', ms)" "send_all os ms st' = Inr st2"
    using st2(1) by (cases "turn_event junk st e") auto
  have own: "ct_network st' = ct_network st" "list_all fits ms"
    using own_work_event [OF junk, of st e] r(1) by (simp_all add: own_work_Inr)
  note same = send_all_frame [OF r(2)]
  then have eqs: "ct_players st2 = ct_players st'" "ct_store st2 = ct_store st'" "ct_rooms st2 = ct_rooms st'"
    by (metis CCentralizedServer.select_convs CCentralizedServer.simps CCentralizedServer.surjective)+
  have "game_ok st'" using st2(2) st own(1) eqs by (simp add: game_ok_def)
  moreover have "outgoing_ok st' ms" using own(2) same by (auto simp: outgoing_ok_def)
  ultimately show ?thesis using r(1) own(1) st2(3,4) eqs by (auto simp: player_ids_def)
qed

end
