(* ===== verification/RunningServer.thy ===== *)
theory RunningServer
  imports GameTurn
begin

text \<open>
  The server as a whole: the accept thread and the workers on \<open>CIOCPServer\<close>, and the game thread
  that takes their events and sends.  A step is one turn of one of these threads, for the game thread
  the work on one event up to its messages, or the sending of one of them; what holds of
  every reachable state ties the registered players to the open sessions.
\<close>

section \<open>Steps and reachable states\<close>

text \<open>
  The game thread has the messages \<open>ms\<close> of the event it handles still to send; it takes the next
  event when there are none left.  The buffers it does not initialise hold
  \<open>junk\<close>.  The counters of unique numbers and of room ids have not wrapped.
\<close>

inductive run_step :: "os \<Rightarrow> CCentralizedServer \<Rightarrow> outgoing list \<Rightarrow> CCentralizedServer \<Rightarrow> outgoing list \<Rightarrow> bool"
  for os where
  run_accept: "accept_step os (ct_network st) k = Inr net \<Longrightarrow> unat (srv_sessionIdCounter (ct_network st)) < 2 ^ 48 \<Longrightarrow>
     run_step os st ms (st\<lparr>ct_network := net\<rparr>) ms"
| run_worker: "worker_step os (ct_network st) c = Inr net \<Longrightarrow> completion_ok (ct_network st) c \<Longrightarrow>
     run_step os st ms (st\<lparr>ct_network := net\<rparr>) ms"
| run_take: "PopNetworkEvent (ct_network st) = Some (e, net) \<Longrightarrow> length junk = 256 \<Longrightarrow>
     turn_event junk (st\<lparr>ct_network := net\<rparr>) e = Inr (st', ms) \<Longrightarrow>
     (ev_type e = RECEIVED \<longrightarrow> sint (mgr_roomIdCounter (ct_rooms st)) < 2 ^ 31 - 1) \<Longrightarrow> run_step os st [] st' ms"
| run_send: "send_to os st p data len = Inr st' \<Longrightarrow> run_step os st ((p, data, len) # ms) st' ms"
| run_stop: "run_step os st ms (ct_Stop st) ms"

text \<open>The state when \<open>CCentralizedServer::Start\<close> has started the game thread.\<close>

inductive running ::
  "(size_t \<Rightarrow> byte list option) \<Rightarrow> os \<Rightarrow> int32_t \<Rightarrow> CCentralizedServer \<Rightarrow> outgoing list \<Rightarrow> bool"
  for alloc os maxClients where
  run_start: "Start alloc os (CIOCPServer_new maxClients Centralized) = Inr (True, net) \<Longrightarrow>
     running alloc os maxClients ((CCentralizedServer_new maxClients)\<lparr>ct_running := True, ct_network := net\<rparr>) []"
| run_more: "running alloc os maxClients st ms \<Longrightarrow> run_step os st ms st' ms' \<Longrightarrow> running alloc os maxClients st' ms'"

section \<open>The invariant\<close>

definition announced :: "NetworkEvent list \<Rightarrow> int64_t list" where
  "announced es = map ev_sessionId (filter (\<lambda>e. ev_type e = CONNECTED) es)"

lemma announced_simps [simp]:
  "announced [] = []"
  "announced (e # es) = (if ev_type e = CONNECTED then [ev_sessionId e] else []) @ announced es"
  "announced (es @ fs) = announced es @ announced fs"
  by (simp_all add: announced_def)

lemma announced_none: "list_all (\<lambda>e. ev_type e \<noteq> CONNECTED) es \<Longrightarrow> announced es = []"
  by (induction es) simp_all

text \<open>An id that has been given to a session.\<close>

definition issued :: "CIOCPServer \<Rightarrow> int64_t \<Rightarrow> bool" where
  "issued srv sid \<longleftrightarrow> ExtractUniqueId sid \<noteq> 0 \<and> unat (ExtractUniqueId sid) < unat (srv_sessionIdCounter srv)"

abbreviation registered_ids :: "CCentralizedServer \<Rightarrow> int64_t set" where
  "registered_ids st \<equiv> set (map fst (ct_players st))"

text \<open>
  Network and game are well-formed; queued announcements are new and made once; every id in use
  has been issued; and whoever reads the queue to its end knows exactly the open sessions.
\<close>

definition system_ok :: "CCentralizedServer \<Rightarrow> bool" where
  "system_ok st \<longleftrightarrow> game_ok st \<and> server_ok (ct_network st) \<and> srv_architectureType (ct_network st) = Centralized \<and>
     distinct (announced (srv_eventQueue (ct_network st))) \<and>
     set (announced (srv_eventQueue (ct_network st))) \<inter> registered_ids st = {} \<and>
     (\<forall>sid \<in> player_ids st \<union> registered_ids st \<union> set (announced (srv_eventQueue (ct_network st))). issued (ct_network st) sid) \<and>
     replay (srv_eventQueue (ct_network st)) (registered_ids st) = open_ids (ct_network st)"

text \<open>A step of the network that announces no connection, or one with a fresh id.\<close>

lemma system_ok_network:
  assumes ok: "system_ok st" and net: "server_ok net" and ann: "announces (ct_network st) es net"
    and none: "announced es = []" and cnt: "srv_sessionIdCounter net = srv_sessionIdCounter (ct_network st)"
  shows "system_ok (st\<lparr>ct_network := net\<rparr>)"
  using assms by (auto simp: system_ok_def announces_def replay_append issued_def game_ok_def server_ok_def)

lemma system_ok_fresh:
  assumes ok: "system_ok st" and net: "server_ok net" and ann: "announces (ct_network st) es net"
    and new: "announced es = [sid]" "ExtractUniqueId sid = srv_sessionIdCounter (ct_network st)"
    and cnt: "srv_sessionIdCounter net = srv_sessionIdCounter (ct_network st) + 1"
    and small: "unat (srv_sessionIdCounter (ct_network st)) < 2 ^ 48"
  shows "system_ok (st\<lparr>ct_network := net\<rparr>)"
proof -
  let ?c = "srv_sessionIdCounter (ct_network st)"
  have c: "unat (srv_sessionIdCounter net) = unat ?c + 1" using small cnt by (simp add: unat_add_small)
  have nz: "?c \<noteq> 0" using ok by (auto simp: system_ok_def server_ok_def pool_ok_def)
  have "issued net x" if "issued (ct_network st) x" for x using that c by (simp add: issued_def)
  moreover have "issued net sid" using new(2) nz c by (simp add: issued_def)
  moreover have "\<not> issued (ct_network st) sid" using new(2) by (simp add: issued_def)
  ultimately show ?thesis
    using ok net ann new(1) by (auto simp: system_ok_def announces_def replay_append game_ok_def server_ok_def)
qed

lemma system_ok_start:
  assumes start: "Start alloc os (CIOCPServer_new maxClients Centralized) = Inr (True, net)" and alloc: "allocates alloc"
  shows "system_ok ((CCentralizedServer_new maxClients)\<lparr>ct_running := True, ct_network := net\<rparr>)"
proof -
  note b = Start_bounds [OF start]
  define n where "n = nat (sint maxClients)"
  have n: "sint maxClients = int n" "n \<le> 65535" using b by (simp_all add: n_def)
  obtain s0 where s0: "CSession_new alloc = Inr s0" "cs_sessionId s0 = 0"
    using alloc CSession_new_ok [of alloc] by (auto simp: allocates_def split: option.splits)
  have net: "srv_sessions net = replicate n (Some s0)" "srv_eventQueue net = []" "srv_architectureType net = Centralized"
    using Start_new [OF n s0(1), of os Centralized] start by auto
  have "open_ids net = {}"
    using net(1) s0(2) by (auto simp: open_ids_def open_id_def session_at_def split: if_splits)
  moreover have "server_ok net" by (rule Start_ok [OF start alloc])
  ultimately show ?thesis
    using net by (simp add: system_ok_def game_ok_def CCentralizedServer_new_def player_ids_def server_ok_def
        mgr_ok_new in_some_room_def)
qed

section \<open>The steps keep it\<close>

lemma accept_keeps:
  assumes ok: "system_ok st" and os: "binds_succeed os"
    and acc: "accept_step os (ct_network st) k = Inr net" and small: "unat (srv_sessionIdCounter (ct_network st)) < 2 ^ 48"
  shows "system_ok (st\<lparr>ct_network := net\<rparr>)"
proof -
  have inv: "server_ok (ct_network st)" "srv_architectureType (ct_network st) = Centralized"
    using ok by (simp_all add: system_ok_def)
  have net: "server_ok net" using accept_step_ok [OF inv(1) small os, of k] acc by simp
  from accept_announces [OF inv(1) small os inv(2) acc] show ?thesis
  proof (elim disjE exE conjE)
    assume "announces (ct_network st) [] net" "srv_sessionIdCounter net = srv_sessionIdCounter (ct_network st)"
    then show ?thesis using system_ok_network [OF ok net, of "[]"] by simp
  next
    fix sid es
    assume a: "announces (ct_network st) (connected sid # es) net" "list_all (\<lambda>e. ev_type e \<noteq> CONNECTED) es"
      "ExtractUniqueId sid = srv_sessionIdCounter (ct_network st)"
      "srv_sessionIdCounter net = srv_sessionIdCounter (ct_network st) + 1"
    then show ?thesis
      by (intro system_ok_fresh [OF ok net a(1) _ a(3,4) small]) (simp add: connected_def announced_none)
  qed
qed

lemma worker_keeps:
  assumes ok: "system_ok st" and os: "binds_succeed os"
    and run: "worker_step os (ct_network st) c = Inr net" and c: "completion_ok (ct_network st) c"
  shows "system_ok (st\<lparr>ct_network := net\<rparr>)"
proof -
  let ?srv = "ct_network st"
  have inv: "srv_ok ?srv" "pool_ok ?srv" "srv_architectureType ?srv = Centralized" "server_ok ?srv"
    using ok by (simp_all add: system_ok_def server_ok_def)
  have net: "server_ok net" by (rule server_step_ok [OF step_worker [OF run c] inv(4) os])
  have "reports ?srv net"
    using report.worker_step_runs [OF inv(1) c, of os] run by (auto split: option.splits)
  then obtain es where "announces ?srv es net" "list_all (\<lambda>e. ev_type e \<noteq> CONNECTED) es"
      "srv_sessionIdCounter net = srv_sessionIdCounter ?srv"
    by (rule reports_announces [OF inv(2,3)])
  then show ?thesis using system_ok_network [OF ok net] announced_none by blast
qed

text \<open>An event of a reachable state can be handled, or is a request with an unterminated title.\<close>

definition bad_title :: "CCentralizedServer \<Rightarrow> NetworkEvent \<Rightarrow> bool" where
  "bad_title st e \<longleftrightarrow> ev_type e = RECEIVED \<and> GetPlayer st (ev_sessionId e) \<noteq> None \<and> title_unterminated (ev_data e)"

lemma pop_event:
  assumes "PopNetworkEvent srv = Some (e, net)"
  shows "srv_eventQueue srv = e # srv_eventQueue net" "srv_architectureType net = srv_architectureType srv"
    "srv_sessionIdCounter net = srv_sessionIdCounter srv" "open_ids net = open_ids srv" "same_pool srv net"
    "srv_ok net = srv_ok srv"
proof -
  obtain es where q: "srv_eventQueue srv = e # es" "net = srv\<lparr>srv_eventQueue := es\<rparr>"
    using assms by (auto simp: PopNetworkEvent_def TryPop_def split: list.splits)
  have "session_at net = session_at srv" by (simp add: q(2) session_at_def fun_eq_iff)
  then show "open_ids net = open_ids srv" "same_pool srv net"
    by (simp_all add: open_ids_def open_id_def same_pool_def q(2))
qed (use assms in \<open>auto simp: PopNetworkEvent_def TryPop_def srv_ok_def split: list.splits\<close>)

lemma event_ready:
  assumes ok: "system_ok st" and pop: "PopNetworkEvent (ct_network st) = Some (e, net)"
    and ids: "ev_type e = RECEIVED \<longrightarrow> sint (mgr_roomIdCounter (ct_rooms st)) < 2 ^ 31 - 1" and title: "\<not> bad_title st e"
  shows "game_ok (st\<lparr>ct_network := net\<rparr>)" "event_ok (st\<lparr>ct_network := net\<rparr>) e"
proof -
  note p = pop_event [OF pop]
  show "game_ok (st\<lparr>ct_network := net\<rparr>)" using ok p by (simp add: system_ok_def game_ok_def)
  have "GetPlayer (st\<lparr>ct_network := net\<rparr>) = GetPlayer st" by (simp add: GetPlayer_def fun_eq_iff)
  moreover have "ev_type e = CONNECTED \<Longrightarrow> ev_sessionId e \<notin> registered_ids st"
    using ok p by (auto simp: system_ok_def)
  ultimately show "event_ok (st\<lparr>ct_network := net\<rparr>) e"
    using ids title by (auto simp: event_ok_def bad_title_def GetPlayer_None_iff split: NetworkEventType.splits)
qed

lemma bad_title_faults:
  assumes ids: "ev_type e = RECEIVED" and bad: "bad_title st e"
  shows "turn_event junk (st\<lparr>ct_network := net\<rparr>) e = Inl OutOfBounds"
proof -
  obtain p where p: "GetPlayer st (ev_sessionId e) = Some p" using bad by (auto simp: bad_title_def)
  have t: "72 \<le> length (ev_data e)" "read16 (ev_data e) 0 = Inr (of_nat (length (ev_data e)))"
    "unat (of_nat (length (ev_data e)) :: uint16_t) = length (ev_data e)"
    "read16 (ev_data e) 2 = Inr (msg_code C2S_CREATE_ROOM)" "c_str (drop 4 (ev_data e)) = Inl OutOfBounds"
    using bad by (simp_all add: bad_title_def title_unterminated_def unat_of_nat_small c_str_no_nul)
  then show ?thesis
    using ids p by (simp add: turn_event_def turn_received_def GetPlayer_def turn_create_def sizes)
qed

text \<open>The turn of the game thread, and each of its messages.\<close>

lemma take_keeps:
  assumes ok: "system_ok st" and junk: "length junk = 256"
    and pop: "PopNetworkEvent (ct_network st) = Some (e, net)"
    and ids: "ev_type e = RECEIVED \<longrightarrow> sint (mgr_roomIdCounter (ct_rooms st)) < 2 ^ 31 - 1" and title: "\<not> bad_title st e"
  shows "\<exists>st' ms. turn_event junk (st\<lparr>ct_network := net\<rparr>) e = Inr (st', ms) \<and> system_ok st' \<and> outgoing_ok st' ms \<and>
    ct_network st' = net"
proof -
  note p = pop_event [OF pop]
  obtain st' ms where d: "turn_event junk (st\<lparr>ct_network := net\<rparr>) e = Inr (st', ms)" "game_ok st'" "outgoing_ok st' ms"
      "ct_network st' = net" "registered_ids st' = replay [e] (registered_ids st)"
      "player_ids st' = player_ids st \<union> (if ev_type e = CONNECTED then {ev_sessionId e} else {})"
    using turn_event_runs [OF event_ready(1) junk event_ready(2), OF ok pop ids title ok pop ids title] by auto
  have iss: "issued (ct_network st) sid"
    if "sid \<in> player_ids st' \<union> registered_ids st' \<union> set (announced (srv_eventQueue net))" for sid
    using that ok p d(5,6) by (auto simp: system_ok_def split: if_splits NetworkEventType.splits)
  have net: "server_ok net" "srv_architectureType net = Centralized"
    using ok p pool_ok_same by (auto simp: system_ok_def server_ok_def)
  have "set (announced (srv_eventQueue net)) \<inter> registered_ids st' = {}" "distinct (announced (srv_eventQueue net))"
    using ok p d(5) by (auto simp: system_ok_def split: if_splits NetworkEventType.splits)
  moreover have "replay (srv_eventQueue net) (registered_ids st') = open_ids net"
    using ok p d(5) by (simp add: system_ok_def)
  moreover have "issued net = issued (ct_network st)" using p by (simp add: issued_def fun_eq_iff)
  ultimately have "system_ok st'" using d(2,4) net iss unfolding system_ok_def by simp
  then show ?thesis using d by blast
qed

lemma send_keeps:
  assumes ok: "system_ok st" and send: "sends os (player_ids st) (ct_network st) net" and os: "binds_succeed os"
  shows "system_ok (st\<lparr>ct_network := net\<rparr>) \<and> (server_step os)\<^sup>*\<^sup>* (ct_network st) net"
proof
  have inv: "srv_ok (ct_network st)" "pool_ok (ct_network st)" "srv_architectureType (ct_network st) = Centralized"
    using ok by (simp_all add: system_ok_def server_ok_def)
  show steps: "(server_step os)\<^sup>*\<^sup>* (ct_network st) net"
    using send by (rule sends_steps) (use ok in \<open>auto simp: system_ok_def issued_def\<close>)
  then have net: "server_ok net"
    by induction (use ok server_step_ok os in \<open>auto simp: system_ok_def\<close>)
  have "reports (ct_network st) net" using sends_reports [OF send inv(1)] by simp
  then obtain es where "announces (ct_network st) es net" "list_all (\<lambda>e. ev_type e \<noteq> CONNECTED) es"
      "srv_sessionIdCounter net = srv_sessionIdCounter (ct_network st)"
    by (rule reports_announces [OF inv(2,3)])
  then show "system_ok (st\<lparr>ct_network := net\<rparr>)" using system_ok_network [OF ok net] announced_none by blast
qed

lemma send_to_keeps:
  assumes ok: "system_ok st" and out: "outgoing_ok st ((p, data, len) # ms)" and os: "binds_succeed os"
  shows "\<exists>st'. send_to os st p data len = Inr st' \<and> system_ok st' \<and> outgoing_ok st' ms \<and>
    (server_step os)\<^sup>*\<^sup>* (ct_network st) (ct_network st')"
proof -
  have "game_ok st" using ok by (simp add: system_ok_def)
  then obtain st' where st': "send_to os st p data len = Inr st'" "game_frame os st st'"
    using send_to_ok [of st p len data os] out by auto
  then obtain net where "st' = st\<lparr>ct_network := net\<rparr>" "sends os (player_ids st) (ct_network st) net"
    by (auto simp: game_frame_def)
  then show ?thesis using st'(1) send_keeps [OF ok _ os] out by auto
qed

lemma run_step_keeps:
  assumes step: "run_step os st ms st' ms'" and ok: "system_ok st" "outgoing_ok st ms" and os: "binds_succeed os"
  shows "system_ok st' \<and> outgoing_ok st' ms' \<and> (server_step os)\<^sup>*\<^sup>* (ct_network st) (ct_network st')"
  using step
proof cases
  case (run_accept k net)
  then show ?thesis
    using accept_keeps [OF ok(1) os] r_into_rtranclp [of "server_step os", OF step_accept [OF run_accept(3,4)]] ok(2) by auto
next
  case (run_worker c net)
  then show ?thesis
    using worker_keeps [OF ok(1) os] r_into_rtranclp [of "server_step os", OF step_worker [OF run_worker(3,4)]] ok(2) by auto
next
  case (run_take e net junk)
  have "\<not> bad_title st e"
    using bad_title_faults [of e st junk net] run_take(4) by (auto simp: bad_title_def)
  then show ?thesis
    using take_keeps [OF ok(1) run_take(3,2,5)] run_take(4) r_into_rtranclp [of "server_step os", OF step_event [OF run_take(2)]]
    by auto
next
  case (run_send p data len)
  then show ?thesis using send_to_keeps [OF ok(1) _ os, of p data len ms'] ok(2) by auto
next
  case run_stop
  have "system_ok (st\<lparr>ct_running := False\<rparr>)" using ok(1) by (simp add: system_ok_def game_ok_def player_ids_def)
  then show ?thesis using ok run_stop by (auto simp: ct_Stop_def outgoing_ok_def)
qed

text \<open>The invariant, and the network on its own runs as the model of the network says.\<close>

lemma running_ok:
  assumes "running alloc os maxClients st ms" "allocates alloc" "binds_succeed os"
  shows "system_ok st \<and> outgoing_ok st ms \<and> reachable alloc os maxClients Centralized (ct_network st)"
  using assms(1)
proof induction
  case (run_start net)
  then show ?case using system_ok_start [OF run_start assms(2)] by (auto intro: reach_start)
next
  case (run_more st ms st' ms')
  have "reachable alloc os maxClients Centralized b"
    if "(server_step os)\<^sup>*\<^sup>* (ct_network st) b" for b
    using that by induction (use run_more.IH in \<open>auto intro: reach_step\<close>)
  then show ?case using run_step_keeps [OF run_more(2) _ _ assms(3)] run_more.IH by blast
qed

text \<open>The messages of an event, sent without interruption.\<close>

lemma send_all_running:
  "running alloc os maxClients st ms \<Longrightarrow> send_all os ms st = Inr st' \<Longrightarrow> running alloc os maxClients st' []"
proof (induction ms arbitrary: st)
  case (Cons m ms)
  obtain p data len where m: "m = (p, data, len)" by (cases m)
  then obtain st1 where st1: "send_to os st p data len = Inr st1" "send_all os ms st1 = Inr st'"
    using Cons.prems(2) by (auto simp: andThen_Inr_iff)
  have "running alloc os maxClients st1 ms"
    by (rule run_more [OF Cons.prems(1) [unfolded m] run_send [OF st1(1)]])
  then show ?case using Cons.IH st1(2) by blast
qed simp

lemma dispatch_running:
  assumes run: "running alloc os maxClients st []" and pop: "PopNetworkEvent (ct_network st) = Some (e, net)"
    and junk: "length junk = 256" and d: "dispatch_event os junk (st\<lparr>ct_network := net\<rparr>) e = Inr st'"
    and ids: "ev_type e = RECEIVED \<longrightarrow> sint (mgr_roomIdCounter (ct_rooms st)) < 2 ^ 31 - 1"
  shows "running alloc os maxClients st' []"
proof -
  obtain st1 ms where t: "turn_event junk (st\<lparr>ct_network := net\<rparr>) e = Inr (st1, ms)" "send_all os ms st1 = Inr st'"
    using d unfolding turn_event_finish [symmetric] by (auto simp: finish_def andThen_Inr_iff)
  show ?thesis by (rule send_all_running [OF run_more [OF run run_take [OF pop junk t(1) ids]] t(2)])
qed

section \<open>The event loop in the running server\<close>

lemma queue_ok_distinct:
  "distinct (announced es) \<Longrightarrow> set (announced es) \<inter> known = {} \<Longrightarrow>
   list_all (\<lambda>e. ev_type e = RECEIVED \<longrightarrow> \<not> title_unterminated (ev_data e)) es \<Longrightarrow>
   i + int (length es) < 2 ^ 31 \<Longrightarrow> queue_ok known i es"
proof (induction es arbitrary: known i)
  case (Cons e es)
  show ?case
  proof (cases "ev_type e")
    case CONNECTED
    then show ?thesis using Cons.prems Cons.IH [of "insert (ev_sessionId e) known" i] by auto
  next
    case DISCONNECTED
    then show ?thesis using Cons.prems Cons.IH [of known i] by auto
  next
    case RECEIVED
    then show ?thesis using Cons.prems Cons.IH [of known "i + 1"] by auto
  qed
qed simp

text \<open>The events that wait can all be handled.\<close>

definition queue_clean :: "CCentralizedServer \<Rightarrow> bool" where
  "queue_clean st \<longleftrightarrow>
     list_all (\<lambda>e. ev_type e = RECEIVED \<longrightarrow> \<not> title_unterminated (ev_data e)) (srv_eventQueue (ct_network st)) \<and>
     sint (mgr_roomIdCounter (ct_rooms st)) + int (length (srv_eventQueue (ct_network st))) < 2 ^ 31"

lemma system_queue_fits: "system_ok st \<Longrightarrow> queue_clean st \<Longrightarrow> queue_fits st"
  unfolding queue_fits_def using queue_ok_distinct by (simp add: system_ok_def queue_clean_def)

lemma event_loop_running:
  "running alloc os maxClients st [] \<Longrightarrow> game_ok st \<Longrightarrow> queue_fits st \<Longrightarrow> length junk = 256 \<Longrightarrow>
   event_loop fuel os junk st = Inr st' \<Longrightarrow> running alloc os maxClients st' []"
proof (induction fuel arbitrary: st)
  case (Suc fuel)
  show ?case
  proof (cases "srv_eventQueue (ct_network st)")
    case Nil
    then show ?thesis using Suc.prems by (simp add: PopNetworkEvent_def TryPop_def)
  next
    case (Cons e es)
    let ?net = "ct_network st\<lparr>srv_eventQueue := es\<rparr>"
    have pop: "PopNetworkEvent (ct_network st) = Some (e, ?net)"
      using Cons by (simp add: PopNetworkEvent_def TryPop_def)
    obtain st1 where d: "dispatch_event os junk (st\<lparr>ct_network := ?net\<rparr>) e = Inr st1" "game_ok st1" "queue_fits st1"
      using dispatch_event_ok [OF Suc.prems(2,4,3) Cons] by blast
    have "ev_type e = RECEIVED \<longrightarrow> sint (mgr_roomIdCounter (ct_rooms st)) < 2 ^ 31 - 1"
      using Suc.prems(3) Cons by (simp add: queue_fits_def split: NetworkEventType.splits)
    then have "running alloc os maxClients st1 []" by (rule dispatch_running [OF Suc.prems(1) pop Suc.prems(4) d(1)])
    then show ?thesis using Suc.IH [of st1] d Suc.prems(4,5) pop by simp
  qed
qed simp

end
