(* ===== verification/SystemProperties.thy ===== *)
theory SystemProperties
  imports GameProperties RunningServer
begin

text \<open>
  The properties of the server as a whole: network, worker threads and game thread together.
\<close>

section \<open>A server that has accepted a client\<close>

lemma demo_running:
  "\<exists>st sid. running zero_alloc happy_os 2 st [] \<and> ct_running st \<and> srv_eventQueue (ct_network st) = [connected sid] \<and>
    ct_players st = [] \<and> ct_rooms st = CRoomManager_new"
proof -
  obtain s0 where s0: "CSession_new zero_alloc = Inr s0" using CSession_new_total by blast
  have out: "fst (start_outcome happy_os)"
    by (simp add: start_outcome_def happy_os_def Let_def INVALID_SOCKET_def)
  have two: "[0..<2] = [0, Suc 0]" by (simp add: numeral_2_eq_2)
  obtain srv where srv: "Start zero_alloc happy_os (CIOCPServer_new 2 Centralized) = Inr (True, srv)"
    "srv_availableIndices srv = [0, 1]" "srv_pendingDisconStack srv = []" "srv_sessionIdCounter srv = 1"
    "srv_eventQueue srv = []" "srv_architectureType srv = Centralized"
    using Start_new [of 2 2 zero_alloc s0 happy_os Centralized] s0 out by (auto simp: two)
  let ?st = "(CCentralizedServer_new 2)\<lparr>ct_running := True, ct_network := srv\<rparr>"
  have r: "ReleaseSession srv = srv" by (simp add: ReleaseSession_def srv(3))
  have small: "unat (srv_sessionIdCounter srv) < 2 ^ 48" by (simp add: srv(4))
  have "\<exists>net sid. accept_step happy_os srv 11 = Inr net \<and> srv_eventQueue net = [connected sid]"
  proof (cases rule: accept_step_cases [OF Start_ok [OF srv(1) zero_allocates] small happy_os_ok(1), of 11, case_names none admit])
    case none
    then show ?thesis using srv(2) by (auto simp: r INVALID_SOCKET_def)
  next
    case (admit index rest s)
    have at: "session_at (admission (offered srv 11) 11 index s) (unat index) = Some s"
      using admit(3) by (simp add: r session_at_admission)
    have "room (cs_recvQ s) \<noteq> 0" using admit(4,10) by (simp add: room_def session_ok_def)
    then show ?thesis
      using PostRecv_eq [OF at admit(4), of happy_os] admit(5,12) srv(5,6)
      by (auto simp: r os_result_def happy_os_def connected_def Let_def)
  qed
  then obtain net sid where acc: "accept_step happy_os srv 11 = Inr net" "srv_eventQueue net = [connected sid]"
    by blast
  have "running zero_alloc happy_os 2 (?st\<lparr>ct_network := net\<rparr>) []"
    by (rule run_more [OF run_start [OF srv(1)]], rule run_accept [where k = 11]) (use acc small in simp_all)
  then show ?thesis using acc(2) by (fastforce simp: CCentralizedServer_new_def)
qed

section \<open>Reachable states\<close>

text \<open>
  C2: The game follows the network, when the threads take turns.  The completion port accepts every
  socket, the queues are allocated, and one turn of a thread is over before another one begins: the
  accept thread's handling of one client, a worker's of one completion, the game
  thread's own work on one event, or the sending of one of its messages.  In every state such runs reach,
  also while the game thread still has messages of an event to send, the network on its own
  has run as the model of \<open>CIOCPServer\<close> allows; whoever reads the queued events to their end,
  starting with the registered players, knows exactly the ids of the open sessions; an
  announced id is not registered yet; and everybody in a room is registered under the id of
  their own session.  Both conditions are needed: a refused socket stays behind as an open session that is
  never announced (C39), and a disconnection that is overtaken by the accept
  thread reports the wrong session (\<open>disconnection_reports_next_client\<close>).
\<close>

theorem players_follow_sessions:
  assumes "running alloc os maxClients st ms" "allocates alloc" "binds_succeed os"
  shows "reachable alloc os maxClients Centralized (ct_network st) \<and>
    replay (srv_eventQueue (ct_network st)) (set (map fst (ct_players st))) = open_ids (ct_network st) \<and>
    distinct (map fst (ct_players st)) \<and>
    (\<forall>e \<in> set (srv_eventQueue (ct_network st)). ev_type e = CONNECTED \<longrightarrow> GetPlayer st (ev_sessionId e) = None) \<and>
    (\<forall>p. in_some_room (views (ct_rooms st)) p \<longrightarrow> GetPlayer st (pl_sessionId (ct_store st ! p)) = Some p)"
proof -
  note run = running_ok [OF assms]
  then have ok: "game_ok st" "set (announced (srv_eventQueue (ct_network st))) \<inter> registered_ids st = {}"
    by (simp_all add: system_ok_def)
  have "GetPlayer st (pl_sessionId (ct_store st ! p)) = Some p" if "in_some_room (views (ct_rooms st)) p" for p
    using that ok(1) by (force simp: game_ok_def GetPlayer_def)
  moreover have "GetPlayer st (ev_sessionId e) = None"
    if "e \<in> set (srv_eventQueue (ct_network st))" "ev_type e = CONNECTED" for e
    using that ok(2) by (auto simp: GetPlayer_None_iff announced_def)
  ultimately show ?thesis using run ok(1) by (auto simp: system_ok_def game_ok_def)
qed

theorem players_follow_sessions_witness:
  "\<exists>st sid. running zero_alloc happy_os 2 st [] \<and> GetPlayer st sid = None \<and> open_ids (ct_network st) = {sid}"
proof -
  obtain st sid where st: "running zero_alloc happy_os 2 st []" "srv_eventQueue (ct_network st) = [connected sid]"
      "ct_players st = []" using demo_running by blast
  show ?thesis
    using players_follow_sessions [OF st(1) zero_allocates happy_os_ok(1)] st
    by (intro exI [of _ st] exI [of _ sid]) (simp add: connected_def)
qed

text \<open>
  C3: No turn of a thread faults.  The completion port accepts every socket, the queues are allocated,
  and turns do not overlap, as in C2.  Whatever the operating
  system answers to all other calls, in every state such runs reach, also between two messages of the
  game thread: the accept thread returns from its turn into such a state as long as the counter of session ids
  has not used up its 48 bits; a worker from every completion of a used session; the game thread from
  sending its next message and, when it has none
  left and the counter of room ids has not reached its end, from its work on the next event, unless that is a create request of a
  registered player whose title has no end, which is read beyond the message.  Turns that overlap are
  not covered: the stack of ended sessions has no lock (\<open>pending_stack_race\<close>).
\<close>

theorem running_server_safe:
  assumes "running alloc os maxClients st ms" "allocates alloc" "binds_succeed os"
  shows "(unat (srv_sessionIdCounter (ct_network st)) < 2 ^ 48 \<longrightarrow>
      (\<exists>net. accept_step os (ct_network st) k = Inr net \<and> running alloc os maxClients (st\<lparr>ct_network := net\<rparr>) ms)) \<and>
    (completion_ok (ct_network st) c \<longrightarrow>
      (\<exists>net. worker_step os (ct_network st) c = Inr net \<and> running alloc os maxClients (st\<lparr>ct_network := net\<rparr>) ms)) \<and>
    (case ms of
       (p, data, len) # rest \<Rightarrow> \<exists>st'. send_to os st p data len = Inr st' \<and> running alloc os maxClients st' rest
     | [] \<Rightarrow> PopNetworkEvent (ct_network st) = Some (e, net1) \<longrightarrow> length junk = 256 \<longrightarrow>
         sint (mgr_roomIdCounter (ct_rooms st)) < 2 ^ 31 - 1 \<longrightarrow>
         (if bad_title st e then turn_event junk (st\<lparr>ct_network := net1\<rparr>) e = Inl OutOfBounds
          else \<exists>st' ms'. turn_event junk (st\<lparr>ct_network := net1\<rparr>) e = Inr (st', ms') \<and>
            running alloc os maxClients st' ms'))"
proof (intro conjI impI)
  have ok: "system_ok st" "outgoing_ok st ms" using running_ok [OF assms] by simp_all
  then have inv: "server_ok (ct_network st)" "srv_ok (ct_network st)" by (simp_all add: system_ok_def server_ok_def)
  {
    assume small: "unat (srv_sessionIdCounter (ct_network st)) < 2 ^ 48"
    obtain net where net: "accept_step os (ct_network st) k = Inr net"
      using accept_step_ok [OF inv(1) small assms(3)] by blast
    show "\<exists>net. accept_step os (ct_network st) k = Inr net \<and> running alloc os maxClients (st\<lparr>ct_network := net\<rparr>) ms"
      using net run_more [OF assms(1) run_accept [OF net small]] by blast
  next
    assume c: "completion_ok (ct_network st) c"
    obtain net where net: "worker_step os (ct_network st) c = Inr net"
      using report.worker_step_runs [OF inv(2) c] by blast
    show "\<exists>net. worker_step os (ct_network st) c = Inr net \<and> running alloc os maxClients (st\<lparr>ct_network := net\<rparr>) ms"
      using net run_more [OF assms(1) run_worker [OF net c]] by blast
  next
    show "case ms of
       (p, data, len) # rest \<Rightarrow> \<exists>st'. send_to os st p data len = Inr st' \<and> running alloc os maxClients st' rest
     | [] \<Rightarrow> PopNetworkEvent (ct_network st) = Some (e, net1) \<longrightarrow> length junk = 256 \<longrightarrow>
         sint (mgr_roomIdCounter (ct_rooms st)) < 2 ^ 31 - 1 \<longrightarrow>
         (if bad_title st e then turn_event junk (st\<lparr>ct_network := net1\<rparr>) e = Inl OutOfBounds
          else \<exists>st' ms'. turn_event junk (st\<lparr>ct_network := net1\<rparr>) e = Inr (st', ms') \<and>
            running alloc os maxClients st' ms')"
    proof (cases ms)
      case Nil
      have "running alloc os maxClients st' ms'"
        if "PopNetworkEvent (ct_network st) = Some (e, net1)" "length junk = 256"
          "turn_event junk (st\<lparr>ct_network := net1\<rparr>) e = Inr (st', ms')" "sint (mgr_roomIdCounter (ct_rooms st)) < 2 ^ 31 - 1"
        for st' ms'
        by (rule run_more [OF assms(1) [unfolded Nil] run_take [OF that(1-3)]]) (use that(4) in simp)
      then show ?thesis
        using Nil bad_title_faults [of e st junk net1] take_keeps [OF ok(1), of junk e net1] by (fastforce simp: bad_title_def)
    next
      case (Cons m rest)
      obtain p data len where m: "m = (p, data, len)" by (cases m)
      obtain st' where "send_to os st p data len = Inr st'"
        using send_to_keeps [OF ok(1) ok(2) [unfolded Cons m] assms(3)] by blast
      moreover from this have "running alloc os maxClients st' rest"
        by (rule run_more [OF assms(1) [unfolded Cons m] run_send])
      ultimately show ?thesis using Cons m by simp
    qed
  }
qed

theorem running_server_safe_witness:
  "\<exists>st sid st' ms. running zero_alloc happy_os 2 st [] \<and>
    turn_event (replicate 256 7) (st\<lparr>ct_network := ct_network st\<lparr>srv_eventQueue := []\<rparr>\<rparr>) (connected sid) = Inr (st', ms) \<and>
    running zero_alloc happy_os 2 st' ms"
proof -
  obtain st sid where st: "running zero_alloc happy_os 2 st []" "srv_eventQueue (ct_network st) = [connected sid]"
      "ct_rooms st = CRoomManager_new" using demo_running by blast
  have pop: "PopNetworkEvent (ct_network st) = Some (connected sid, ct_network st\<lparr>srv_eventQueue := []\<rparr>)"
    by (simp add: PopNetworkEvent_def TryPop_def st(2))
  have ready: "sint (mgr_roomIdCounter (ct_rooms st)) < 2 ^ 31 - 1" "\<not> bad_title st (connected sid)"
    by (simp_all add: st(3) bad_title_def connected_def)
  have len: "length (replicate 256 (7 :: byte)) = 256" by (rule length_replicate)
  note safe = running_server_safe [OF st(1) zero_allocates happy_os_ok(1), THEN conjunct2, THEN conjunct2,
      unfolded list.case, THEN mp, OF pop, THEN mp, OF len, THEN mp, OF ready(1)]
  have "\<exists>st' ms. turn_event (replicate 256 7) (st\<lparr>ct_network := ct_network st\<lparr>srv_eventQueue := []\<rparr>\<rparr>)
      (connected sid) = Inr (st', ms) \<and> running zero_alloc happy_os 2 st' ms"
    using safe by (simp only: ready(2) if_False)
  then show ?thesis using st(1) by blast
qed

text \<open>
  C13: The game catches up.  The completion port accepts every socket and the queues are allocated.
  Take a state that turns as in C2 reach, between two events, whose queue holds no create request with an unterminated
  title and no more events than there are room ids left.  From there one iteration of GameLogicThread, while the
  network threads pause, handles all events, those that
  failing answers add included, and ends in such a state with an empty queue.  The
  registered players are then exactly the open sessions, and every player in a room is one of
  them.  A stopped server does nothing.
\<close>

theorem game_catches_up:
  assumes "running alloc os maxClients st []" "allocates alloc" "binds_succeed os" "queue_clean st" "length junk = 256"
  shows "\<exists>st'. game_tick os junk st = Inr st' \<and> running alloc os maxClients st' [] \<and>
    (if ct_running st
     then srv_eventQueue (ct_network st') = [] \<and> set (map fst (ct_players st')) = open_ids (ct_network st') \<and>
       (\<forall>p. in_some_room (views (ct_rooms st')) p \<longrightarrow> pl_sessionId (ct_store st' ! p) \<in> open_ids (ct_network st'))
     else st' = st)"
proof -
  have ok: "system_ok st" using running_ok [OF assms(1-3)] by simp
  then have g: "game_ok st" by (simp add: system_ok_def)
  have fits: "queue_fits st" using ok assms(4) by (rule system_queue_fits)
  have "backlog (ct_network st) < event_fuel (ct_network st)" by (simp add: backlog_def event_fuel_def)
  from event_loop_ok [OF g fits assms(5) this, of os] obtain st' where
    st': "event_loop (event_fuel (ct_network st)) os junk st = Inr st'" "srv_eventQueue (ct_network st') = []"
    by blast
  have run: "running alloc os maxClients st' []" by (rule event_loop_running [OF assms(1) g fits assms(5) st'(1)])
  have ok': "system_ok st'" using running_ok [OF run assms(2,3)] by simp
  then have ids: "set (map fst (ct_players st')) = open_ids (ct_network st')"
    using st'(2) by (simp add: system_ok_def)
  have members: "pl_sessionId (ct_store st' ! p) \<in> open_ids (ct_network st')" if inr: "in_some_room (views (ct_rooms st')) p" for p
  proof -
    have g': "game_ok st'" using ok' by (simp add: system_ok_def)
    then obtain sid where sid: "(sid, p) \<in> set (ct_players st')" using inr by (auto simp: game_ok_def)
    then have "pl_sessionId (ct_store st' ! p) = sid" using g' by (auto simp: game_ok_def)
    moreover have "sid \<in> set (map fst (ct_players st'))" using sid by force
    ultimately show ?thesis by (simp only: ids)
  qed
  show ?thesis
  proof (cases "ct_running st")
    case True
    then show ?thesis
      using st' run ids members by (intro exI [of _ st']) (simp add: game_tick_def ProcessGameLogic_def)
  next
    case False
    then show ?thesis using assms(1) by (simp add: game_tick_def)
  qed
qed

theorem game_catches_up_witness:
  "\<exists>st st' sid. running zero_alloc happy_os 2 st [] \<and> srv_eventQueue (ct_network st) = [connected sid] \<and>
    game_tick happy_os (replicate 256 7) st = Inr st' \<and> srv_eventQueue (ct_network st') = []"
proof -
  obtain st sid where st: "running zero_alloc happy_os 2 st []" "ct_running st" "srv_eventQueue (ct_network st) = [connected sid]"
      "ct_rooms st = CRoomManager_new" using demo_running by blast
  have "queue_clean st" by (simp add: queue_clean_def st connected_def)
  from game_catches_up [OF st(1) zero_allocates happy_os_ok(1) this, of "replicate 256 7"] show ?thesis
    using st by auto
qed

end
