(* ===== verification/SessionReuse.thy ===== *)
theory SessionReuse
  imports Demo
begin

text \<open>
  What happens to the completions of a session that is gone when its slot serves the next one:
  the check of \<open>WorkerThread\<close> compares the id in the overlapped block with the id of the
  session, but the block is a member of the session and \<open>Initialize\<close> stamps it anew.
\<close>

section \<open>Completions of a valid session\<close>

text \<open>The receive or send block of slot \<open>i\<close>, as \<open>WorkerThread\<close> reads it: the ids always agree.\<close>

lemma worker_step_own_block:
  assumes at: "session_at srv i = Some s" and ok: "session_ok s" and v: "cs_valid s" and run: "srv_running srv"
    and c: "cp_key c = Some i" "cp_overlapped c = Some (RecvOv i) \<or> cp_overlapped c = Some (SendOv i)"
  shows "worker_step os srv c =
    (if \<not> cp_result c \<or> cp_bytes c = 0 then Inr (disconnected srv i s)
     else if cp_overlapped c = Some (RecvOv i) then ProcessRecv os srv i (cp_bytes c)
     else ProcessSend os srv i (cp_bytes c))"
  using c ok v run at by (auto simp: worker_step_def Disconnect_valid session_ok_def)

section \<open>The next session of a slot\<close>

lemma release_loop_running [simp]: "srv_running (release_loop stack srv) = srv_running srv"
proof (induction stack srv rule: release_loop.induct)
  case (2 sid rest srv)
  then show ?case by (auto simp: Let_def Close_def split: option.splits)
qed simp

lemma ReleaseSession_running [simp]: "srv_running (ReleaseSession srv) = srv_running srv"
  unfolding ReleaseSession_def by (rule release_loop_running)

text \<open>An admitted session waits for its first bytes.\<close>

lemma accept_first_receive:
  assumes "session_ok s" "cs_valid s" "cs_socket s = k" "contents (cs_recvQ s) = []"
    and "unat index < length (srv_sessions srv)" "transfers_succeed os"
  shows "PostRecv os (admission srv k index s) (unat index) =
    Inr (syscall (OsRecv k (posted_buffers (cs_recvQ s))) (admission srv k index s))"
proof -
  let ?a = "admission srv k index s"
  have at: "session_at ?a (unat index) = Some s" using assms(5) by (simp add: session_at_admission)
  have "room (cs_recvQ s) \<noteq> 0" using assms(1,4) by (simp add: room_def session_ok_def)
  then show ?thesis
    using PostRecv_eq [OF at assms(1), of os] assms(2,3,6)
    by (simp add: posted_buffers_def os_result_def transfers_succeed_def Let_def)
qed

text \<open>When the only slot that can be released is that of session \<open>sid\<close>, the next client gets it.\<close>

lemma next_session:
  assumes inv: "server_ok d" and full: "srv_availableIndices d = []" "srv_pendingDisconStack d = [sid]"
    and small: "unat (srv_sessionIdCounter d) < 2 ^ 48" and os: "binds_succeed os" "transfers_succeed os"
    and k: "k \<noteq> INVALID_SOCKET"
  shows "\<exists>t. accept_step os d k = Inr (syscall (OsRecv k (posted_buffers (cs_recvQ t)))
      (admission (offered d k) k (ExtractIndex sid) t)) \<and>
    session_at (admission (offered d k) k (ExtractIndex sid) t) (unat (ExtractIndex sid)) = Some t \<and>
    session_ok t \<and> cs_valid t \<and> cs_socket t = k \<and> ExtractUniqueId (cs_sessionId t) = srv_sessionIdCounter d \<and>
    contents (cs_recvQ t) = []"
proof -
  have av: "srv_availableIndices (ReleaseSession d) = [ExtractIndex sid]"
    using ReleaseSession_pool(4) [of d] inv full by (simp add: server_ok_def)
  show ?thesis
  proof (cases rule: accept_step_cases [OF inv small os(1), of k, case_names none admit])
    case none
    then show ?thesis using k av by simp
  next
    case (admit index rest t)
    have index: "index = ExtractIndex sid" using admit(2) av by simp
    let ?a = "admission (offered d k) k index t"
    have "accept_step os d k = Inr (syscall (OsRecv k (posted_buffers (cs_recvQ t))) ?a)"
      using accept_first_receive [OF admit(4,5,6,10,3) os(2)] admit(12) by simp
    moreover have "session_at ?a (unat index) = Some t" using admit(3) by (simp add: session_at_admission)
    ultimately show ?thesis using admit(4-6,8,10) index by auto
  qed
qed

lemma slot_reused:
  assumes inv: "server_ok srv" and at: "session_at srv i = Some s" "cs_valid s" "cs_sessionId s \<noteq> 0"
    and full: "srv_availableIndices srv = []" "srv_pendingDisconStack srv = []"
    and small: "unat (srv_sessionIdCounter srv) < 2 ^ 48" and os: "binds_succeed os" "transfers_succeed os"
    and k: "k \<noteq> INVALID_SOCKET"
  shows "\<exists>srv2 t. accept_step os (disconnected srv i s) k = Inr srv2 \<and> session_at srv2 i = Some t \<and> session_ok t \<and>
    cs_valid t \<and> cs_socket t = k \<and> cs_sessionId t \<noteq> cs_sessionId s \<and> contents (cs_recvQ t) = [] \<and>
    srv_running srv2 = srv_running srv"
proof -
  let ?d = "disconnected srv i s"
  have pool: "pool_ok srv" and ok: "srv_ok srv" using inv by (simp_all add: server_ok_def)
  have d: "server_ok ?d"
    using pool_ok_disconnected [OF pool at] srv_ok_disconnected [OF ok srv_ok_at [OF ok at(1)]] by (simp add: server_ok_def)
  have slot: "unat (ExtractIndex (cs_sessionId s)) = i"
      "unat (ExtractUniqueId (cs_sessionId s)) < unat (srv_sessionIdCounter srv)"
    using pool_slot [OF pool at(1)] at(3) by (simp_all add: slot_ok_def)
  obtain t where t: "accept_step os ?d k = Inr (syscall (OsRecv k (posted_buffers (cs_recvQ t)))
        (admission (offered ?d k) k (ExtractIndex (cs_sessionId s)) t))"
      "session_at (admission (offered ?d k) k (ExtractIndex (cs_sessionId s)) t) i = Some t"
      "session_ok t" "cs_valid t" "cs_socket t = k" "ExtractUniqueId (cs_sessionId t) = srv_sessionIdCounter srv"
      "contents (cs_recvQ t) = []"
    using next_session [OF d _ _ _ os k, of "cs_sessionId s"] full small slot(1) by auto
  have "cs_sessionId t \<noteq> cs_sessionId s" using t(6) slot(2) by auto
  moreover have "srv_running (admission (offered ?d k) k (ExtractIndex (cs_sessionId s)) t) = srv_running srv"
    by (simp add: admission_def admitted_def Let_def)
  ultimately show ?thesis using t by simp
qed

section \<open>The defect\<close>

text \<open>
  C37: A completion of the previous session acts on the next one.  A client is disconnected while
  its receive is outstanding, and the next client gets the slot before a worker takes the completion
  of that receive.  If the receive was aborted or failed, the worker disconnects the new client;
  if it had transferred bytes, they are processed as received by the new session.  The id check
  that is meant to prevent this never applies: whenever the session is valid, the id in its own
  overlapped blocks is the id of the session.
\<close>

theorem stale_completion:
  assumes "server_ok srv" "srv_running srv" "session_at srv i = Some s" "cs_valid s"
    and "FindSession srv (cs_sessionId s) = Some i" "cs_sessionId s \<noteq> 0"
    and "srv_availableIndices srv = []" "srv_pendingDisconStack srv = []"
    and "unat (srv_sessionIdCounter srv) < 2 ^ 48" "binds_succeed os" "transfers_succeed os" "k \<noteq> INVALID_SOCKET"
    and "cp_key c = Some i" "cp_overlapped c = Some (RecvOv i)"
  shows "\<exists>srv1 srv2 t. RequestDisconnectSession srv (cs_sessionId s) = (True, srv1) \<and>
    accept_step os srv1 k = Inr srv2 \<and> session_at srv2 i = Some t \<and> cs_valid t \<and> cs_socket t = k \<and>
    cs_sessionId t \<noteq> cs_sessionId s \<and> contents (cs_recvQ t) = [] \<and>
    (if \<not> cp_result c \<or> cp_bytes c = 0
     then \<exists>srv3. worker_step os srv2 c = Inr srv3 \<and> srv_log srv3 = OsCloseSocket k # srv_log srv2 \<and>
       session_at srv3 i = Some (closed_session t) \<and> srv_pendingDisconStack srv3 = cs_sessionId t # srv_pendingDisconStack srv2
     else worker_step os srv2 c = ProcessRecv os srv2 i (cp_bytes c))"
proof -
  obtain srv2 t where r: "accept_step os (disconnected srv i s) k = Inr srv2" "session_at srv2 i = Some t" "session_ok t"
      "cs_valid t" "cs_socket t = k" "cs_sessionId t \<noteq> cs_sessionId s" "contents (cs_recvQ t) = []"
      "srv_running srv2 = srv_running srv"
    using slot_reused [OF assms(1,3,4,6-12)] by blast
  have "RequestDisconnectSession srv (cs_sessionId s) = (True, disconnected srv i s)"
    using assms(3-5) by (simp add: RequestDisconnectSession_def Disconnect_valid)
  moreover have "srv_log (disconnected srv2 i t) = OsCloseSocket k # srv_log srv2"
    using r(5) assms(12) by (simp add: disconnected_def Let_def)
  ultimately show ?thesis
    using r worker_step_own_block [OF r(2,3,4) _ assms(13), of os] assms(2,14) session_at_Some_less [OF r(2)]
    by (intro exI [of _ "disconnected srv i s"] exI [of _ srv2] exI [of _ t]) auto
qed

text \<open>A server with one slot, in use.\<close>

definition full_server :: CIOCPServer where
  "full_server = (demo_server Centralized)\<lparr>srv_maxClients := 1, srv_sessions := [Some (demo_session 9 2)],
     srv_availableIndices := []\<rparr>"

lemma full_server_ok: "server_ok full_server" "session_at full_server 0 = Some (demo_session 9 2)"
  by (auto simp: server_ok_def full_server_def srv_ok_def pool_ok_def slot_ok_def session_at_def)

theorem stale_completion_witness:
  "\<exists>srv1 srv2 srv3 t. RequestDisconnectSession full_server 2 = (True, srv1) \<and> accept_step happy_os srv1 11 = Inr srv2 \<and>
    session_at srv2 0 = Some t \<and> cs_valid t \<and> cs_socket t = 11 \<and> cs_sessionId t \<noteq> 2 \<and>
    worker_step happy_os srv2 \<lparr>cp_result = False, cp_bytes = 0, cp_key = Some 0, cp_overlapped = Some (RecvOv 0)\<rparr> = Inr srv3 \<and>
    hd (srv_log srv3) = OsCloseSocket 11"
proof -
  have "FindSession full_server 2 = Some 0" using full_server_ok(2) by (simp add: FindSession_Some)
  moreover have "srv_running full_server" "srv_availableIndices full_server = []" "srv_pendingDisconStack full_server = []"
      "srv_sessionIdCounter full_server = 3"
    by (simp_all add: full_server_def)
  ultimately show ?thesis
    using stale_completion [OF full_server_ok(1) _ full_server_ok(2), of happy_os 11
        "\<lparr>cp_result = False, cp_bytes = 0, cp_key = Some 0, cp_overlapped = Some (RecvOv 0)\<rparr>"] happy_os_ok
    by (auto simp: INVALID_SOCKET_def)
qed

end
