(* ===== verification/DisconnectSteps.thy ===== *)
theory DisconnectSteps
  imports SessionReuse Reports
begin

text \<open>
  \<open>DisconnectSessionInternal\<close>, which workers and the game thread call, and the loop of \<open>AcceptThread\<close>,
  statement by statement.  Run alone they are the functions of \<open>IOCPServer\<close> and \<open>IOCPLifecycle\<close>.
  Interleaved they race: \<open>_pendingDisconStack\<close> is a \<open>std::stack\<close> without a lock, and the id that a
  disconnection reports is read after the slot has been given up.
\<close>

section \<open>State and steps\<close>

text \<open>Where a thread is in \<open>DisconnectSessionInternal\<close> of slot \<open>i\<close>.\<close>

datatype drop_pc =
    Away
  | D_Exchange nat        \<comment> \<open>before \<open>_valid.exchange(false)\<close>\<close>
  | D_Close nat           \<comment> \<open>before the test of \<open>_socket\<close> and \<open>closesocket\<close>\<close>
  | D_Flag nat            \<comment> \<open>before \<open>_sending.store(false)\<close>\<close>
  | D_Push nat            \<comment> \<open>before \<open>_pendingDisconStack.push\<close>\<close>
  | D_Report nat          \<comment> \<open>before the event is made and pushed\<close>

text \<open>Where the accept thread is, with the socket that \<open>accept\<close> has returned.\<close>

datatype accept_pc =
    Accepting
  | A_Release SOCKET                   \<comment> \<open>\<open>ReleaseSession\<close>, before \<open>empty\<close>, \<open>top\<close> and \<open>pop\<close>\<close>
  | A_Free SOCKET "64 word"            \<comment> \<open>before \<open>FindSession\<close> of the popped id\<close>
  | A_Check SOCKET                     \<comment> \<open>before the test of the socket\<close>
  | A_Index SOCKET                     \<comment> \<open>\<open>ProcessAccept\<close>, before the test of \<open>_availableIndices\<close>\<close>
  | A_Init SOCKET uint16_t int64_t     \<comment> \<open>before \<open>Initialize\<close>\<close>
  | A_Bind SOCKET uint16_t int64_t     \<comment> \<open>before \<open>BindIOCP\<close>\<close>
  | A_Announce uint16_t int64_t        \<comment> \<open>before the event is pushed\<close>
  | A_Recv uint16_t                    \<comment> \<open>before \<open>PostRecv\<close>\<close>

record life_state =
  ls_server :: CIOCPServer
  ls_accept :: accept_pc
  ls_pc :: "nat \<Rightarrow> drop_pc"

definition drop_goto :: "nat \<Rightarrow> drop_pc \<Rightarrow> CIOCPServer \<Rightarrow> life_state \<Rightarrow> life_state" where
  "drop_goto t c srv s = s\<lparr>ls_server := srv, ls_pc := (ls_pc s)(t := c)\<rparr>"

definition accept_goto :: "accept_pc \<Rightarrow> CIOCPServer \<Rightarrow> life_state \<Rightarrow> life_state" where
  "accept_goto c srv s = s\<lparr>ls_server := srv, ls_accept := c\<rparr>"

text \<open>The next statement of thread \<open>t\<close>; the members of the session are read when it runs.\<close>

definition drop_next :: "nat \<Rightarrow> life_state \<Rightarrow> life_state res" where
  "drop_next t s =
     (let srv = ls_server s in
      case ls_pc s t of
        Away \<Rightarrow> Inr s
      | D_Exchange i \<Rightarrow> andThen (deref srv i) (\<lambda>c.
          Inr (if cs_valid c then drop_goto t (D_Close i) (set_session srv i (c\<lparr>cs_valid := False\<rparr>)) s
               else drop_goto t Away srv s))
      | D_Close i \<Rightarrow> andThen (deref srv i) (\<lambda>c. Inr (drop_goto t (D_Flag i) (Close srv i c) s))
      | D_Flag i \<Rightarrow> andThen (deref srv i) (\<lambda>c.
          Inr (drop_goto t (D_Push i) (set_session srv i (c\<lparr>cs_sending := False\<rparr>)) s))
      | D_Push i \<Rightarrow> andThen (deref srv i) (\<lambda>c.
          Inr (drop_goto t (D_Report i) (srv\<lparr>srv_pendingDisconStack := cs_sessionId c # srv_pendingDisconStack srv\<rparr>) s))
      | D_Report i \<Rightarrow> andThen (deref srv i) (\<lambda>c.
          Inr (drop_goto t Away
            (case srv_architectureType srv of
               Centralized \<Rightarrow> PushNetworkEvent srv
                 \<lparr>ev_type = DISCONNECTED, ev_sessionId = cs_sessionId c, ev_data = []\<rparr>
             | _ \<Rightarrow> srv) s)))"

text \<open>The next statement of the accept thread, once \<open>accept\<close> has returned.\<close>

definition accept_next :: "os \<Rightarrow> life_state \<Rightarrow> life_state res" where
  "accept_next os s =
     (let srv = ls_server s in
      case ls_accept s of
        Accepting \<Rightarrow> Inr s
      | A_Release k \<Rightarrow>
          (case srv_pendingDisconStack srv of
             [] \<Rightarrow> Inr (accept_goto (A_Check k) srv s)
           | sessionid # rest \<Rightarrow> Inr (accept_goto (A_Free k sessionid) (srv\<lparr>srv_pendingDisconStack := rest\<rparr>) s))
      | A_Free k sessionid \<Rightarrow>
          (case FindSession srv sessionid of
             None \<Rightarrow> Inr (accept_goto (A_Release k) srv s)
           | Some i \<Rightarrow>
               let srv = Close srv i (the (session_at srv i)) in
               Inr (accept_goto (A_Release k)
                 (srv\<lparr>srv_availableIndices := srv_availableIndices srv @ [ExtractIndex sessionid]\<rparr>) s))
      | A_Check k \<Rightarrow>
          if k = INVALID_SOCKET then Inr (accept_goto Accepting srv s)
          else Inr (accept_goto (A_Index k) (snd (SetSocketOptions k srv)) s)
      | A_Index k \<Rightarrow>
          (case srv_availableIndices srv of
             [] \<Rightarrow> Inr (accept_goto Accepting (syscall (OsCloseSocket k) srv) s)
           | index # rest \<Rightarrow>
               let srv = srv\<lparr>srv_availableIndices := rest\<rparr>;
                   uniqueId = ExtractUniqueId (srv_sessionIdCounter srv);
                   srv = srv\<lparr>srv_sessionIdCounter := srv_sessionIdCounter srv + 1\<rparr> in
               Inr (accept_goto (A_Init k index (MakeSessionId index uniqueId)) srv s))
      | A_Init k index sessionId \<Rightarrow>
          andThen (deref srv (unat index)) (\<lambda>c.
          andThen (Initialize c k sessionId) (\<lambda>c.
          Inr (accept_goto (A_Bind k index sessionId) (set_session srv (unat index) c) s)))
      | A_Bind k index sessionId \<Rightarrow>
          (case BindIOCP os k (unat index) srv of
             (False, srv) \<Rightarrow>
               andThen (deref srv (unat index)) (\<lambda>c.
               let srv = Close srv (unat index) c;
                   srv = srv\<lparr>srv_availableIndices := srv_availableIndices srv @ [index]\<rparr> in
               Inr (accept_goto Accepting (syscall (OsCloseSocket k) srv) s))
           | (True, srv) \<Rightarrow> Inr (accept_goto (A_Announce index sessionId) srv s))
      | A_Announce index sessionId \<Rightarrow>
          Inr (accept_goto (A_Recv index)
            (case srv_architectureType srv of
               Centralized \<Rightarrow> PushNetworkEvent srv \<lparr>ev_type = CONNECTED, ev_sessionId = sessionId, ev_data = []\<rparr>
             | _ \<Rightarrow> srv) s)
      | A_Recv index \<Rightarrow> andThen (PostRecv os srv (unat index)) (\<lambda>srv. Inr (accept_goto Accepting srv s)))"

text \<open>Any thread calls the function, \<open>accept\<close> returns, or a thread runs its next statement.\<close>

inductive life_step :: "os \<Rightarrow> life_state \<Rightarrow> life_state \<Rightarrow> bool" for os where
  life_call: "ls_pc s t = Away \<Longrightarrow> session_at (ls_server s) i \<noteq> None \<Longrightarrow>
     life_step os s (drop_goto t (D_Exchange i) (ls_server s) s)"
| life_drop: "ls_pc s t \<noteq> Away \<Longrightarrow> drop_next t s = Inr s' \<Longrightarrow> life_step os s s'"
| life_arrive: "ls_accept s = Accepting \<Longrightarrow> life_step os s (accept_goto (A_Release k) (ls_server s) s)"
| life_accept: "ls_accept s \<noteq> Accepting \<Longrightarrow> accept_next os s = Inr s' \<Longrightarrow> life_step os s s'"

definition at_rest :: "CIOCPServer \<Rightarrow> life_state" where
  "at_rest srv = \<lparr>ls_server = srv, ls_accept = Accepting, ls_pc = (\<lambda>_. Away)\<rparr>"

definition life_reachable :: "os \<Rightarrow> CIOCPServer \<Rightarrow> life_state \<Rightarrow> bool" where
  "life_reachable os srv = (life_step os)\<^sup>*\<^sup>* (at_rest srv)"

section \<open>Run alone\<close>

lemma life_goto_simps [simp]:
  "ls_server (drop_goto t c srv s) = srv" "ls_pc (drop_goto t c srv s) = (ls_pc s)(t := c)"
  "ls_accept (drop_goto t c srv s) = ls_accept s"
  "ls_server (accept_goto a srv s) = srv" "ls_accept (accept_goto a srv s) = a" "ls_pc (accept_goto a srv s) = ls_pc s"
  "drop_goto t c srv (drop_goto t d srv' s) = drop_goto t c srv s"
  "accept_goto a srv (accept_goto b srv' s) = accept_goto a srv s"
  by (simp_all add: drop_goto_def accept_goto_def)

text \<open>A disconnection whose statements nothing comes between has the effect of the function.\<close>

lemma disconnect_alone:
  assumes at: "session_at srv i = Some c" and pc: "ls_pc s t = Away"
  defines "s' \<equiv> drop_goto t (D_Exchange i) srv s"
  shows "if cs_valid c
    then andThen (drop_next t s') (\<lambda>s. andThen (drop_next t s) (\<lambda>s. andThen (drop_next t s) (\<lambda>s.
      andThen (drop_next t s) (drop_next t)))) = Inr (drop_goto t Away (snd (DisconnectSessionInternal srv i)) s)
    else drop_next t s' = Inr (drop_goto t Away (snd (DisconnectSessionInternal srv i)) s)"
proof (cases "cs_valid c")
  case True
  note less = session_at_Some_less [OF at]
  show ?thesis
    using True at less
    by (simp add: s'_def drop_next_def Close_def DisconnectSessionInternal_def Let_def set_session_syscall
        split: ServerArchitectureType.split)
next
  case False
  then show ?thesis using at Disconnect_invalid [of srv i] by (simp add: s'_def drop_next_def)
qed

text \<open>So has the loop of the accept thread.\<close>

definition accept_to :: "os \<Rightarrow> life_state \<Rightarrow> life_state \<Rightarrow> bool" where
  "accept_to os s s' \<longleftrightarrow> ls_accept s \<noteq> Accepting \<and> accept_next os s = Inr s'"

lemma accept_to_first:
  "ls_accept s \<noteq> Accepting \<Longrightarrow> accept_next os s = Inr s1 \<Longrightarrow> (accept_to os)\<^sup>*\<^sup>* s1 s2 \<Longrightarrow> (accept_to os)\<^sup>*\<^sup>* s s2"
  by (rule converse_rtranclp_into_rtranclp) (auto simp: accept_to_def)

lemma accept_to_last: "ls_accept s \<noteq> Accepting \<Longrightarrow> accept_next os s = Inr s' \<Longrightarrow> (accept_to os)\<^sup>*\<^sup>* s s'"
  by (rule accept_to_first) auto

lemma release_alone:
  "srv_pendingDisconStack srv = stack \<Longrightarrow>
   (accept_to os)\<^sup>*\<^sup>* (accept_goto (A_Release k) srv s) (accept_goto (A_Check k) (release_loop stack srv) s)"
proof (induction stack arbitrary: srv)
  case Nil
  then show ?case by (intro accept_to_last) (simp_all add: accept_next_def)
next
  case (Cons sid rest)
  let ?srv = "srv\<lparr>srv_pendingDisconStack := rest\<rparr>"
  let ?freed = "case FindSession ?srv sid of None \<Rightarrow> ?srv
    | Some i \<Rightarrow> (Close ?srv i (the (session_at ?srv i)))
        \<lparr>srv_availableIndices := srv_availableIndices (Close ?srv i (the (session_at ?srv i))) @ [ExtractIndex sid]\<rparr>"
  have "srv_pendingDisconStack ?freed = rest" by (simp add: Close_def split: option.split)
  note IH = Cons.IH [OF this]
  have "release_loop (sid # rest) srv = release_loop rest ?freed" by (simp only: release_loop.simps Let_def)
  with IH have "(accept_to os)\<^sup>*\<^sup>* (accept_goto (A_Release k) ?freed s)
      (accept_goto (A_Check k) (release_loop (sid # rest) srv) s)"
    by (simp only:)
  then have "(accept_to os)\<^sup>*\<^sup>* (accept_goto (A_Free k sid) ?srv s) (accept_goto (A_Check k) (release_loop (sid # rest) srv) s)"
    by (rule accept_to_first [rotated 2]) (simp_all add: accept_next_def Let_def split: option.split)
  then show ?case
    by (rule accept_to_first [rotated 2]) (simp_all add: accept_next_def Cons.prems)
qed

lemma admit_alone:
  assumes "ProcessAccept os srv k = Inr srv'"
  shows "(accept_to os)\<^sup>*\<^sup>* (accept_goto (A_Index k) srv s) (accept_goto Accepting srv' s)"
proof (cases "srv_availableIndices srv")
  case Nil
  then show ?thesis using assms by (intro accept_to_last) (simp_all add: accept_next_def ProcessAccept_def)
next
  case (Cons index rest)
  let ?i = "unat index" and ?sid = "MakeSessionId index (ExtractUniqueId (srv_sessionIdCounter srv))"
  let ?srv = "srv\<lparr>srv_availableIndices := rest, srv_sessionIdCounter := srv_sessionIdCounter srv + 1\<rparr>"
  obtain c0 c where c: "deref ?srv ?i = Inr c0" "Initialize c0 k ?sid = Inr c" and less: "?i < length (srv_sessions srv)"
    using assms Cons
    by (auto simp: ProcessAccept_def Let_def andThen_Inr_iff deref_def session_at_def split: option.splits if_splits)
  obtain b srv1 where b: "BindIOCP os k ?i (set_session ?srv ?i c) = (b, srv1)" by fastforce
  have at: "session_at srv1 ?i = Some c" using b less by (auto simp: BindIOCP_def Let_def split: if_splits)
  let ?srv2 = "case srv_architectureType srv1 of
      Centralized \<Rightarrow> PushNetworkEvent srv1 \<lparr>ev_type = CONNECTED, ev_sessionId = ?sid, ev_data = []\<rparr> | _ \<Rightarrow> srv1"
  have r: "(if b then PostRecv os ?srv2 ?i
      else Inr (syscall (OsCloseSocket k)
        (Close srv1 ?i c\<lparr>srv_availableIndices := srv_availableIndices (Close srv1 ?i c) @ [index]\<rparr>))) = Inr srv'"
    using assms Cons c b by (cases b) (simp_all add: ProcessAccept_def Let_def cong: ServerArchitectureType.case_cong)
  have "(accept_to os)\<^sup>*\<^sup>* (accept_goto (A_Bind k index ?sid) (set_session ?srv ?i c) s) (accept_goto Accepting srv' s)"
  proof (cases b)
    case False
    then show ?thesis using r b at by (intro accept_to_last) (simp_all add: accept_next_def Let_def)
  next
    case True
    have "PostRecv os ?srv2 ?i = Inr srv'" using r True by simp
    then have "(accept_to os)\<^sup>*\<^sup>* (accept_goto (A_Recv index) ?srv2 s) (accept_goto Accepting srv' s)"
      by (intro accept_to_last) (simp_all add: accept_next_def)
    then have "(accept_to os)\<^sup>*\<^sup>* (accept_goto (A_Announce index ?sid) srv1 s) (accept_goto Accepting srv' s)"
      by (rule accept_to_first [rotated 2]) (simp_all add: accept_next_def)
    then show ?thesis by (rule accept_to_first [rotated 2]) (use True b in \<open>simp_all add: accept_next_def\<close>)
  qed
  then have "(accept_to os)\<^sup>*\<^sup>* (accept_goto (A_Init k index ?sid) ?srv s) (accept_goto Accepting srv' s)"
    by (rule accept_to_first [rotated 2]) (use c in \<open>simp_all add: accept_next_def\<close>)
  then show ?thesis by (rule accept_to_first [rotated 2]) (use Cons in \<open>simp_all add: accept_next_def Let_def\<close>)
qed

lemma accept_alone:
  assumes "accept_step os srv k = Inr srv'"
  shows "(accept_to os)\<^sup>*\<^sup>* (accept_goto (A_Release k) srv s) (accept_goto Accepting srv' s)"
proof -
  have "(accept_to os)\<^sup>*\<^sup>* (accept_goto (A_Check k) (ReleaseSession srv) s) (accept_goto Accepting srv' s)"
  proof (cases "k = INVALID_SOCKET")
    case True
    then show ?thesis using assms by (intro accept_to_last) (simp_all add: accept_next_def accept_step_def Let_def)
  next
    case False
    then have "ProcessAccept os (snd (SetSocketOptions k (ReleaseSession srv))) k = Inr srv'"
      using assms by (simp add: accept_step_def Let_def)
    from admit_alone [OF this, of s] show ?thesis
      by (rule accept_to_first [rotated 2]) (use False in \<open>simp_all add: accept_next_def\<close>)
  qed
  with release_alone [OF refl, of os k srv s] show ?thesis unfolding ReleaseSession_def by (rule rtranclp_trans)
qed

section \<open>The races\<close>

lemma life_first_drop:
  "ls_pc s t \<noteq> Away \<Longrightarrow> drop_next t s = Inr s1 \<Longrightarrow> (life_step os)\<^sup>*\<^sup>* s1 s2 \<Longrightarrow> (life_step os)\<^sup>*\<^sup>* s s2"
  by (rule converse_rtranclp_into_rtranclp) (rule life_drop)

lemma life_accepts: "(accept_to os)\<^sup>*\<^sup>* s s' \<Longrightarrow> (life_step os)\<^sup>*\<^sup>* s s'"
  by (erule rtranclp_mono [THEN predicate2D, rotated]) (auto simp: accept_to_def intro: life_accept)

text \<open>The session closed and its id on the stack, but not reported yet.\<close>

definition given_up :: "CIOCPServer \<Rightarrow> nat \<Rightarrow> CSession \<Rightarrow> CIOCPServer" where
  "given_up srv i c =
     (set_session (if cs_socket c \<noteq> INVALID_SOCKET then syscall (OsCloseSocket (cs_socket c)) srv else srv) i (closed_session c))
       \<lparr>srv_pendingDisconStack := cs_sessionId c # srv_pendingDisconStack srv\<rparr>"

lemma given_up_disconnected:
  "srv_architectureType srv = Centralized \<Longrightarrow> disconnected srv i c =
     PushNetworkEvent (given_up srv i c) \<lparr>ev_type = DISCONNECTED, ev_sessionId = cs_sessionId c, ev_data = []\<rparr>"
  by (simp add: disconnected_def given_up_def Let_def)

text \<open>A thread that disconnects a connected session, up to the push on the stack and past it.\<close>

lemma disconnect_prefix:
  fixes t :: nat
  assumes at: "session_at srv i = Some c" and v: "cs_valid c"
  shows "\<exists>srv1. life_reachable os srv (drop_goto t (D_Push i) srv1 (at_rest srv)) \<and>
    session_at srv1 i = Some (closed_session c) \<and>
    drop_next t (drop_goto t (D_Push i) srv1 s) = Inr (drop_goto t (D_Report i) (given_up srv i c) s)"
proof -
  let ?s = "at_rest srv" and ?c1 = "c\<lparr>cs_valid := False\<rparr>"
  let ?srv1 = "set_session srv i ?c1"
  let ?c2 = "c\<lparr>cs_valid := False, cs_socket := INVALID_SOCKET\<rparr>"
  let ?srv2 = "Close ?srv1 i ?c1"
  let ?srv3 = "set_session ?srv2 i (closed_session c)"
  note less = session_at_Some_less [OF at]
  have call: "life_step os ?s (drop_goto t (D_Exchange i) srv ?s)"
    using life_call [of ?s t i os] at by (simp add: at_rest_def)
  have 1: "drop_next t (drop_goto t (D_Exchange i) srv ?s) = Inr (drop_goto t (D_Close i) ?srv1 ?s)"
    using at v by (simp add: drop_next_def)
  have 2: "drop_next t (drop_goto t (D_Close i) ?srv1 ?s) = Inr (drop_goto t (D_Flag i) ?srv2 ?s)"
    using less by (simp add: drop_next_def)
  have two: "session_at ?srv2 i = Some (if cs_socket c = INVALID_SOCKET then ?c1 else ?c2)"
    using less by (simp add: Close_def)
  have "(if cs_socket c = INVALID_SOCKET then ?c1 else ?c2)\<lparr>cs_sending := False\<rparr> = closed_session c"
    by (cases c) (simp add: closed_session_def)
  then have 3: "drop_next t (drop_goto t (D_Flag i) ?srv2 ?s) = Inr (drop_goto t (D_Push i) ?srv3 ?s)"
    using two by (simp add: drop_next_def)
  let ?pushed = "drop_goto t (D_Push i) ?srv3 ?s"
  have "(life_step os)\<^sup>*\<^sup>* (drop_goto t (D_Flag i) ?srv2 ?s) ?pushed"
    by (rule life_first_drop [OF _ 3]) simp_all
  then have "(life_step os)\<^sup>*\<^sup>* (drop_goto t (D_Close i) ?srv1 ?s) ?pushed"
    by (rule life_first_drop [OF _ 2, rotated]) simp
  then have "(life_step os)\<^sup>*\<^sup>* (drop_goto t (D_Exchange i) srv ?s) ?pushed"
    by (rule life_first_drop [OF _ 1, rotated]) simp
  with call have "life_reachable os srv ?pushed"
    unfolding life_reachable_def by (rule converse_rtranclp_into_rtranclp)
  moreover obtain srv3 where srv3: "srv3 = ?srv3" by blast
  moreover have at3: "session_at srv3 i = Some (closed_session c)"
    using session_at_Some_less [OF two] srv3 by simp
  moreover have "srv_pendingDisconStack srv3 = srv_pendingDisconStack srv"
      "srv3\<lparr>srv_pendingDisconStack := cs_sessionId c # srv_pendingDisconStack srv\<rparr> = given_up srv i c"
    unfolding srv3 by (simp_all add: given_up_def Close_def set_session_syscall)
  ultimately have "life_reachable os srv (drop_goto t (D_Push i) srv3 ?s)"
      "drop_next t (drop_goto t (D_Push i) srv3 s) = Inr (drop_goto t (D_Report i) (given_up srv i c) s)"
    by (simp_all add: drop_next_def)
  with at3 show ?thesis by blast
qed

text \<open>The threads whose next statement works on the stack; two of them at a time are a data race.\<close>

fun drop_on_stack :: "drop_pc \<Rightarrow> bool" where
  "drop_on_stack (D_Push i) = True"
| "drop_on_stack _ = False"

fun accept_on_stack :: "accept_pc \<Rightarrow> bool" where
  "accept_on_stack (A_Release k) = True"
| "accept_on_stack _ = False"

definition stack_race :: "life_state \<Rightarrow> bool" where
  "stack_race s \<longleftrightarrow> (\<exists>t. drop_on_stack (ls_pc s t) \<and>
     (accept_on_stack (ls_accept s) \<or> (\<exists>u. u \<noteq> t \<and> drop_on_stack (ls_pc s u))))"

text \<open>
  \<open>_pendingDisconStack\<close> has no lock: whenever a session is connected, a thread can come to push its
  id while the accept thread tests and pops the stack.
\<close>

theorem pending_stack_race:
  assumes "session_at srv i = Some c" "cs_valid c"
  shows "\<exists>s. life_reachable os srv s \<and> stack_race s"
proof -
  obtain srv1 where r: "life_reachable os srv (drop_goto 0 (D_Push i) srv1 (at_rest srv))"
    using disconnect_prefix [OF assms] by blast
  let ?s = "accept_goto (A_Release 0) srv1 (drop_goto 0 (D_Push i) srv1 (at_rest srv))"
  have "life_step os (drop_goto 0 (D_Push i) srv1 (at_rest srv)) ?s"
    using life_arrive [of "drop_goto 0 (D_Push i) srv1 (at_rest srv)" os 0] by (simp add: at_rest_def)
  with r have "life_reachable os srv ?s" unfolding life_reachable_def by (rule rtranclp.rtrancl_into_rtrancl)
  moreover have "stack_race ?s" by (auto simp: stack_race_def intro!: exI [of _ 0])
  ultimately show ?thesis by blast
qed

text \<open>
  A disconnection reports the next client.  The thread that disconnects a session is
  interrupted between the push of its id and the event; the accept thread releases the slot and gives it to
  the next client; then the event is made with the id that the session has now.  When all threads have returned, the
  new client is connected and announced as gone, and nobody is told that the old one is.
\<close>

theorem disconnection_reports_next_client:
  assumes inv: "server_ok srv" and central: "srv_architectureType srv = Centralized"
    and at: "session_at srv i = Some c" "cs_valid c" "cs_sessionId c \<noteq> 0"
    and full: "srv_availableIndices srv = []" "srv_pendingDisconStack srv = []"
    and small: "unat (srv_sessionIdCounter srv) < 2 ^ 48" and os: "binds_succeed os" "transfers_succeed os"
  shows "\<exists>srv' next. life_reachable os srv (at_rest srv') \<and> session_at srv' i = Some next \<and> cs_valid next \<and>
    cs_sessionId next \<noteq> cs_sessionId c \<and>
    srv_eventQueue srv' = srv_eventQueue srv @ [connected (cs_sessionId next),
      \<lparr>ev_type = DISCONNECTED, ev_sessionId = cs_sessionId next, ev_data = []\<rparr>]"
proof -
  let ?d = "given_up srv i c" and ?id = "cs_sessionId c" and ?k = "11 :: SOCKET"
  let ?rest = "at_rest srv" and ?report = "\<lambda>srv. drop_goto 0 (D_Report i) srv (at_rest srv)"
  have pool: "pool_ok srv" and sok: "srv_ok srv" using inv by (simp_all add: server_ok_def)
  have same: "same_pool (disconnected srv i c) ?d" "srv_ok ?d"
    using srv_ok_disconnected [OF sok srv_ok_at [OF sok at(1)], of i] central
    by (simp_all add: given_up_disconnected same_pool_def)
  have d: "server_ok ?d"
    using pool_ok_same [OF same(1)] pool_ok_disconnected [OF pool at] same(2) by (simp add: server_ok_def)
  have slot: "unat (ExtractIndex ?id) = i" "unat (ExtractUniqueId ?id) < unat (srv_sessionIdCounter srv)"
    using pool_slot [OF pool at(1)] at(3) by (simp_all add: slot_ok_def)
  have frame: "srv_availableIndices ?d = []" "srv_pendingDisconStack ?d = [?id]" "srv_sessionIdCounter ?d = srv_sessionIdCounter srv"
      "srv_architectureType ?d = Centralized" "srv_eventQueue ?d = srv_eventQueue srv"
    using full central by (simp_all add: given_up_def)
  have k: "?k \<noteq> INVALID_SOCKET" by (simp add: INVALID_SOCKET_def)
  obtain t where t: "accept_step os ?d ?k = Inr (syscall (OsRecv ?k (posted_buffers (cs_recvQ t)))
        (admission (offered ?d ?k) ?k (ExtractIndex ?id) t))" (is "_ = Inr ?srv2")
      and at2: "session_at (admission (offered ?d ?k) ?k (ExtractIndex ?id) t) i = Some t"
      and v: "cs_valid t" "ExtractUniqueId (cs_sessionId t) = srv_sessionIdCounter srv"
    using next_session [OF d frame(1,2) _ os k] small slot(1) frame(3) by auto
  have new: "srv_architectureType ?srv2 = Centralized" "session_at ?srv2 i = Some t"
      "srv_eventQueue ?srv2 = srv_eventQueue srv @ [connected (cs_sessionId t)]"
    using at2 frame release_loop_frame [of "srv_pendingDisconStack ?d" ?d] by (simp_all add: connected_def ReleaseSession_def)
  obtain srv1 where pre: "life_reachable os srv (drop_goto 0 (D_Push i) srv1 ?rest)"
      "drop_next 0 (drop_goto 0 (D_Push i) srv1 ?rest) = Inr (drop_goto 0 (D_Report i) ?d ?rest)"
    using disconnect_prefix [OF at(1,2), of os 0 ?rest] by blast
  let ?a = "accept_goto (A_Release ?k) ?d (drop_goto 0 (D_Report i) ?d ?rest)"
  have "life_step os (drop_goto 0 (D_Push i) srv1 ?rest) (drop_goto 0 (D_Report i) ?d ?rest)"
    by (rule life_drop [OF _ pre(2)]) simp
  moreover have "life_step os (drop_goto 0 (D_Report i) ?d ?rest) ?a"
    using life_arrive [of "drop_goto 0 (D_Report i) ?d ?rest" os ?k] by (simp add: at_rest_def)
  moreover have "(life_step os)\<^sup>*\<^sup>* ?a (accept_goto Accepting ?srv2 (drop_goto 0 (D_Report i) ?d ?rest))"
    by (rule life_accepts [OF accept_alone [OF t]])
  moreover
  let ?srv3 = "PushNetworkEvent ?srv2 \<lparr>ev_type = DISCONNECTED, ev_sessionId = cs_sessionId t, ev_data = []\<rparr>"
  have "life_step os (accept_goto Accepting ?srv2 (drop_goto 0 (D_Report i) ?d ?rest)) (at_rest ?srv3)"
    using new by (intro life_drop [of _ 0])
      (simp_all add: drop_next_def drop_goto_def accept_goto_def at_rest_def fun_upd_idem)
  ultimately have "life_reachable os srv (at_rest ?srv3)"
    using pre(1) unfolding life_reachable_def by (meson rtranclp.rtrancl_into_rtrancl rtranclp_trans)
  moreover have "cs_sessionId t \<noteq> ?id" using v(2) slot(2) by auto
  ultimately show ?thesis using new v(1) by (intro exI [of _ ?srv3] exI [of _ t]) simp
qed

text \<open>
  On a concrete server: client 2 is disconnected; whoever reads the events still believes that exactly client
  2 is there.
\<close>

theorem disconnection_reports_next_client_example:
  "\<exists>srv' n. life_reachable happy_os full_server (at_rest srv') \<and> session_at srv' 0 = Some n \<and> cs_valid n \<and>
    cs_sessionId n \<noteq> 2 \<and> replay (srv_eventQueue srv') {2} = {2}"
proof -
  have "srv_architectureType full_server = Centralized" "srv_availableIndices full_server = []"
      "srv_pendingDisconStack full_server = []" "srv_sessionIdCounter full_server = 3" "srv_eventQueue full_server = []"
    by (simp_all add: full_server_def)
  then show ?thesis
    using disconnection_reports_next_client [OF full_server_ok(1) _ full_server_ok(2), of happy_os] happy_os_ok
    by (fastforce simp: connected_def)
qed

end
