(* ===== verification/ServerProperties.thy ===== *)
theory ServerProperties
  imports SessionReuse
begin

text \<open>
  The properties of session ids, packet framing, sending, session management, start and
  shutdown of \<open>CIOCPServer\<close>, with their witnesses.
\<close>

section \<open>Session ids\<close>

text \<open>
  C34: Session ids round-trip.  MakeSessionId packs a 16-bit slot and the low 48 bits of a unique
  number so that both can be read back, also for negative ids, and every 64-bit value is the id
  of its own parts; ids are therefore equal exactly when slot and unique number are.
\<close>

theorem session_id_roundtrip:
  "ExtractIndex (MakeSessionId i u) = i \<and>
   ExtractUniqueId (MakeSessionId i u) = u AND SESSION_UNIQUE_MASK \<and>
   MakeSessionId (ExtractIndex x) (ExtractUniqueId x) = x \<and>
   (x = y \<longleftrightarrow> ExtractIndex x = ExtractIndex y \<and> ExtractUniqueId x = ExtractUniqueId y)"
  using ExtractIndex_Make ExtractUniqueId_Make Make_Extract session_id_eq_iff by blast

section \<open>Packet framing\<close>

text \<open>
  C4: The worker thread never faults.  For every result of every operating system call, every
  well-formed server and every completion of a used session, one turn of WorkerThread
  returns: packet extraction ends, every copy stays in bounds, no mutex deadlocks; and the
  session queues and the session pool stay well-formed.
\<close>

theorem worker_step_safe:
  assumes "server_ok srv" "completion_ok srv c"
  shows "\<exists>srv'. worker_step os srv c = Inr srv' \<and> server_ok srv' \<and>
    (cp_key c = None \<longrightarrow> srv' = srv)"
proof -
  obtain srv' where w: "worker_step os srv c = Inr srv'" "srv_ok srv'"
      "case cp_key c of None \<Rightarrow> srv' = srv | Some i \<Rightarrow> pool_effect i srv srv'"
    using pool.worker_step_runs [OF _ assms(2), of os] assms(1) unfolding server_ok_def by blast
  show ?thesis
  proof (cases "cp_key c")
    case None
    then show ?thesis using w assms by simp
  next
    case (Some i)
    then have "cs_sessionId s \<noteq> 0" if "session_at srv i = Some s" for s
      using that assms(2) by (simp add: completion_ok_def)
    then show ?thesis using w Some step_effect_ok [OF assms(1) w(2), of i] by simp
  qed
qed

theorem worker_step_safe_witness:
  "\<exists>srv'. worker_step happy_os (demo_server EchoTest)
     \<lparr>cp_result = True, cp_bytes = 70000, cp_key = Some 0, cp_overlapped = Some (RecvOv 0)\<rparr> = Inr srv' \<and> server_ok srv'"
proof -
  have "completion_ok (demo_server EchoTest)
      \<lparr>cp_result = True, cp_bytes = 70000, cp_key = Some 0, cp_overlapped = Some (RecvOv 0)\<rparr>"
    by (simp add: completion_ok_def)
  from worker_step_safe [OF demo_server_ok(1) this, of happy_os] show ?thesis by auto
qed

text \<open>
  C9: Reception in the Centralized mode.  When bytes arrive for a connected session, the
  queued rest and the new bytes are cut at the 16-bit little-endian size fields; each complete
  packet becomes one RECEIVED event with this session's id, in order, and the incomplete tail
  stays queued.  A size below the header size disconnects the session and reports it after
  the packets before it.  The branch that disconnects on a full receive buffer is not taken.
\<close>

theorem reception_centralized:
  assumes "srv_ok srv" "srv_running srv" "srv_architectureType srv = Centralized"
    and "session_at srv i = Some s" "cs_valid s"
    and "xs \<noteq> []" "length xs \<le> room (cs_recvQ s)" "transfers_succeed os"
    and "split_packets False (contents (cs_recvQ s) @ xs) = (packets, rest, bad)"
  shows "\<exists>srv' s'. arrive os srv i xs = Inr srv' \<and> session_at srv' i = Some s' \<and>
    cs_sessionId s' = cs_sessionId s \<and> contents (cs_recvQ s') = rest \<and> cs_valid s' = (\<not> bad) \<and>
    srv_eventQueue srv' = srv_eventQueue srv @ map (received (cs_sessionId s)) packets @
      (if bad then [gone (cs_sessionId s)] else [])"
  using arrive_parsed_central [OF assms(1-8)] assms(9) by (auto simp: parsed_central_def)

theorem reception_centralized_witness:
  "\<exists>srv' s'. arrive happy_os (demo_server Centralized) 0 [3, 0, 77, 2, 0, 1, 0, 9] = Inr srv' \<and>
    session_at srv' 0 = Some s' \<and> \<not> cs_valid s' \<and>
    srv_eventQueue srv' = [received 2 [3, 0, 77], received 2 [2, 0], gone 2]"
proof -
  have "split_packets False [3, 0, 77, 2, 0, 1, 0, 9] = ([[3, 0, 77], [2, 0]], [1, 0, 9], True)"
    by (simp add: split_packets.simps packet_size_def join16_def)
  then show ?thesis
    using reception_centralized [OF demo_server_ok(2) _ _ _ _ _ _ happy_os_ok(2),
        of Centralized 0 "demo_session 9 2" "[3, 0, 77, 2, 0, 1, 0, 9]" "[[3, 0, 77], [2, 0]]" "[1, 0, 9]" True]
    by auto
qed

text \<open>
  C10: Framing does not depend on how the stream is cut.  However a byte stream is split into
  receptions that fit, the events and the bytes left over are those of the whole stream.
\<close>

theorem reception_chunking:
  assumes "srv_ok srv" "srv_running srv" "srv_architectureType srv = Centralized"
    and "session_at srv i = Some s" "cs_valid s" "contents (cs_recvQ s) = []" "transfers_succeed os"
    and "chunks_fit [] chunks" "split_packets False (concat chunks) = (packets, rest, False)"
  shows "\<exists>srv' s'. arrive_all os srv i chunks = Inr srv' \<and> session_at srv' i = Some s' \<and> cs_valid s' \<and>
    srv_eventQueue srv' = srv_eventQueue srv @ map (received (cs_sessionId s)) packets \<and>
    contents (cs_recvQ s') = rest"
  using arrive_all_parsed [OF assms(1-5,7), of chunks packets rest] assms(6,8,9) by (simp add: split_short)

theorem reception_chunking_witness:
  "\<exists>srv' s'. arrive_all happy_os (demo_server Centralized) 0 [[3], [0, 77, 4], [0]] = Inr srv' \<and>
    session_at srv' 0 = Some s' \<and> srv_eventQueue srv' = [received 2 [3, 0, 77]] \<and> contents (cs_recvQ s') = [4, 0]"
proof -
  have "split_packets False [3, 0, 77, 4, 0] = ([[3, 0, 77]], [4, 0], False)" "split_packets False [3] = ([], [3], False)"
    "split_packets False [3, 0, 77, 4] = ([[3, 0, 77]], [4], False)" "split_packets False [4, 0] = ([], [4, 0], False)"
    by (simp_all add: split_packets.simps packet_size_def join16_def)
  then show ?thesis
    using reception_chunking [OF demo_server_ok(2) _ _ _ _ _ happy_os_ok(2),
        of Centralized 0 "demo_session 9 2" "[[3], [0, 77, 4], [0]]" "[[3, 0, 77]]" "[4, 0]"]
    by (auto simp del: arrive_all.simps)
qed

text \<open>
  C24: The echo server echoes.  In the EchoTest mode the arriving packets, headers included,
  are appended to the session's send queue unchanged and in order when they fit there, and
  the incomplete tail stays in the receive queue.
\<close>

theorem reception_echo:
  assumes "srv_ok srv" "srv_running srv" "srv_architectureType srv = EchoTest"
    and "session_at srv i = Some s" "cs_valid s" "i = unat (ExtractIndex (cs_sessionId s))"
    and "xs \<noteq> []" "length xs \<le> room (cs_recvQ s)" "transfers_succeed os"
    and "split_packets True (contents (cs_recvQ s) @ xs) = (packets, rest, bad)"
    and "length (concat packets) \<le> room (cs_sendQ s)"
  shows "\<exists>srv' s'. arrive os srv i xs = Inr srv' \<and> session_at srv' i = Some s' \<and> cs_valid s' = (\<not> bad) \<and>
    contents (cs_recvQ s') = rest \<and> contents (cs_sendQ s') = contents (cs_sendQ s) @ concat packets"
  using arrive_parsed_echo [OF assms(1-9)] assms(10,11) by (auto simp: parsed_echo_def)

theorem reception_echo_witness:
  "\<exists>srv' s'. arrive happy_os (demo_server EchoTest) 0 [1, 0, 77, 0, 0, 5] = Inr srv' \<and>
    session_at srv' 0 = Some s' \<and> contents (cs_sendQ s') = [1, 0, 77, 0, 0] \<and> contents (cs_recvQ s') = [5]"
proof -
  have "split_packets True [1, 0, 77, 0, 0, 5] = ([[1, 0, 77], [0, 0]], [5], False)"
    by (simp add: split_packets.simps packet_size_def join16_def sizeof_MsgHeader_def)
  then show ?thesis
    using reception_echo [OF demo_server_ok(2) _ _ _ _ _ _ _ happy_os_ok(2),
        of EchoTest 0 "demo_session 9 2" "[1, 0, 77, 0, 0, 5]" "[[1, 0, 77], [0, 0]]" "[5]" False]
    by auto
qed

section \<open>Sending\<close>

text \<open>
  C17: RequestSendMsg queues and starts.  For a connected session with room for the message the
  bytes are appended to the send queue; if a send is outstanding nothing else happens,
  otherwise one WSASend of the whole queue is issued and the session is marked as sending, or
  disconnected when the call fails.  A message that does not fit disconnects the session without
  queuing any of it.  For an unknown id nothing happens.
\<close>

theorem RequestSendMsg_functional:
  assumes "srv_ok srv" "FindSession srv sid = Some i" "session_at srv i = Some s" "cs_valid s"
    and "data \<noteq> []" "length data \<le> 65535"
  defines "call \<equiv> OsSend (cs_socket s) (contents (cs_sendQ s) @ data)"
  shows "(\<exists>srv'. RequestSendMsg os srv sid data (of_nat (length data)) = Inr srv' \<and>
      (if room (cs_sendQ s) < length data then srv' = disconnected srv i s
       else \<exists>s'. session_at srv' i = Some s' \<and> contents (cs_sendQ s') = contents (cs_sendQ s) @ data \<and>
         (if cs_sending s then cs_valid s' \<and> cs_sending s' \<and> srv_log srv' = srv_log srv
          else if os (call # srv_log srv) = 0
          then cs_valid s' \<and> cs_sending s' \<and> srv_log srv' = call # srv_log srv
          else \<not> cs_valid s' \<and> \<not> cs_sending s' \<and> cs_socket s' = INVALID_SOCKET))) \<and>
    (FindSession srv x = None \<longrightarrow> RequestSendMsg os srv x d l = Inr srv)"
proof -
  have ok: "session_ok s" using assms(1,3) by (rule srv_ok_at)
  have n: "unat (scast (of_nat (length data) :: int32_t) :: size_t) = length data"
    using assms(6) by (rule scast_of_nat_32)
  then have nz: "(scast (of_nat (length data) :: int32_t) :: size_t) \<noteq> 0" using assms(5) by auto
  let ?t = "s\<lparr>cs_sendQ := write_bytes (cs_sendQ s) data\<rparr>"
  let ?srv = "set_session srv i ?t"
  have eq: "RequestSendMsg os srv sid data (of_nat (length data)) =
      (if length data \<le> room (cs_sendQ s) then PostSend os ?srv i else Inr (disconnected srv i s))"
    using RequestSendMsg_eq [OF assms(2,3) ok assms(4), of "of_nat (length data)" data os] n nz by simp
  have i: "i < length (srv_sessions srv)" using assms(3) by (rule session_at_Some_less)
  have "\<exists>srv'. PostSend os ?srv i = Inr srv' \<and> (\<exists>s'. session_at srv' i = Some s' \<and>
      contents (cs_sendQ s') = contents (cs_sendQ s) @ data \<and>
      (if cs_sending s then cs_valid s' \<and> cs_sending s' \<and> srv_log srv' = srv_log srv
       else if os (call # srv_log srv) = 0 then cs_valid s' \<and> cs_sending s' \<and> srv_log srv' = call # srv_log srv
       else \<not> cs_valid s' \<and> \<not> cs_sending s' \<and> cs_socket s' = INVALID_SOCKET))"
    if fits: "length data \<le> room (cs_sendQ s)"
  proof -
    have w: "rb_ok (write_bytes (cs_sendQ s) data)"
        "contents (write_bytes (cs_sendQ s) data) = contents (cs_sendQ s) @ data"
      using write_bytes_ok [OF session_rings(1) [OF ok] fits] by simp_all
    then have t: "session_ok ?t" using ok by (simp add: session_ok_def)
    have at: "session_at ?srv i = Some ?t" using i by simp
    show ?thesis
      using PostSend_eq [OF at t, of os] w(2) assms(4,5) i
      by (cases "cs_sending s"; cases "os (call # srv_log srv) = 0")
        (simp_all add: posted_send_def Let_def os_result_def call_def Disconnect_valid closed_session_def)
  qed
  then show ?thesis
    using eq by (cases "length data \<le> room (cs_sendQ s)") (auto simp: not_less RequestSendMsg_def)
qed

theorem RequestSendMsg_functional_witness:
  "\<exists>srv' s'. RequestSendMsg happy_os (demo_server Centralized) 2 [4, 0, 1, 2] 4 = Inr srv' \<and>
    session_at srv' 0 = Some s' \<and> cs_sending s' \<and> srv_log srv' = [OsSend 9 [4, 0, 1, 2]]"
  using RequestSendMsg_functional [OF demo_server_ok(2) demo_find, of Centralized "demo_session 9 2" "[4, 0, 1, 2]" happy_os 0 "[]" 0]
  by (auto simp: happy_os_def)

text \<open>
  C18: A send completion continues the stream.  ProcessSend removes the transferred bytes from
  the front of the queue and, when bytes are left, issues one WSASend of exactly those, keeping
  the session marked as sending; with nothing left it clears the mark without a call.  A
  completion of more bytes than are queued disconnects the session.
\<close>

theorem ProcessSend_functional:
  assumes "srv_ok srv" "session_at srv i = Some s" "cs_valid s" "cs_sending s" "bytes \<noteq> 0"
  defines "left \<equiv> drop (unat bytes) (contents (cs_sendQ s))"
  shows "\<exists>srv'. ProcessSend os srv i bytes = Inr srv' \<and>
    (if length (contents (cs_sendQ s)) < unat bytes then srv' = disconnected srv i s
     else \<exists>s'. session_at srv' i = Some s' \<and> contents (cs_sendQ s') = left \<and>
       (if left = [] then cs_valid s' \<and> \<not> cs_sending s' \<and> srv_log srv' = srv_log srv
        else if os (OsSend (cs_socket s) left # srv_log srv) = 0
        then cs_valid s' \<and> cs_sending s' \<and> srv_log srv' = OsSend (cs_socket s) left # srv_log srv
        else \<not> cs_valid s' \<and> \<not> cs_sending s'))"
proof (cases "length (contents (cs_sendQ s)) < unat bytes")
  case True
  then show ?thesis using ProcessSend_eq [OF assms(2) srv_ok_at [OF assms(1,2)], of os bytes] assms(3) by simp
next
  case False
  have ok: "session_ok s" using assms(1,2) by (rule srv_ok_at)
  have d: "contents (drop_bytes (cs_sendQ s) (unat bytes)) = left"
    using drop_bytes_ok(2) [OF session_rings(1) [OF ok], of "unat bytes"] False by (simp add: left_def)
  have i: "i < length (srv_sessions srv)" using assms(2) by (rule session_at_Some_less)
  show ?thesis
    using ProcessSend_eq [OF assms(2) ok, of os bytes] False assms(3,4,5) d i
    by (cases "left = []"; cases "os (OsSend (cs_socket s) left # srv_log srv) = 0")
      (simp_all add: Let_def posted_send_def os_result_def Disconnect_valid closed_session_def)
qed

theorem ProcessSend_functional_witness:
  "\<exists>srv' srv1. RequestSendMsg happy_os (demo_server Centralized) 2 [4, 0, 1, 2] 4 = Inr srv1 \<and>
    ProcessSend happy_os srv1 0 3 = Inr srv' \<and> srv_log srv' = [OsSend 9 [2], OsSend 9 [4, 0, 1, 2]]"
proof -
  let ?d = "[4, 0, 1, 2] :: byte list" and ?srv = "demo_server Centralized"
  have w: "contents (write_bytes (cs_sendQ (demo_session 9 2)) ?d) = ?d"
      "rb_ok (write_bytes (cs_sendQ (demo_session 9 2)) ?d)"
    using write_bytes_ok [of "cs_sendQ (demo_session 9 2)" ?d] session_rings(1) [of "demo_session 9 2"] by simp_all
  let ?t = "(demo_session 9 2)\<lparr>cs_sendQ := write_bytes (cs_sendQ (demo_session 9 2)) ?d\<rparr>"
  have t: "session_ok ?t" using w by (simp add: session_ok_def demo_session_def demo_ring)
  let ?srv1 = "syscall (OsSend 9 ?d) (set_session ?srv 0 (?t\<lparr>cs_sending := True\<rparr>))"
  have "RequestSendMsg happy_os ?srv 2 ?d 4 = PostSend happy_os (set_session ?srv 0 ?t) 0"
    using RequestSendMsg_eq [of ?srv 2 0 "demo_session 9 2" 4 ?d happy_os] by simp
  also have "\<dots> = Inr ?srv1"
    using PostSend_eq [of "set_session ?srv 0 ?t" 0 ?t happy_os] t w
    by (simp add: posted_send_def os_result_def happy_os_def Let_def)
  finally have 1: "RequestSendMsg happy_os ?srv 2 ?d 4 = Inr ?srv1" .
  have "srv_ok ?srv1" using demo_server_ok(2) t by auto
  then show ?thesis
    using 1 w ProcessSend_functional [of ?srv1 0 "?t\<lparr>cs_sending := True\<rparr>" 3 happy_os] by (auto simp: happy_os_def)
qed

text \<open>
  A session is disconnected at most once.  The first disconnection of a connected session
  closes its socket exactly once, marks it invalid, puts its id on the release stack and, in
  the Centralized mode, reports it; a second one returns false and changes nothing.
\<close>

theorem disconnect_once:
  assumes "FindSession srv sid = Some i" "session_at srv i = Some s" "cs_valid s" "cs_socket s \<noteq> INVALID_SOCKET"
  shows "\<exists>srv' s'. RequestDisconnectSession srv sid = (True, srv') \<and> session_at srv' i = Some s' \<and> \<not> cs_valid s' \<and>
    cs_socket s' = INVALID_SOCKET \<and> srv_log srv' = OsCloseSocket (cs_socket s) # srv_log srv \<and>
    srv_pendingDisconStack srv' = cs_sessionId s # srv_pendingDisconStack srv \<and>
    srv_eventQueue srv' = srv_eventQueue srv @
      (if srv_architectureType srv = Centralized then [gone (cs_sessionId s)] else []) \<and>
    RequestDisconnectSession srv' sid = (False, srv')"
proof -
  let ?d = "disconnected srv i s"
  have i: "i < length (srv_sessions srv)" using assms(2) by (rule session_at_Some_less)
  have find: "FindSession ?d sid = Some i" using assms(1,2) i by (auto simp: FindSession_Some)
  have "DisconnectSessionInternal ?d i = (False, ?d)" using i by (intro Disconnect_invalid) auto
  moreover have "srv_log ?d = OsCloseSocket (cs_socket s) # srv_log srv"
    using assms(4) by (simp add: disconnected_def Let_def)
  ultimately show ?thesis
    using assms find i by (intro exI [of _ ?d] exI [of _ "closed_session s"])
      (simp add: RequestDisconnectSession_def Disconnect_valid gone_def)
qed

theorem disconnect_once_witness:
  "\<exists>srv' s'. RequestDisconnectSession (demo_server Centralized) 2 = (True, srv') \<and> session_at srv' 0 = Some s' \<and>
    srv_log srv' = [OsCloseSocket 9] \<and> srv_eventQueue srv' = [gone 2] \<and> RequestDisconnectSession srv' 2 = (False, srv')"
  using disconnect_once [OF demo_find, of Centralized "demo_session 9 2"] by (auto simp: INVALID_SOCKET_def)

section \<open>The session pool\<close>

text \<open>
  C7: The session pool invariant.  The completion port accepts every socket and the queues are allocated;
  without the first it fails (C39).  Whatever sequence of accepts, completions, sends,
  disconnections and event reads, each taken as a whole, follows a successful Start, with ids whose unique
  part is not 0, message lengths within the buffer or beyond what a queue holds, and fewer than 2 to the
  48 clients: every slot of the table is exactly
  one of free, waiting for release or in use, no free or waiting slot occurs twice, a used
  slot's session is valid exactly while it is in use, its id names the slot and an issued
  counter value, and all queues stay well-formed.
\<close>

theorem session_pool_invariant:
  assumes "reachable alloc os maxClients type srv" "allocates alloc" "binds_succeed os"
  shows "srv_ok srv \<and>
    distinct (srv_availableIndices srv @ map ExtractIndex (srv_pendingDisconStack srv)) \<and>
    (\<forall>i s. session_at srv i = Some s \<longrightarrow>
       (if cs_sessionId s = 0 then of_nat i \<in> set (srv_availableIndices srv)
        else unat (ExtractIndex (cs_sessionId s)) = i \<and>
          0 < unat (ExtractUniqueId (cs_sessionId s)) \<and>
          unat (ExtractUniqueId (cs_sessionId s)) < unat (srv_sessionIdCounter srv) \<and>
          (cs_valid s \<longleftrightarrow> of_nat i \<notin> set (srv_availableIndices srv) \<and>
             of_nat i \<notin> ExtractIndex ` set (srv_pendingDisconStack srv))))"
proof (intro conjI allI impI)
  have ok: "srv_ok srv" "pool_ok srv" using reachable_ok [OF assms] by (simp_all add: server_ok_def)
  show "srv_ok srv" by (rule ok)
  show "distinct (srv_availableIndices srv @ map ExtractIndex (srv_pendingDisconStack srv))"
    using ok(2) unfolding pool_ok_def by blast
  fix i s assume "session_at srv i = Some s"
  from pool_slot [OF ok(2) this] show "if cs_sessionId s = 0 then of_nat i \<in> set (srv_availableIndices srv)
      else unat (ExtractIndex (cs_sessionId s)) = i \<and>
        0 < unat (ExtractUniqueId (cs_sessionId s)) \<and>
        unat (ExtractUniqueId (cs_sessionId s)) < unat (srv_sessionIdCounter srv) \<and>
        (cs_valid s \<longleftrightarrow> of_nat i \<notin> set (srv_availableIndices srv) \<and>
           of_nat i \<notin> ExtractIndex ` set (srv_pendingDisconStack srv))"
    by (simp only: slot_ok_def)
qed

theorem session_pool_invariant_witness:
  "\<exists>srv. reachable zero_alloc happy_os 2 Centralized srv \<and>
    distinct (srv_availableIndices srv @ map ExtractIndex (srv_pendingDisconStack srv))"
proof -
  obtain srv where r: "reachable zero_alloc happy_os 2 Centralized srv" using happy_start by blast
  show ?thesis using session_pool_invariant [OF r zero_allocates happy_os_ok(1)] r by blast
qed

text \<open>
  C25: Lookup is exact.  On a reachable server, with a completion port that accepts every socket, FindSession of an id with a unique part returns
  slot i exactly when the session in slot i carries this very id.
\<close>

theorem FindSession_exact:
  assumes "reachable alloc os maxClients type srv" "allocates alloc" "binds_succeed os" "ExtractUniqueId sid \<noteq> 0"
  shows "FindSession srv sid = Some i \<longleftrightarrow> (\<exists>s. session_at srv i = Some s \<and> cs_sessionId s = sid)"
proof
  have ok: "pool_ok srv" using reachable_ok [OF assms(1-3)] by (simp add: server_ok_def)
  show "\<exists>s. session_at srv i = Some s \<and> cs_sessionId s = sid" if "FindSession srv sid = Some i"
    using that find_used [OF ok that assms(4)] by (auto simp: FindSession_Some)
  show "FindSession srv sid = Some i" if "\<exists>s. session_at srv i = Some s \<and> cs_sessionId s = sid"
    using that pool_slot [OF ok] unique_zero [OF assms(4)] by (auto simp: FindSession_Some slot_ok_def)
qed

theorem FindSession_exact_witness:
  "\<exists>srv. reachable zero_alloc happy_os 2 Centralized srv \<and>
    (FindSession srv 2 = Some 0 \<longleftrightarrow> (\<exists>s. session_at srv 0 = Some s \<and> cs_sessionId s = 2))"
proof -
  obtain srv where r: "reachable zero_alloc happy_os 2 Centralized srv" using happy_start by blast
  have "ExtractUniqueId 2 \<noteq> 0" by simp
  from FindSession_exact [OF r zero_allocates happy_os_ok(1) this] r show ?thesis by blast
qed

text \<open>
  C16: Ids are never reused.  As long as the completion port accepts every socket, once an issued id is
  no longer found, no sequence of steps of the server makes it found again, also when its slot is given to other clients, until the
  counter has used up its 48 bits.
\<close>

theorem retired_ids_stay_unknown:
  assumes "server_ok srv" "binds_succeed os" "(server_step os)\<^sup>*\<^sup>* srv srv'"
    and "unat (ExtractUniqueId sid) < unat (srv_sessionIdCounter srv)" "FindSession srv sid = None"
  shows "FindSession srv' sid = None"
  using retired_steps [OF assms(3,1,2,4,5)] by simp

theorem retired_ids_stay_unknown_witness:
  "\<exists>srv'. accept_step happy_os (demo_server Centralized) 11 = Inr srv' \<and> FindSession srv' 1 = None"
proof -
  let ?srv = "demo_server Centralized"
  obtain srv' where acc: "accept_step happy_os ?srv 11 = Inr srv'"
    using accept_step_ok [OF demo_server_ok(1) _ happy_os_ok(1), of Centralized 11] by auto
  then have "server_step happy_os ?srv srv'" by (rule step_accept) simp
  then have "(server_step happy_os)\<^sup>*\<^sup>* ?srv srv'" by blast
  moreover have "FindSession ?srv 1 = None" by (simp add: FindSession_def demo_server_def)
  ultimately show ?thesis
    using retired_ids_stay_unknown [OF demo_server_ok(1) happy_os_ok(1), of Centralized srv' 1] acc by simp
qed

text \<open>
  C23: Accepting a connection, when binding and first receive succeed.  With the released slots behind the free ones, the accept
  thread takes the first slot, initialises its session with the socket, empty queues and a new
  id from the counter, announces it in the Centralized mode and posts the first receive; with
  no slot left it only closes the socket.
\<close>

theorem accept_functional:
  assumes "server_ok srv" "unat (srv_sessionIdCounter srv) < 2 ^ 48" "binds_succeed os" "transfers_succeed os"
    and "k \<noteq> INVALID_SOCKET"
  shows "\<exists>srv'. accept_step os srv k = Inr srv' \<and> srv_pendingDisconStack srv' = [] \<and>
    (case srv_availableIndices srv @ map ExtractIndex (srv_pendingDisconStack srv) of
       [] \<Rightarrow> srv' = syscall (OsCloseSocket k) (syscall (OsSetLinger k) (ReleaseSession srv))
     | index # rest \<Rightarrow> \<exists>s. session_at srv' (unat index) = Some s \<and> cs_valid s \<and> cs_socket s = k \<and>
         cs_sessionId s = MakeSessionId index (srv_sessionIdCounter srv) \<and>
         contents (cs_recvQ s) = [] \<and> contents (cs_sendQ s) = [] \<and>
         srv_availableIndices srv' = rest \<and> srv_sessionIdCounter srv' = srv_sessionIdCounter srv + 1 \<and>
         hd (srv_log srv') = OsRecv k (posted_buffers (cs_recvQ s)) \<and>
         srv_eventQueue srv' = srv_eventQueue (ReleaseSession srv) @
           (if srv_architectureType (ReleaseSession srv) = Centralized
            then [\<lparr>ev_type = CONNECTED, ev_sessionId = cs_sessionId s, ev_data = []\<rparr>] else []))"
proof -
  let ?r = "ReleaseSession srv"
  have r: "srv_pendingDisconStack ?r = []" "srv_sessionIdCounter ?r = srv_sessionIdCounter srv"
      "srv_availableIndices ?r = srv_availableIndices srv @ map ExtractIndex (srv_pendingDisconStack srv)"
    using assms(1) ReleaseSession_pool [of srv] by (simp_all add: server_ok_def)
  show ?thesis
  proof (cases rule: accept_step_cases [OF assms(1-3), of k, case_names none admit])
    case none
    then show ?thesis using assms(5) r by (auto simp: offered_def)
  next
    case (admit index rest s)
    let ?a = "admission (offered srv k) k index s"
    have at: "session_at ?a (unat index) = Some s" using admit(3) by (simp add: session_at_admission)
    have "accept_step os srv k = Inr (syscall (OsRecv k (posted_buffers (cs_recvQ s))) ?a)"
      using accept_first_receive [OF admit(4-6,10,3) assms(4)] admit(12) by simp
    moreover have "srv_availableIndices srv @ map ExtractIndex (srv_pendingDisconStack srv) = index # rest"
      using admit(2) r(3) by simp
    ultimately show ?thesis using at admit(2,5-7,10,11) r(1,2) by simp
  qed
qed

theorem accept_functional_witness:
  "\<exists>srv' s. accept_step happy_os (demo_server Centralized) 11 = Inr srv' \<and> session_at srv' 1 = Some s \<and>
    cs_sessionId s = MakeSessionId 1 3 \<and> srv_availableIndices srv' = [] \<and>
    srv_eventQueue srv' = [\<lparr>ev_type = CONNECTED, ev_sessionId = MakeSessionId 1 3, ev_data = []\<rparr>]"
  using accept_functional [OF demo_server_ok(1) _ happy_os_ok, of Centralized 11]
  by (auto simp: INVALID_SOCKET_def ReleaseSession_def)

section \<open>Start and shutdown\<close>

text \<open>
  C30: Start.  For up to 65535 clients the call returns; the table then holds one fresh
  session per client and the free queue the slots 0, 1, ... in order.  The result is true,
  and the server running, exactly when all five network calls succeed; after a failure exactly
  what was opened before is closed again, in the order the log shows.
\<close>

theorem Start_functional:
  assumes "0 \<le> sint maxClients" "sint maxClients \<le> 65535" "allocates alloc"
  shows "\<exists>s0 srv. Start alloc os (CIOCPServer_new maxClients type) = Inr (fst (start_outcome os), srv) \<and>
    session_ok s0 \<and> cs_sessionId s0 = 0 \<and> srv_sessions srv = replicate (nat (sint maxClients)) (Some s0) \<and>
    srv_availableIndices srv = map of_nat [0..<nat (sint maxClients)] \<and>
    srv_log srv = snd (start_outcome os) \<and> srv_running srv = fst (start_outcome os)"
proof -
  obtain s0 where s0: "CSession_new alloc = Inr s0" "session_ok s0" "cs_sessionId s0 = 0"
    using assms(3) CSession_new_ok [of alloc] by (auto simp: allocates_def split: option.splits)
  moreover have "sint maxClients = int (nat (sint maxClients))" "nat (sint maxClients) \<le> 65535"
    using assms by simp_all
  ultimately show ?thesis using Start_new [of maxClients "nat (sint maxClients)" alloc s0 os type] by blast
qed

theorem Start_functional_witness:
  "\<exists>srv. Start zero_alloc happy_os (CIOCPServer_new 3 EchoTest) = Inr (True, srv) \<and>
    srv_availableIndices srv = [0, 1, 2] \<and>
    srv_log srv = [OsStartThreads, OsListen 5, OsBindPort 5, OsWSASocket, OsCreateIOCP, OsWSAStartup]"
proof -
  have "[0..<3] = [0, 1, 2]" by (simp add: upt_rec)
  then show ?thesis
    using Start_functional [OF _ _ zero_allocates, of 3 happy_os EchoTest]
    by (auto simp: start_outcome_def happy_os_def Let_def INVALID_SOCKET_def)
qed

text \<open>
  C31: Start never returns for more than 65535 clients.  The loop counter is a uint16_t that
  wraps before it reaches the bound, so both loops run for ever, whatever the number of turns.
\<close>

theorem Start_never_returns:
  assumes "65535 < sint maxClients"
  shows "session_loop fuel alloc maxClients i sessions = Inl OutOfFuel \<and>
    index_loop fuel maxClients i available = Inl OutOfFuel \<and>
    Start alloc os (CIOCPServer_new maxClients type) = Inl OutOfFuel"
  using loops_diverge [OF assms] Start_diverges [OF assms] by simp

theorem Start_never_returns_witness:
  "Start zero_alloc happy_os (CIOCPServer_new 65536 EchoTest) = Inl OutOfFuel"
  using Start_never_returns [of 65536 0 zero_alloc 0 "[]" "[]" happy_os EchoTest] by simp

text \<open>
  C32: Shutdown.  Disconnect of a running server stops it, closes the socket of every session
  that has one exactly once, then the listen socket, wakes and joins the threads and closes
  the port, in this order; every such session becomes invalid but keeps the number of its closed
  socket; all slots are free again and a second call does nothing.  The destructor, which follows in any
  case, therefore closes every one of these sockets a second time.
\<close>

theorem Disconnect_functional:
  assumes "srv_running srv" "0 \<le> sint (srv_maxClients srv)" "sint (srv_maxClients srv) \<le> 65535"
  shows "\<exists>srv'. Disconnect srv = Inr srv' \<and> \<not> srv_running srv' \<and>
    srv_log srv' = shutdown_calls srv @ rev (map OsCloseSocket (open_sockets (srv_sessions srv))) @ srv_log srv \<and>
    srv_availableIndices srv' = map of_nat [0..<nat (sint (srv_maxClients srv))] \<and>
    (\<forall>i s. session_at srv i = Some s \<longrightarrow> (\<exists>s'. session_at srv' i = Some s' \<and>
       cs_socket s' = cs_socket s \<and> (cs_socket s \<noteq> INVALID_SOCKET \<longrightarrow> \<not> cs_valid s'))) \<and>
    Disconnect srv' = Inr srv' \<and>
    CIOCPServer_destroy srv' running =
      Inr (False, rev (map OsCloseSocket (open_sockets (srv_sessions srv))) @ srv_log srv')"
proof -
  let ?f = "\<lambda>s. if cs_socket s \<noteq> INVALID_SOCKET then s\<lparr>cs_valid := False\<rparr> else s"
  obtain srv' where d: "Disconnect srv = Inr srv'"
      "srv_sessions srv' = map (map_option ?f) (srv_sessions srv)" "\<not> srv_running srv'"
      "srv_log srv' = shutdown_calls srv @ rev (map OsCloseSocket (open_sockets (srv_sessions srv))) @ srv_log srv"
      "srv_availableIndices srv' = map of_nat [0..<nat (sint (srv_maxClients srv))]"
    using Disconnect_eq [OF assms(1), of "nat (sint (srv_maxClients srv))"] assms by auto
  have "session_at srv' i = map_option ?f (session_at srv i)" for i
    using d(2) by (simp add: session_at_def)
  moreover have again: "Disconnect srv' = Inr srv'" using d(3) by (simp add: Disconnect_def)
  moreover have "CIOCPServer_destroy srv' running =
      Inr (False, rev (map OsCloseSocket (open_sockets (srv_sessions srv))) @ srv_log srv')"
    using again d(2) by (simp add: CIOCPServer_destroy_def destroy_sessions_eq open_sockets_kept SignalProcessShutdown_def)
  ultimately show ?thesis using d by auto
qed

theorem Disconnect_functional_witness:
  "\<exists>srv'. Disconnect (demo_server EchoTest) = Inr srv' \<and> srv_log srv' =
    [OsWSACleanup, OsCloseIOCP, OsWakeAndJoinThreads, OsCloseSocket 5, OsCloseSocket 9] \<and>
    CIOCPServer_destroy srv' True = Inr (False, OsCloseSocket 9 # srv_log srv')"
  using Disconnect_functional [of "demo_server EchoTest" True]
  by (auto simp: demo_server_def shutdown_calls_def open_sockets_def INVALID_SOCKET_def)

section \<open>Two defects\<close>

text \<open>
  C38: The id 0 is not reserved.  Right after Start, disconnecting the id 0, which no client
  ever had, succeeds: it finds the unused session of slot 0, and the next release puts slot 0
  a second time into the free queue, so that two clients are later given the same session.
\<close>

theorem zero_id_duplicates_slot:
  assumes "Start alloc os (CIOCPServer_new maxClients type) = Inr (True, srv)" "allocates alloc" "0 < sint maxClients"
  shows "\<exists>srv1. RequestDisconnectSession srv 0 = (True, srv1) \<and> 0 \<in> set (srv_availableIndices srv) \<and>
    srv_availableIndices (ReleaseSession srv1) = srv_availableIndices srv @ [0]"
proof -
  note b = Start_bounds [OF assms(1)]
  obtain s0 where s0: "CSession_new alloc = Inr s0" "cs_valid s0" "cs_sessionId s0 = 0" "cs_socket s0 = INVALID_SOCKET"
    using assms(2) CSession_new_ok [of alloc] by (auto simp: allocates_def split: option.splits)
  define n where "n = nat (sint maxClients)"
  have n: "sint maxClients = int n" "n \<le> 65535" "0 < n" using b assms(3) by (simp_all add: n_def)
  have srv: "srv_sessions srv = replicate n (Some s0)" "srv_availableIndices srv = map of_nat [0..<n]"
      "srv_pendingDisconStack srv = []"
    using Start_new [OF n(1,2) s0(1), of os type] assms(1) by auto
  then have at: "session_at srv 0 = Some s0" using n by (simp add: session_at_def)
  let ?d = "disconnected srv 0 s0" and ?p = "disconnected srv 0 s0\<lparr>srv_pendingDisconStack := []\<rparr>"
  have z: "ExtractIndex 0 = 0" "ExtractUniqueId 0 = 0" by (simp_all add: ExtractIndex_def ExtractUniqueId_def)
  have find: "FindSession srv 0 = Some 0" "FindSession ?p 0 = Some 0"
    using at s0(3) z srv n by (auto simp: FindSession_Some closed_session_def)
  have "srv_availableIndices (ReleaseSession ?d) = srv_availableIndices srv @ [0]"
    using srv s0(3) find(2) z at n by (simp add: ReleaseSession_def Close_def closed_session_def)
  moreover have "RequestDisconnectSession srv 0 = (True, ?d)"
    using find(1) Disconnect_valid [OF at s0(2)] by (simp add: RequestDisconnectSession_def)
  moreover have "0 \<in> set (srv_availableIndices srv)" using srv n by (auto intro: image_eqI [of _ _ 0])
  ultimately show ?thesis by blast
qed

theorem zero_id_duplicates_slot_witness:
  "\<exists>srv srv1. RequestDisconnectSession srv 0 = (True, srv1) \<and> \<not> distinct (srv_availableIndices (ReleaseSession srv1))"
proof -
  obtain srv where "Start zero_alloc happy_os (CIOCPServer_new 2 EchoTest) = Inr (True, srv)" using happy_start by blast
  from zero_id_duplicates_slot [OF this zero_allocates]
  obtain srv1 where "RequestDisconnectSession srv 0 = (True, srv1)" "0 \<in> set (srv_availableIndices srv)"
      "srv_availableIndices (ReleaseSession srv1) = srv_availableIndices srv @ [0]" by auto
  then show ?thesis by (intro exI [of _ srv] exI [of _ srv1]) simp
qed

text \<open>
  C39: A refused binding closes the client's socket twice.  When the completion port refuses
  the new socket, ProcessAccept returns the slot to the free queue, but calls closesocket twice
  on the same socket and leaves the session of the free slot marked valid.
\<close>

theorem refused_binding_double_close:
  assumes "srv_ok srv" "srv_availableIndices srv = index # rest" "session_at srv (unat index) = Some s0"
    and "k \<noteq> INVALID_SOCKET" "os (OsBindIOCP k (unat index) # srv_log srv) = 0"
  shows "\<exists>srv' s. ProcessAccept os srv k = Inr srv' \<and>
    srv_log srv' = [OsCloseSocket k, OsCloseSocket k, OsBindIOCP k (unat index)] @ srv_log srv \<and>
    srv_availableIndices srv' = rest @ [index] \<and> session_at srv' (unat index) = Some s \<and> cs_valid s"
  using ProcessAccept_unbound [where os = os, OF assms(2,3) srv_ok_at [OF assms(1,3)] assms(4,5)] by blast

theorem refused_binding_double_close_witness:
  "\<exists>srv'. ProcessAccept (\<lambda>_. 0) (demo_server EchoTest) 11 = Inr srv' \<and>
    srv_log srv' = [OsCloseSocket 11, OsCloseSocket 11, OsBindIOCP 11 1] \<and> srv_availableIndices srv' = [1]"
  using refused_binding_double_close [OF demo_server_ok(2), of EchoTest 1 "[]" "demo_session INVALID_SOCKET 0" 11 "\<lambda>_. 0"]
  by (auto simp: INVALID_SOCKET_def)

end
