(* ===== verification/SendProtocol.thy ===== *)
theory SendProtocol
  imports Prelude
begin

text \<open>
  The concurrent side of sending: \<open>RequestSendMsg\<close>, \<open>PostSend\<close> and \<open>ProcessSend\<close> on one connected
  session, as any number of threads run them.  The accesses that other threads can observe are
  single steps: the calls on the send queue, which hold its mutex, the atomic flag \<open>_sending\<close>,
  \<open>WSASend\<close>, and the completions.  Calls that fail disconnect the session and end the protocol;
  they are not steps here.
\<close>

section \<open>State\<close>

text \<open>Where a thread is, in the code of the functions.\<close>

datatype send_pc =
    Idle
  | PS_Exchange            \<comment> \<open>\<open>PostSend\<close>, before \<open>_sending.exchange(true)\<close>\<close>
  | PS_GetInfo             \<comment> \<open>before \<open>GetSendInfo\<close>\<close>
  | PS_WSASend nat         \<comment> \<open>before \<open>WSASend\<close> of the first bytes of the queue\<close>
  | PS_Clear               \<comment> \<open>\<open>dataSize == 0\<close>, before \<open>_sending.store(false)\<close>\<close>
  | PR_Consume nat         \<comment> \<open>\<open>ProcessSend\<close>, before \<open>Consume\<close>\<close>
  | PR_GetInfo
  | PR_WSASend nat
  | PR_Clear               \<comment> \<open>before \<open>_sending.store(false)\<close>\<close>
  | PR_Check               \<comment> \<open>before the double check of \<open>GetDataSize\<close>\<close>

text \<open>
  \<open>ss_flight\<close> holds the buffers of the outstanding \<open>WSASend\<close> calls, \<open>ss_wire\<close> the bytes sent.
  \<open>ss_produced\<close> and \<open>ss_raced\<close> only record what has happened: all bytes ever queued, and whether,
  since the latest request, the flag was cleared in \<open>PostSend\<close> over a queue that was no longer empty.
\<close>

record send_state =
  ss_queue :: "byte list"
  ss_sending :: bool
  ss_flight :: "byte list list"
  ss_wire :: "byte list"
  ss_pc :: "nat \<Rightarrow> send_pc"
  ss_produced :: "byte list"
  ss_raced :: bool

definition send_init :: send_state where
  "send_init = \<lparr>ss_queue = [], ss_sending = False, ss_flight = [], ss_wire = [], ss_pc = (\<lambda>_. Idle),
     ss_produced = [], ss_raced = False\<rparr>"

definition goto :: "nat \<Rightarrow> send_pc \<Rightarrow> send_state \<Rightarrow> send_state" where
  "goto t c s = s\<lparr>ss_pc := (ss_pc s)(t := c)\<rparr>"

section \<open>Steps\<close>

text \<open>\<open>RequestSendMsg\<close>: the message goes into the queue as a whole.\<close>

inductive request_step :: "nat \<Rightarrow> send_state \<Rightarrow> send_state \<Rightarrow> bool" where
  request: "ss_pc s t = Idle \<Longrightarrow> data \<noteq> [] \<Longrightarrow>
    request_step t s (goto t PS_Exchange (s\<lparr>ss_queue := ss_queue s @ data, ss_produced := ss_produced s @ data,
      ss_raced := False\<rparr>))"

inductive post_send_step :: "nat \<Rightarrow> send_state \<Rightarrow> send_state \<Rightarrow> bool" where
  busy: "ss_pc s t = PS_Exchange \<Longrightarrow> ss_sending s \<Longrightarrow> post_send_step t s (goto t Idle s)"
| taken: "ss_pc s t = PS_Exchange \<Longrightarrow> \<not> ss_sending s \<Longrightarrow>
    post_send_step t s (goto t PS_GetInfo (s\<lparr>ss_sending := True\<rparr>))"
| info_none: "ss_pc s t = PS_GetInfo \<Longrightarrow> ss_queue s = [] \<Longrightarrow> post_send_step t s (goto t PS_Clear s)"
| info_some: "ss_pc s t = PS_GetInfo \<Longrightarrow> ss_queue s \<noteq> [] \<Longrightarrow>
    post_send_step t s (goto t (PS_WSASend (length (ss_queue s))) s)"
| cleared: "ss_pc s t = PS_Clear \<Longrightarrow>
    post_send_step t s (goto t Idle (s\<lparr>ss_sending := False, ss_raced := (ss_raced s \<or> ss_queue s \<noteq> [])\<rparr>))"
| sent: "ss_pc s t = PS_WSASend n \<Longrightarrow>
    post_send_step t s (goto t Idle (s\<lparr>ss_flight := ss_flight s @ [take n (ss_queue s)]\<rparr>))"

text \<open>\<open>ProcessSend\<close>, which starts when a worker takes the completion of \<open>k\<close> bytes.\<close>

inductive process_send_step :: "nat \<Rightarrow> send_state \<Rightarrow> send_state \<Rightarrow> bool" where
  completion: "ss_pc s t = Idle \<Longrightarrow> ss_flight s = buf # rest \<Longrightarrow> 0 < k \<Longrightarrow> k \<le> length buf \<Longrightarrow>
    process_send_step t s (goto t (PR_Consume k) (s\<lparr>ss_flight := rest, ss_wire := ss_wire s @ take k buf\<rparr>))"
| consume: "ss_pc s t = PR_Consume k \<Longrightarrow>
    process_send_step t s (goto t PR_GetInfo (s\<lparr>ss_queue := drop k (ss_queue s)\<rparr>))"
| more_info: "ss_pc s t = PR_GetInfo \<Longrightarrow> ss_queue s \<noteq> [] \<Longrightarrow>
    process_send_step t s (goto t (PR_WSASend (length (ss_queue s))) s)"
| more_sent: "ss_pc s t = PR_WSASend n \<Longrightarrow>
    process_send_step t s (goto t Idle (s\<lparr>ss_flight := ss_flight s @ [take n (ss_queue s)]\<rparr>))"
| no_info: "ss_pc s t = PR_GetInfo \<Longrightarrow> ss_queue s = [] \<Longrightarrow> process_send_step t s (goto t PR_Clear s)"
| clear: "ss_pc s t = PR_Clear \<Longrightarrow> process_send_step t s (goto t PR_Check (s\<lparr>ss_sending := False\<rparr>))"
| check_some: "ss_pc s t = PR_Check \<Longrightarrow> ss_queue s \<noteq> [] \<Longrightarrow> process_send_step t s (goto t PS_Exchange s)"
| check_none: "ss_pc s t = PR_Check \<Longrightarrow> ss_queue s = [] \<Longrightarrow> process_send_step t s (goto t Idle s)"

definition send_step :: "nat \<Rightarrow> send_state \<Rightarrow> send_state \<Rightarrow> bool" where
  "send_step t s s' \<longleftrightarrow> request_step t s s' \<or> post_send_step t s s' \<or> process_send_step t s s'"

inductive send_reachable :: "send_state \<Rightarrow> bool" where
  start: "send_reachable send_init"
| step: "send_reachable s \<Longrightarrow> send_step t s s' \<Longrightarrow> send_reachable s'"

inductive_cases request_stepE: "request_step t s s'"
inductive_cases post_send_stepE: "post_send_step t s s'"
inductive_cases process_send_stepE: "process_send_step t s s'"

lemma goto_simps [simp]:
  "ss_pc (goto t c s) = (ss_pc s)(t := c)" "ss_queue (goto t c s) = ss_queue s" "ss_sending (goto t c s) = ss_sending s"
  "ss_flight (goto t c s) = ss_flight s" "ss_wire (goto t c s) = ss_wire s" "ss_produced (goto t c s) = ss_produced s"
  "ss_raced (goto t c s) = ss_raced s"
  by (simp_all add: goto_def)

section \<open>The invariant\<close>

text \<open>The thread that has set the flag, or took over from it with a completion.\<close>

fun owner :: "send_pc \<Rightarrow> bool" where
  "owner Idle = False"
| "owner PS_Exchange = False"
| "owner PR_Check = False"
| "owner _ = True"

text \<open>The bytes at the front of the queue that are sent already.\<close>

fun sent_front :: "send_pc \<Rightarrow> nat" where
  "sent_front (PR_Consume k) = k"
| "sent_front _ = 0"

fun to_send :: "send_pc \<Rightarrow> nat" where
  "to_send (PS_WSASend n) = n"
| "to_send (PR_WSASend n) = n"
| "to_send _ = 0"

text \<open>Either nobody owns the flag, or one thread does, or one send is outstanding.\<close>

datatype send_phase = Free | Owned nat | Flying "byte list"

fun phase_ok :: "send_phase \<Rightarrow> send_state \<Rightarrow> bool" where
  "phase_ok Free s \<longleftrightarrow> \<not> ss_sending s \<and> ss_flight s = [] \<and> (\<forall>t. \<not> owner (ss_pc s t)) \<and>
     ss_produced s = ss_wire s @ ss_queue s"
| "phase_ok (Owned t) s \<longleftrightarrow> ss_sending s \<and> ss_flight s = [] \<and> (\<forall>u. owner (ss_pc s u) \<longleftrightarrow> u = t) \<and>
     sent_front (ss_pc s t) \<le> length (ss_queue s) \<and> to_send (ss_pc s t) \<le> length (ss_queue s) \<and>
     (\<forall>n. ss_pc s t = PS_WSASend n \<or> ss_pc s t = PR_WSASend n \<longrightarrow> 0 < n) \<and>
     ss_produced s = ss_wire s @ drop (sent_front (ss_pc s t)) (ss_queue s)"
| "phase_ok (Flying buf) s \<longleftrightarrow> ss_sending s \<and> ss_flight s = [buf] \<and> (\<forall>t. \<not> owner (ss_pc s t)) \<and>
     buf \<noteq> [] \<and> (\<exists>rest. ss_queue s = buf @ rest) \<and> ss_produced s = ss_wire s @ ss_queue s"

definition send_ok :: "send_state \<Rightarrow> bool" where
  "send_ok s \<longleftrightarrow> (\<exists>ph. phase_ok ph s)"

text \<open>Whoever has put bytes into the queue has somebody to send them, unless the race was hit.\<close>

definition awake :: "send_state \<Rightarrow> bool" where
  "awake s \<longleftrightarrow> ss_raced s \<or> ss_queue s = [] \<or> ss_sending s \<or> (\<exists>t. ss_pc s t = PS_Exchange \<or> ss_pc s t = PR_Check)"

lemma owner_phase: "phase_ok ph s \<Longrightarrow> owner (ss_pc s t) \<longleftrightarrow> ph = Owned t"
  by (cases ph) auto

lemma not_owner_phase: "phase_ok ph s \<Longrightarrow> \<not> owner (ss_pc s t) \<Longrightarrow> ph \<noteq> Owned t"
  using owner_phase by blast

lemma request_ok:
  assumes ok: "phase_ok ph s" and req: "request_step t s s'" shows "phase_ok ph s'"
  using req
proof (rule request_stepE)
  fix data assume "ss_pc s t = Idle"
    and s': "s' = goto t PS_Exchange (s\<lparr>ss_queue := ss_queue s @ data, ss_produced := ss_produced s @ data,
      ss_raced := False\<rparr>)"
  then show ?thesis using ok not_owner_phase [OF ok, of t] by (cases ph) auto
qed

lemma post_send_ok:
  assumes ok: "phase_ok ph s" and "post_send_step t s s'"
  shows "send_ok s'"
  using assms(2)
proof (rule post_send_stepE)
  assume "ss_pc s t = PS_Exchange" "ss_sending s" "s' = goto t Idle s"
  then have "phase_ok ph s'" using ok not_owner_phase [OF ok, of t] by (cases ph) auto
  then show ?thesis unfolding send_ok_def by blast
next
  assume "ss_pc s t = PS_Exchange" "\<not> ss_sending s" "s' = goto t PS_GetInfo (s\<lparr>ss_sending := True\<rparr>)"
  then have "phase_ok (Owned t) s'" using ok by (cases ph) auto
  then show ?thesis unfolding send_ok_def by blast
next
  assume "ss_pc s t = PS_GetInfo" "ss_queue s = []" "s' = goto t PS_Clear s"
  then have "phase_ok (Owned t) s'" using ok owner_phase [OF ok, of t] by auto
  then show ?thesis unfolding send_ok_def by blast
next
  assume "ss_pc s t = PS_GetInfo" "ss_queue s \<noteq> []" "s' = goto t (PS_WSASend (length (ss_queue s))) s"
  then have "phase_ok (Owned t) s'" using ok owner_phase [OF ok, of t] by auto
  then show ?thesis unfolding send_ok_def by blast
next
  assume "ss_pc s t = PS_Clear"
    and "s' = goto t Idle (s\<lparr>ss_sending := False, ss_raced := (ss_raced s \<or> ss_queue s \<noteq> [])\<rparr>)"
  then have "phase_ok Free s'" using ok owner_phase [OF ok, of t] by auto
  then show ?thesis unfolding send_ok_def by blast
next
  fix n assume pc: "ss_pc s t = PS_WSASend n"
    and s': "s' = goto t Idle (s\<lparr>ss_flight := ss_flight s @ [take n (ss_queue s)]\<rparr>)"
  have "phase_ok (Flying (take n (ss_queue s))) s'"
    using ok owner_phase [OF ok, of t] pc s' by (auto intro: exI [of _ "drop n (ss_queue s)"])
  then show ?thesis unfolding send_ok_def by blast
qed

lemma process_send_ok:
  assumes ok: "phase_ok ph s" and "process_send_step t s s'"
  shows "send_ok s'"
  using assms(2)
proof (rule process_send_stepE)
  fix buf rest k
  assume pc: "ss_pc s t = Idle" and flight: "ss_flight s = buf # rest" and k: "0 < k" "k \<le> length buf"
    and s': "s' = goto t (PR_Consume k) (s\<lparr>ss_flight := rest, ss_wire := ss_wire s @ take k buf\<rparr>)"
  then have "ph = Flying buf" "rest = []" using ok by (cases ph; simp)+
  then have "phase_ok (Owned t) s'" using ok pc k s' by auto
  then show ?thesis unfolding send_ok_def by blast
next
  fix k assume "ss_pc s t = PR_Consume k" "s' = goto t PR_GetInfo (s\<lparr>ss_queue := drop k (ss_queue s)\<rparr>)"
  then have "phase_ok (Owned t) s'" using ok owner_phase [OF ok, of t] by auto
  then show ?thesis unfolding send_ok_def by blast
next
  assume "ss_pc s t = PR_GetInfo" "ss_queue s \<noteq> []" "s' = goto t (PR_WSASend (length (ss_queue s))) s"
  then have "phase_ok (Owned t) s'" using ok owner_phase [OF ok, of t] by auto
  then show ?thesis unfolding send_ok_def by blast
next
  fix n assume pc: "ss_pc s t = PR_WSASend n"
    and s': "s' = goto t Idle (s\<lparr>ss_flight := ss_flight s @ [take n (ss_queue s)]\<rparr>)"
  have "phase_ok (Flying (take n (ss_queue s))) s'"
    using ok owner_phase [OF ok, of t] pc s' by (auto intro: exI [of _ "drop n (ss_queue s)"])
  then show ?thesis unfolding send_ok_def by blast
next
  assume "ss_pc s t = PR_GetInfo" "ss_queue s = []" "s' = goto t PR_Clear s"
  then have "phase_ok (Owned t) s'" using ok owner_phase [OF ok, of t] by auto
  then show ?thesis unfolding send_ok_def by blast
next
  assume "ss_pc s t = PR_Clear" "s' = goto t PR_Check (s\<lparr>ss_sending := False\<rparr>)"
  then have "phase_ok Free s'" using ok owner_phase [OF ok, of t] by auto
  then show ?thesis unfolding send_ok_def by blast
next
  assume "ss_pc s t = PR_Check" "ss_queue s \<noteq> []" "s' = goto t PS_Exchange s"
  then have "phase_ok ph s'" using ok not_owner_phase [OF ok, of t] by (cases ph) auto
  then show ?thesis unfolding send_ok_def by blast
next
  assume "ss_pc s t = PR_Check" "ss_queue s = []" "s' = goto t Idle s"
  then have "phase_ok ph s'" using ok not_owner_phase [OF ok, of t] by (cases ph) auto
  then show ?thesis unfolding send_ok_def by blast
qed

lemma send_step_ok: "send_ok s \<Longrightarrow> send_step t s s' \<Longrightarrow> send_ok s'"
  using request_ok post_send_ok process_send_ok unfolding send_ok_def send_step_def by blast

lemma send_reachable_ok: "send_reachable s \<Longrightarrow> send_ok s"
proof (induction rule: send_reachable.induct)
  case start
  have "phase_ok Free send_init" by (simp add: send_init_def)
  then show ?case unfolding send_ok_def by blast
next
  case (step s t s')
  then show ?case by (blast intro: send_step_ok)
qed

section \<open>Wake-ups\<close>

lemma owner_sending: "send_ok s \<Longrightarrow> owner (ss_pc s t) \<or> ss_flight s \<noteq> [] \<Longrightarrow> ss_sending s"
proof -
  assume "send_ok s" "owner (ss_pc s t) \<or> ss_flight s \<noteq> []"
  then obtain ph where "phase_ok ph s" "owner (ss_pc s t) \<or> ss_flight s \<noteq> []" unfolding send_ok_def by blast
  then show ?thesis by (cases ph) auto
qed

lemma awake_step:
  assumes ok: "send_ok s" and aw: "awake s" and "send_step t s s'"
  shows "awake s'"
proof -
  have keep: "awake (goto t c s)" if "ss_pc s t \<noteq> PS_Exchange" "ss_pc s t \<noteq> PR_Check" for c
    using aw that by (auto simp: awake_def)
  consider "request_step t s s'" | "post_send_step t s s'" | "process_send_step t s s'"
    using assms(3) by (auto simp: send_step_def)
  then show ?thesis
  proof cases
    case 1
    then show ?thesis by (rule request_stepE) (auto simp: awake_def)
  next
    case 2
    then show ?thesis
    proof (rule post_send_stepE)
      assume "ss_pc s t = PS_Clear"
        and "s' = goto t Idle (s\<lparr>ss_sending := False, ss_raced := (ss_raced s \<or> ss_queue s \<noteq> [])\<rparr>)"
      then show ?thesis by (auto simp: awake_def)
    next
      fix n assume pc: "ss_pc s t = PS_WSASend n"
        and s': "s' = goto t Idle (s\<lparr>ss_flight := ss_flight s @ [take n (ss_queue s)]\<rparr>)"
      then have "ss_sending s" using owner_sending [OF ok, of t] by simp
      then show ?thesis using s' by (simp add: awake_def)
    qed (use keep in \<open>auto simp: awake_def\<close>)
  next
    case 3
    then show ?thesis
    proof (rule process_send_stepE)
      fix buf rest k
      assume "ss_flight s = buf # rest" and s': "s' = goto t (PR_Consume k) (s\<lparr>ss_flight := rest, ss_wire := ss_wire s @ take k buf\<rparr>)"
      then have "ss_sending s" using owner_sending [OF ok] by simp
      then show ?thesis using s' by (simp add: awake_def)
    next
      fix k assume "ss_pc s t = PR_Consume k" and s': "s' = goto t PR_GetInfo (s\<lparr>ss_queue := drop k (ss_queue s)\<rparr>)"
      then have "ss_sending s" using owner_sending [OF ok, of t] by simp
      then show ?thesis using s' by (simp add: awake_def)
    next
      fix n assume "ss_pc s t = PR_WSASend n"
        and s': "s' = goto t Idle (s\<lparr>ss_flight := ss_flight s @ [take n (ss_queue s)]\<rparr>)"
      then have "ss_sending s" using owner_sending [OF ok, of t] by simp
      then show ?thesis using s' by (simp add: awake_def)
    qed (use keep in \<open>auto simp: awake_def\<close>)
  qed
qed

lemma send_reachable_awake: "send_reachable s \<Longrightarrow> awake s"
proof (induction rule: send_reachable.induct)
  case start
  show ?case by (simp add: awake_def send_init_def)
next
  case (step s t s')
  then show ?case by (blast intro: awake_step send_reachable_ok)
qed

section \<open>Progress\<close>

text \<open>What a thread that is not idle does next; the state determines it.\<close>

definition advance :: "nat \<Rightarrow> send_state \<Rightarrow> send_state" where
  "advance t s =
     (case ss_pc s t of
        Idle \<Rightarrow> s
      | PS_Exchange \<Rightarrow> (if ss_sending s then goto t Idle s else goto t PS_GetInfo (s\<lparr>ss_sending := True\<rparr>))
      | PS_GetInfo \<Rightarrow> (if ss_queue s = [] then goto t PS_Clear s else goto t (PS_WSASend (length (ss_queue s))) s)
      | PS_WSASend n \<Rightarrow> goto t Idle (s\<lparr>ss_flight := ss_flight s @ [take n (ss_queue s)]\<rparr>)
      | PS_Clear \<Rightarrow> goto t Idle (s\<lparr>ss_sending := False, ss_raced := (ss_raced s \<or> ss_queue s \<noteq> [])\<rparr>)
      | PR_Consume k \<Rightarrow> goto t PR_GetInfo (s\<lparr>ss_queue := drop k (ss_queue s)\<rparr>)
      | PR_GetInfo \<Rightarrow> (if ss_queue s = [] then goto t PR_Clear s else goto t (PR_WSASend (length (ss_queue s))) s)
      | PR_WSASend n \<Rightarrow> goto t Idle (s\<lparr>ss_flight := ss_flight s @ [take n (ss_queue s)]\<rparr>)
      | PR_Clear \<Rightarrow> goto t PR_Check (s\<lparr>ss_sending := False\<rparr>)
      | PR_Check \<Rightarrow> (if ss_queue s = [] then goto t Idle s else goto t PS_Exchange s))"

text \<open>How many steps of its own a thread still needs at most.\<close>

fun rank :: "send_pc \<Rightarrow> nat" where
  "rank Idle = 0"
| "rank (PS_WSASend n) = 1"
| "rank PS_Clear = 1"
| "rank PS_GetInfo = 2"
| "rank PS_Exchange = 3"
| "rank PR_Check = 4"
| "rank PR_Clear = 5"
| "rank (PR_WSASend n) = 1"
| "rank PR_GetInfo = 6"
| "rank (PR_Consume k) = 7"

lemma advance_step:
  assumes "ss_pc s t \<noteq> Idle" shows "send_step t s (advance t s)"
  using assms
  by (cases "ss_pc s t") (auto simp: advance_def send_step_def intro: post_send_step.intros process_send_step.intros)

lemma step_advance:
  assumes "ss_pc s t \<noteq> Idle" "send_step t s s'" shows "s' = advance t s"
proof -
  have "\<not> request_step t s s'" using assms(1) by (auto elim: request_stepE)
  then consider "post_send_step t s s'" | "process_send_step t s s'" using assms(2) by (auto simp: send_step_def)
  then show ?thesis
  proof cases
    case 1
    then show ?thesis by (rule post_send_stepE) (simp_all add: advance_def)
  next
    case 2
    then show ?thesis by (rule process_send_stepE) (use assms(1) in \<open>simp_all add: advance_def\<close>)
  qed
qed

lemma rank_advance: "ss_pc s t \<noteq> Idle \<Longrightarrow> rank (ss_pc (advance t s) t) < rank (ss_pc s t)"
  by (cases "ss_pc s t") (simp_all add: advance_def)

lemma advance_other: "u \<noteq> t \<Longrightarrow> ss_pc (advance t s) u = ss_pc s u"
  by (cases "ss_pc s t") (simp_all add: advance_def)

lemma rank_le: "rank c \<le> 7"
  by (cases c) simp_all

section \<open>A lost wake-up\<close>

text \<open>New requests and completions; both start at an idle thread.\<close>

definition start_request :: "nat \<Rightarrow> byte list \<Rightarrow> send_state \<Rightarrow> send_state" where
  "start_request t data s = goto t PS_Exchange
     (s\<lparr>ss_queue := ss_queue s @ data, ss_produced := ss_produced s @ data, ss_raced := False\<rparr>)"

definition start_completion :: "nat \<Rightarrow> send_state \<Rightarrow> send_state" where
  "start_completion t s = goto t (PR_Consume (length (hd (ss_flight s))))
     (s\<lparr>ss_flight := tl (ss_flight s), ss_wire := ss_wire s @ hd (ss_flight s)\<rparr>)"

lemma reach_request: "send_reachable s \<Longrightarrow> ss_pc s t = Idle \<Longrightarrow> data \<noteq> [] \<Longrightarrow> send_reachable (start_request t data s)"
  unfolding start_request_def by (rule send_reachable.step [of s t]) (simp_all add: send_step_def request_step.intros)

lemma reach_advance: "send_reachable s \<Longrightarrow> send_reachable (advance t s)"
proof (cases "ss_pc s t = Idle")
  case True
  then show "send_reachable s \<Longrightarrow> ?thesis" by (simp add: advance_def)
next
  case False
  then show "send_reachable s \<Longrightarrow> ?thesis" using send_reachable.step advance_step by blast
qed

lemma reach_completion:
  assumes "send_reachable s" "ss_pc s t = Idle" "ss_flight s \<noteq> []" "hd (ss_flight s) \<noteq> []"
  shows "send_reachable (start_completion t s)"
proof (rule send_reachable.step [OF assms(1)])
  obtain buf rest where "ss_flight s = buf # rest" using assms(3) by (cases "ss_flight s") auto
  then show "send_step t s (start_completion t s)"
    using process_send_step.completion [of s t buf rest "length buf"] assms(2,4)
    by (simp add: send_step_def start_completion_def)
qed

text \<open>
  Threads 0 and 1 queue a byte each; thread 1 sends both and handles the completion to its end
  before thread 0 sets the flag.  Thread 0 finds the queue empty; thread 2 queues another byte
  and finds the flag set; then thread 0 clears it.
\<close>

definition first_sent :: send_state where
  "first_sent = (advance 1 \<circ> advance 1 \<circ> advance 1 \<circ> start_request 1 [3] \<circ> start_request 0 [1]) send_init"

definition first_done :: send_state where
  "first_done = (advance 1 \<circ> advance 1 \<circ> advance 1 \<circ> advance 1 \<circ> start_completion 1) first_sent"

definition lost :: send_state where
  "lost = (advance 0 \<circ> advance 2 \<circ> start_request 2 [2] \<circ> advance 0 \<circ> advance 0) first_done"

lemma first_sent_eq:
  "first_sent = \<lparr>ss_queue = [1, 3], ss_sending = True, ss_flight = [[1, 3]], ss_wire = [],
     ss_pc = (\<lambda>_. Idle)(0 := PS_Exchange), ss_produced = [1, 3], ss_raced = False\<rparr>"
  by (auto simp: first_sent_def start_request_def advance_def goto_def send_init_def)

lemma first_done_eq:
  "first_done = \<lparr>ss_queue = [], ss_sending = False, ss_flight = [], ss_wire = [1, 3],
     ss_pc = (\<lambda>_. Idle)(0 := PS_Exchange), ss_produced = [1, 3], ss_raced = False\<rparr>"
  by (auto simp: first_done_def first_sent_eq start_completion_def advance_def goto_def)

lemma lost_eq:
  "lost = \<lparr>ss_queue = [2], ss_sending = False, ss_flight = [], ss_wire = [1, 3],
     ss_pc = (\<lambda>_. Idle), ss_produced = [1, 3, 2], ss_raced = True\<rparr>"
  by (auto simp: lost_def first_done_eq start_request_def advance_def goto_def)

lemma first_sent_reachable: "send_reachable first_sent"
  unfolding first_sent_def comp_def
  by (intro reach_advance reach_request send_reachable.start) (simp_all add: send_init_def start_request_def)

lemma lost_reachable: "send_reachable lost"
proof -
  have 2: "send_reachable first_done"
    unfolding first_done_def comp_def
    by (intro reach_advance reach_completion first_sent_reachable) (simp_all add: first_sent_eq)
  show ?thesis
    unfolding lost_def comp_def
    by (intro reach_advance reach_request 2) (simp_all add: first_done_eq advance_def)
qed

text \<open>When all threads are idle and nothing is outstanding, only a request can happen.\<close>

lemma only_requests:
  assumes "\<forall>t. ss_pc s t = Idle" "ss_flight s = []"
  shows "send_step t s s' \<longleftrightarrow> request_step t s s'"
  using assms by (auto simp: send_step_def elim: post_send_stepE process_send_stepE)

lemma quiescent_queue:
  assumes "send_reachable s" "\<forall>t. ss_pc s t = Idle" "ss_flight s = []"
  shows "\<not> ss_sending s \<and> ss_produced s = ss_wire s @ ss_queue s \<and> (ss_raced s \<or> ss_queue s = [])"
proof -
  obtain ph where ph: "phase_ok ph s" using send_reachable_ok [OF assms(1)] by (auto simp: send_ok_def)
  then have "ph = Free" using assms(2,3) owner_phase [OF ph] by (cases ph) auto
  then show ?thesis using ph send_reachable_awake [OF assms(1)] assms(2) by (auto simp: awake_def)
qed

section \<open>Everything is sent\<close>

text \<open>The steps of the server and of the network; the callers' requests are the other ones.\<close>

definition own_step :: "send_state \<Rightarrow> send_state \<Rightarrow> bool" where
  "own_step s s' \<longleftrightarrow> (\<exists>t. post_send_step t s s' \<or> process_send_step t s s')"

text \<open>
  The steps that are left: at most eight for each byte not sent yet, the completion and the
  seven of the thread that handles it, and those of the threads inside the functions.
\<close>

definition busy :: "send_state \<Rightarrow> nat set" where
  "busy s = {t. ss_pc s t \<noteq> Idle}"

definition effort :: "send_state \<Rightarrow> nat" where
  "effort s = 8 * (length (ss_produced s) - length (ss_wire s)) + (\<Sum>t \<in> busy s. rank (ss_pc s t))"

lemma send_step_other: "send_step t s s' \<Longrightarrow> u \<noteq> t \<Longrightarrow> ss_pc s' u = ss_pc s u"
  by (auto simp: send_step_def elim!: request_stepE post_send_stepE process_send_stepE)

lemma own_step_send: "own_step s s' \<Longrightarrow> \<exists>t. send_step t s s'"
  by (auto simp: own_step_def send_step_def)

lemma send_reachable_busy: "send_reachable s \<Longrightarrow> finite (busy s)"
proof (induction rule: send_reachable.induct)
  case start
  show ?case by (simp add: busy_def send_init_def)
next
  case (step s t s')
  then have "busy s' \<subseteq> insert t (busy s)" using send_step_other by (fastforce simp: busy_def)
  then show ?case using step.IH finite_subset by blast
qed

text \<open>The ranks of all threads, split into that of \<open>t\<close> and the rest.\<close>

lemma rank_sum:
  assumes "finite (busy s)"
  shows "(\<Sum>u \<in> busy s. rank (ss_pc s u)) = rank (ss_pc s t) + (\<Sum>u \<in> busy s - {t}. rank (ss_pc s u))"
  using assms by (cases "t \<in> busy s") (auto simp: sum.remove busy_def)

lemma rank_sum_step:
  assumes fin: "finite (busy s)" and other: "\<And>u. u \<noteq> t \<Longrightarrow> ss_pc s' u = ss_pc s u"
  shows "(\<Sum>u \<in> busy s'. rank (ss_pc s' u)) + rank (ss_pc s t) = (\<Sum>u \<in> busy s. rank (ss_pc s u)) + rank (ss_pc s' t)"
proof -
  have rest: "busy s' - {t} = busy s - {t}" using other by (auto simp: busy_def)
  then have fin': "finite (busy s')" using fin by (metis finite_Diff_insert finite.emptyI finite_Diff2 finite_insert)
  have "(\<Sum>u \<in> busy s - {t}. rank (ss_pc s' u)) = (\<Sum>u \<in> busy s - {t}. rank (ss_pc s u))"
    using other by (intro sum.cong) auto
  then show ?thesis using rank_sum [OF fin, of t] rank_sum [OF fin', of t] rest by simp
qed

lemma sent_le_produced: "send_ok s \<Longrightarrow> length (ss_wire s) \<le> length (ss_produced s)"
proof -
  assume "send_ok s"
  then obtain ph where "phase_ok ph s" unfolding send_ok_def by blast
  then show ?thesis by (cases ph) auto
qed

lemma advance_frame: "ss_wire (advance t s) = ss_wire s" "ss_produced (advance t s) = ss_produced s"
  by (cases "ss_pc s t"; simp add: advance_def)+

lemma own_step_cases:
  assumes "own_step s s'"
  obtains (goes_on) t where "ss_pc s t \<noteq> Idle" "s' = advance t s"
    | (completes) t buf rest k where "ss_pc s t = Idle" "ss_flight s = buf # rest" "0 < k" "k \<le> length buf"
        "s' = goto t (PR_Consume k) (s\<lparr>ss_flight := rest, ss_wire := ss_wire s @ take k buf\<rparr>)"
proof -
  obtain t where t: "post_send_step t s s' \<or> process_send_step t s s'" using assms by (auto simp: own_step_def)
  show ?thesis
  proof (cases "ss_pc s t = Idle")
    case True
    then have "process_send_step t s s'" using t by (auto elim: post_send_stepE)
    then show ?thesis by (rule process_send_stepE) (use True completes in auto)
  next
    case False
    have "send_step t s s'" using t by (auto simp: send_step_def)
    then show ?thesis using step_advance [OF False] goes_on [OF False] by blast
  qed
qed

lemma own_step_effort:
  assumes "send_reachable s" "own_step s s'"
  shows "effort s' < effort s" "ss_produced s' = ss_produced s" "send_reachable s'"
proof -
  show r': "send_reachable s'" using assms send_reachable.step own_step_send by blast
  note fin = send_reachable_busy [OF assms(1)]
  have le: "length (ss_wire s') \<le> length (ss_produced s')"
    by (rule sent_le_produced [OF send_reachable_ok [OF r']])
  have "effort s' < effort s \<and> ss_produced s' = ss_produced s"
    using assms(2)
  proof (cases rule: own_step_cases)
    case (goes_on t)
    have "(\<Sum>u \<in> busy s'. rank (ss_pc s' u)) + rank (ss_pc s t) = (\<Sum>u \<in> busy s. rank (ss_pc s u)) + rank (ss_pc s' t)"
      unfolding goes_on(2) by (rule rank_sum_step [OF fin]) (rule advance_other)
    then show ?thesis
      using rank_advance [OF goes_on(1)] unfolding goes_on(2) by (simp add: effort_def advance_frame)
  next
    case (completes t buf rest k)
    have "(\<Sum>u \<in> busy s'. rank (ss_pc s' u)) + rank (ss_pc s t) = (\<Sum>u \<in> busy s. rank (ss_pc s u)) + rank (ss_pc s' t)"
      unfolding completes(5) by (rule rank_sum_step [OF fin]) simp
    moreover have "length (ss_wire s') = length (ss_wire s) + k" "ss_produced s' = ss_produced s"
        "rank (ss_pc s t) = 0" "rank (ss_pc s' t) = 7"
      using completes by simp_all
    ultimately show ?thesis using le completes(3) by (simp add: effort_def)
  qed
  then show "effort s' < effort s" "ss_produced s' = ss_produced s" by simp_all
qed

lemma own_steps_effort:
  "send_reachable s \<Longrightarrow> (own_step ^^ n) s s' \<Longrightarrow>
   n + effort s' \<le> effort s \<and> ss_produced s' = ss_produced s \<and> send_reachable s'"
proof (induction n arbitrary: s')
  case (Suc n)
  then obtain s1 where "(own_step ^^ n) s s1" "own_step s1 s'" by auto
  then show ?case using Suc.IH [OF Suc.prems(1)] own_step_effort [of s1 s'] by fastforce
qed simp

text \<open>A state in which no such step is possible is at rest.\<close>

lemma advance_own: "ss_pc s t \<noteq> Idle \<Longrightarrow> own_step s (advance t s)"
  using advance_step [of s t] by (auto simp: own_step_def send_step_def elim: request_stepE)

lemma own_step_stops:
  assumes r: "send_reachable s" and none: "\<not> (\<exists>s'. own_step s s')"
  shows "(\<forall>t. ss_pc s t = Idle) \<and> ss_flight s = []"
proof
  show idle: "\<forall>t. ss_pc s t = Idle"
  proof (rule allI, rule ccontr)
    fix t assume "ss_pc s t \<noteq> Idle"
    then show False using none advance_own by blast
  qed
  show "ss_flight s = []"
  proof (cases "ss_flight s")
    case (Cons buf rest)
    obtain ph where "phase_ok ph s" using send_reachable_ok [OF r] by (auto simp: send_ok_def)
    then have "0 < length buf" using Cons by (cases ph) auto
    then show ?thesis
      using process_send_step.completion [of s 0 buf rest "length buf"] idle Cons none by (auto simp: own_step_def)
  qed
qed

lemma own_step_possible: "own_step s s' \<Longrightarrow> (\<exists>t. ss_pc s t \<noteq> Idle) \<or> ss_flight s \<noteq> []"
  by (erule own_step_cases) auto

lemma completion_own:
  "ss_pc s t = Idle \<Longrightarrow> ss_flight s = buf # rest \<Longrightarrow> buf \<noteq> [] \<Longrightarrow> own_step s (start_completion t s)"
  using process_send_step.completion [of s t buf rest "length buf"] by (auto simp: own_step_def start_completion_def)

end
