(* ===== verification/SendSimulation.thy ===== *)
theory SendSimulation
  imports Framing SendProtocol
begin

text \<open>
  The functions of \<open>IOCPTransfer\<close>, which run without interruption, are runs of one thread of the
  concurrent protocol.
\<close>

definition matches :: "send_state \<Rightarrow> CSession \<Rightarrow> bool" where
  "matches st s \<longleftrightarrow> cs_valid s \<and> ss_queue st = contents (cs_sendQ s) \<and> ss_sending st = cs_sending s"

definition thread_run :: "nat \<Rightarrow> send_state \<Rightarrow> send_state \<Rightarrow> bool" where
  "thread_run t = (send_step t)\<^sup>*\<^sup>*"

lemma thread_run_step: "send_step t s s1 \<Longrightarrow> thread_run t s1 s2 \<Longrightarrow> thread_run t s s2"
  unfolding thread_run_def by (rule converse_rtranclp_into_rtranclp)

lemma thread_run_refl: "thread_run t s s"
  by (simp add: thread_run_def)

lemma thread_run3: "send_step t a b \<Longrightarrow> send_step t b c \<Longrightarrow> send_step t c d \<Longrightarrow> thread_run t a d"
  by (meson thread_run_step thread_run_refl)

lemma thread_run4: "send_step t a b \<Longrightarrow> send_step t b c \<Longrightarrow> send_step t c d \<Longrightarrow> send_step t d e \<Longrightarrow> thread_run t a e"
  by (meson thread_run_step thread_run_refl)

lemma goto_goto [simp]: "goto t c (goto t d s) = goto t c s"
  by (simp add: goto_def)

lemma goto_update [simp]:
  "(goto t c s)\<lparr>ss_sending := b\<rparr> = goto t c (s\<lparr>ss_sending := b\<rparr>)"
  "(goto t c s)\<lparr>ss_flight := f\<rparr> = goto t c (s\<lparr>ss_flight := f\<rparr>)"
  "(goto t c s)\<lparr>ss_queue := q\<rparr> = goto t c (s\<lparr>ss_queue := q\<rparr>)"
  by (simp_all add: goto_def)

section \<open>Runs of a thread\<close>

text \<open>A request, when a send is outstanding and when none is.\<close>

lemma request_run_busy:
  assumes "ss_pc st t = Idle" "data \<noteq> []" "ss_sending st"
  defines "st' \<equiv> st\<lparr>ss_queue := ss_queue st @ data, ss_produced := ss_produced st @ data, ss_raced := False\<rparr>"
  shows "thread_run t st (goto t Idle st')"
proof -
  have "send_step t st (goto t PS_Exchange st')"
    using request_step.request [OF assms(1,2)] by (simp add: send_step_def st'_def)
  moreover have "send_step t (goto t PS_Exchange st') (goto t Idle st')"
    using busy [of "goto t PS_Exchange st'" t] assms(3) by (simp add: send_step_def st'_def)
  ultimately show ?thesis by (blast intro: thread_run_step thread_run_refl)
qed

lemma request_run_free:
  assumes "ss_pc st t = Idle" "data \<noteq> []" "\<not> ss_sending st"
  defines "st' \<equiv> st\<lparr>ss_queue := ss_queue st @ data, ss_produced := ss_produced st @ data, ss_raced := False\<rparr>"
  shows "thread_run t st (goto t Idle (st'\<lparr>ss_sending := True, ss_flight := ss_flight st @ [ss_queue st @ data]\<rparr>))"
proof -
  let ?q = "ss_queue st @ data" and ?on = "st'\<lparr>ss_sending := True\<rparr>"
  have "send_step t st (goto t PS_Exchange st')"
    using request_step.request [OF assms(1,2)] by (simp add: send_step_def st'_def)
  moreover have "send_step t (goto t PS_Exchange st') (goto t PS_GetInfo ?on)"
    using taken [of "goto t PS_Exchange st'" t] assms(3) by (simp add: send_step_def st'_def)
  moreover have "send_step t (goto t PS_GetInfo ?on) (goto t (PS_WSASend (length ?q)) ?on)"
    using info_some [of "goto t PS_GetInfo ?on" t] assms(2) by (simp add: send_step_def st'_def)
  moreover have "send_step t (goto t (PS_WSASend (length ?q)) ?on) (goto t Idle (?on\<lparr>ss_flight := ss_flight st @ [?q]\<rparr>))"
    using sent [of "goto t (PS_WSASend (length ?q)) ?on" t "length ?q"] by (simp add: send_step_def st'_def)
  ultimately show ?thesis by (rule thread_run4)
qed

text \<open>A completion, when bytes are left and when none are.\<close>

lemma process_run_more:
  assumes "ss_pc st t = PR_Consume k" "drop k (ss_queue st) \<noteq> []"
  defines "q \<equiv> drop k (ss_queue st)"
  shows "thread_run t st (goto t Idle (st\<lparr>ss_queue := q, ss_flight := ss_flight st @ [q]\<rparr>))"
proof -
  let ?st = "st\<lparr>ss_queue := q\<rparr>"
  have "send_step t st (goto t PR_GetInfo ?st)"
    using consume [OF assms(1)] by (simp add: send_step_def q_def)
  moreover have "send_step t (goto t PR_GetInfo ?st) (goto t (PR_WSASend (length q)) ?st)"
    using more_info [of "goto t PR_GetInfo ?st" t] assms(2) by (simp add: send_step_def q_def)
  moreover have "send_step t (goto t (PR_WSASend (length q)) ?st) (goto t Idle (?st\<lparr>ss_flight := ss_flight st @ [q]\<rparr>))"
    using more_sent [of "goto t (PR_WSASend (length q)) ?st" t "length q"] by (simp add: send_step_def)
  ultimately show ?thesis by (rule thread_run3)
qed

lemma process_run_done:
  assumes "ss_pc st t = PR_Consume k" "drop k (ss_queue st) = []"
  shows "thread_run t st (goto t Idle (st\<lparr>ss_queue := [], ss_sending := False\<rparr>))"
proof -
  let ?st = "st\<lparr>ss_queue := []\<rparr>"
  have "send_step t st (goto t PR_GetInfo ?st)"
    using consume [OF assms(1)] assms(2) by (simp add: send_step_def)
  moreover have "send_step t (goto t PR_GetInfo ?st) (goto t PR_Clear ?st)"
    using no_info [of "goto t PR_GetInfo ?st" t] by (simp add: send_step_def)
  moreover have "send_step t (goto t PR_Clear ?st) (goto t PR_Check (?st\<lparr>ss_sending := False\<rparr>))"
    using clear [of "goto t PR_Clear ?st" t] by (simp add: send_step_def)
  moreover have "send_step t (goto t PR_Check (?st\<lparr>ss_sending := False\<rparr>)) (goto t Idle (?st\<lparr>ss_sending := False\<rparr>))"
    using check_none [of "goto t PR_Check (?st\<lparr>ss_sending := False\<rparr>)" t] by (simp add: send_step_def)
  ultimately show ?thesis by (rule thread_run4)
qed

section \<open>The simulation\<close>

text \<open>The new outstanding sends of a run are the \<open>WSASend\<close> calls of the code.\<close>

definition simulates :: "nat \<Rightarrow> send_state \<Rightarrow> nat \<Rightarrow> SOCKET \<Rightarrow> CIOCPServer \<Rightarrow> CIOCPServer \<Rightarrow> bool" where
  "simulates t st i k srv srv' \<longleftrightarrow>
     (\<exists>s' st' bufs. session_at srv' i = Some s' \<and> thread_run t st st' \<and> matches st' s' \<and> ss_pc st' t = Idle \<and>
        ss_flight st' = ss_flight st @ bufs \<and> srv_log srv' = rev (map (OsSend k) bufs) @ srv_log srv)"

lemma RequestSendMsg_simulates:
  assumes find: "FindSession srv sid = Some i" and at: "session_at srv i = Some s" and ok: "session_ok s"
    and m: "matches st s" and pc: "ss_pc st t = Idle"
    and data: "data \<noteq> []" "length data \<le> room (cs_sendQ s)"
    and os: "os (OsSend (cs_socket s) (contents (cs_sendQ s) @ data) # srv_log srv) = 0"
  shows "\<exists>srv'. RequestSendMsg os srv sid data (of_nat (length data)) = Inr srv' \<and> simulates t st i (cs_socket s) srv srv'"
proof -
  have v: "cs_valid s" using m by (simp add: matches_def)
  have "room (cs_sendQ s) < 65536"
    using room_less [OF session_rings(1) [OF ok]] ok by (simp add: session_ok_def)
  then have n: "unat (scast (of_nat (length data) :: int32_t) :: size_t) = length data"
    using data(2) by (intro scast_of_nat_32) simp
  then have nz: "(scast (of_nat (length data) :: int32_t) :: size_t) \<noteq> 0" using data(1) by auto
  let ?t = "s\<lparr>cs_sendQ := write_bytes (cs_sendQ s) data\<rparr>"
  let ?srv = "set_session srv i ?t"
  have i: "i < length (srv_sessions srv)" using at by (rule session_at_Some_less)
  have w: "rb_ok (write_bytes (cs_sendQ s) data)" "contents (write_bytes (cs_sendQ s) data) = contents (cs_sendQ s) @ data"
    using write_bytes_ok [OF session_rings(1) [OF ok] data(2)] by simp_all
  have t: "session_ok ?t" using ok w(1) by (simp add: session_ok_def)
  have eq: "RequestSendMsg os srv sid data (of_nat (length data)) =
      Inr (if cs_sending s then ?srv else posted_send os ?srv i (?t\<lparr>cs_sending := True\<rparr>))"
    using RequestSendMsg_eq [OF find at ok v, of "of_nat (length data)" data os] n nz data v w(2) i
      PostSend_eq [of ?srv i ?t os] t by auto
  show ?thesis
  proof (cases "cs_sending s")
    case True
    have "simulates t st i (cs_socket s) srv ?srv"
      unfolding simulates_def
      using request_run_busy [OF pc data(1)] m True i w(2)
      by (intro exI [of _ ?t] exI [of _ "goto t Idle (st\<lparr>ss_queue := ss_queue st @ data, ss_produced := ss_produced st @ data, ss_raced := False\<rparr>)"]
          exI [of _ "[]"]) (simp add: matches_def)
    then show ?thesis using eq True by simp
  next
    case False
    let ?s = "?t\<lparr>cs_sending := True\<rparr>" and ?q = "contents (cs_sendQ s) @ data"
    have p: "posted_send os ?srv i ?s = syscall (OsSend (cs_socket s) ?q) (set_session srv i ?s)"
      using os w(2) by (simp add: posted_send_def os_result_def Let_def)
    have "simulates t st i (cs_socket s) srv (syscall (OsSend (cs_socket s) ?q) (set_session srv i ?s))"
      unfolding simulates_def
      using request_run_free [OF pc data(1)] m False i w(2)
      by (intro exI [of _ ?s] exI [of _ "goto t Idle (st\<lparr>ss_queue := ss_queue st @ data, ss_produced := ss_produced st @ data, ss_raced := False,
            ss_sending := True, ss_flight := ss_flight st @ [?q]\<rparr>)"] exI [of _ "[?q]"]) (simp add: matches_def)
    then show ?thesis using eq False p by simp
  qed
qed

lemma ProcessSend_simulates:
  assumes at: "session_at srv i = Some s" and ok: "session_ok s" and m: "matches st s"
    and pc: "ss_pc st t = PR_Consume (unat bytes)" and sending: "cs_sending s"
    and k: "bytes \<noteq> 0" "unat bytes \<le> length (contents (cs_sendQ s))"
    and os: "os (OsSend (cs_socket s) (drop (unat bytes) (contents (cs_sendQ s))) # srv_log srv) = 0"
  shows "\<exists>srv'. ProcessSend os srv i bytes = Inr srv' \<and> simulates t st i (cs_socket s) srv srv'"
proof -
  let ?left = "drop (unat bytes) (contents (cs_sendQ s))"
  let ?s = "s\<lparr>cs_sendQ := drop_bytes (cs_sendQ s) (unat bytes)\<rparr>"
  have v: "cs_valid s" using m by (simp add: matches_def)
  have i: "i < length (srv_sessions srv)" using at by (rule session_at_Some_less)
  have d: "contents (drop_bytes (cs_sendQ s) (unat bytes)) = ?left"
    using drop_bytes_ok(2) [OF session_rings(1) [OF ok] k(2)] by simp
  have eq: "ProcessSend os srv i bytes =
      Inr (if ?left \<noteq> [] then posted_send os srv i ?s else set_session srv i (?s\<lparr>cs_sending := False\<rparr>))"
    using ProcessSend_eq [OF at ok, of os bytes] v k d by (auto simp: Let_def)
  show ?thesis
  proof (cases "?left = []")
    case True
    let ?t = "?s\<lparr>cs_sending := False\<rparr>"
    have "simulates t st i (cs_socket s) srv (set_session srv i ?t)"
      unfolding simulates_def
      using process_run_done [OF pc] m True i d
      by (intro exI [of _ ?t] exI [of _ "goto t Idle (st\<lparr>ss_queue := [], ss_sending := False\<rparr>)"] exI [of _ "[]"])
        (simp add: matches_def)
    then show ?thesis using eq True by simp
  next
    case False
    have p: "posted_send os srv i ?s = syscall (OsSend (cs_socket s) ?left) (set_session srv i ?s)"
      using os d by (simp add: posted_send_def os_result_def Let_def)
    have "simulates t st i (cs_socket s) srv (syscall (OsSend (cs_socket s) ?left) (set_session srv i ?s))"
      unfolding simulates_def
      using process_run_more [OF pc] m False i d sending
      by (intro exI [of _ ?s] exI [of _ "goto t Idle (st\<lparr>ss_queue := ?left, ss_flight := ss_flight st @ [?left]\<rparr>)"]
          exI [of _ "[?left]"]) (simp add: matches_def)
    then show ?thesis using eq False p by simp
  qed
qed

end
