(* ===== verification/SendProperties.thy ===== *)
theory SendProperties
  imports Demo SendSimulation
begin

text \<open>
  The properties of concurrent sending, with their witnesses.
\<close>

section \<open>Safety and progress\<close>

text \<open>
  C5: Concurrent sending is safe.  However the threads that request sends and the workers that
  handle completions interleave on a connected session: at most one WSASend is outstanding; its
  buffers are never empty and still hold the same bytes at the front of the queue; the peer
  receives the queued bytes in order without loss or duplication; and when all threads have
  returned, exactly the queued bytes are not yet confirmed.  No thread ever waits for another: a
  thread inside the functions can always go on, and returns after at most seven steps of its own.
\<close>

theorem concurrent_send_safe:
  assumes "send_reachable s"
  shows "length (ss_flight s) \<le> 1 \<and>
    list_all (\<lambda>buf. buf \<noteq> [] \<and> take (length buf) (ss_queue s) = buf) (ss_flight s) \<and>
    (\<exists>left. ss_produced s = ss_wire s @ left) \<and>
    (if \<forall>t. ss_pc s t = Idle then ss_produced s = ss_wire s @ ss_queue s else True) \<and>
    (if ss_pc s t = Idle then rank (ss_pc s t) = 0
     else (\<forall>s'. send_step t s s' \<longleftrightarrow> s' = advance t s) \<and> rank (ss_pc (advance t s) t) < rank (ss_pc s t) \<and>
       rank (ss_pc s t) \<le> 7 \<and> (\<forall>u. u \<noteq> t \<longrightarrow> ss_pc (advance t s) u = ss_pc s u))"
proof -
  obtain ph where ph: "phase_ok ph s" using send_reachable_ok [OF assms] by (auto simp: send_ok_def)
  have "length (ss_flight s) \<le> 1 \<and>
    list_all (\<lambda>buf. buf \<noteq> [] \<and> take (length buf) (ss_queue s) = buf) (ss_flight s) \<and>
    (\<exists>left. ss_produced s = ss_wire s @ left) \<and>
    (if \<forall>t. ss_pc s t = Idle then ss_produced s = ss_wire s @ ss_queue s else True)"
  proof (cases ph)
    case (Owned t)
    then have "owner (ss_pc s t)" using owner_phase [OF ph, of t] by simp
    then have "ss_pc s t \<noteq> Idle" by auto
    then show ?thesis using ph Owned by auto
  qed (use ph in auto)
  moreover have "if ss_pc s t = Idle then rank (ss_pc s t) = 0
     else (\<forall>s'. send_step t s s' \<longleftrightarrow> s' = advance t s) \<and> rank (ss_pc (advance t s) t) < rank (ss_pc s t) \<and>
       rank (ss_pc s t) \<le> 7 \<and> (\<forall>u. u \<noteq> t \<longrightarrow> ss_pc (advance t s) u = ss_pc s u)"
    using advance_step step_advance rank_advance rank_le advance_other by auto
  ultimately show ?thesis by blast
qed

theorem concurrent_send_safe_witness:
  "length (ss_flight first_sent) = 1 \<and> take 2 (ss_queue first_sent) = [1, 3] \<and> send_step 0 first_sent (advance 0 first_sent)"
  using concurrent_send_safe [OF first_sent_reachable, of 0] by (simp add: first_sent_eq)

section \<open>Everything is sent\<close>

text \<open>
  C20: Everything queued is sent, but for a lost wake-up.  On a connected session whose calls succeed, from every
  reachable state, once no more requests
  are made, the threads and the network can only make a bounded number of steps: eight for each
  byte that is not sent yet, and those the threads inside the functions still need; nothing goes
  round the double check for ever.  As long as a send is outstanding or some
  thread is inside the functions a step is possible, a completion or the next statement of that thread,
  so that every run that is not given up ends in a state at rest.  There every byte ever
  queued has been sent, in order, unless since the latest
  request some PostSend cleared the flag in its branch for an empty queue while another thread had
  queued bytes in between.  That happens: a state at rest is reachable in which a byte is queued
  and nothing can happen any more until somebody calls RequestSendMsg again.
\<close>

theorem send_completes:
  assumes "send_reachable s" "(own_step ^^ n) s s'"
  shows "n \<le> effort s \<and> ss_produced s' = ss_produced s \<and>
    ((\<exists>s''. own_step s' s'') = ((\<exists>t. ss_pc s' t \<noteq> Idle) \<or> ss_flight s' \<noteq> [])) \<and>
    (if \<exists>s''. own_step s' s'' then True
     else ss_raced s' \<or> ss_queue s' = [] \<and> ss_wire s' = ss_produced s) \<and>
    (\<exists>l. send_reachable l \<and> (\<forall>t. ss_pc l t = Idle) \<and> ss_flight l = [] \<and> ss_queue l = [2] \<and> \<not> ss_sending l \<and>
     (\<forall>t l'. send_step t l l' \<longleftrightarrow> request_step t l l'))"
proof -
  note e = own_steps_effort [OF assms]
  then have r: "send_reachable s'" by simp
  have possible: "(\<exists>s''. own_step s' s'') \<longleftrightarrow> (\<exists>t. ss_pc s' t \<noteq> Idle) \<or> ss_flight s' \<noteq> []"
    using own_step_stops [OF r] own_step_possible [of s'] by blast
  have "ss_raced s' \<or> ss_queue s' = [] \<and> ss_wire s' = ss_produced s" if "\<not> (\<exists>s''. own_step s' s'')"
    using own_step_stops [OF r that] quiescent_queue [OF r] e by auto
  moreover have "(\<forall>t. ss_pc lost t = Idle) \<and> ss_flight lost = [] \<and> ss_queue lost = [2] \<and> \<not> ss_sending lost"
    by (simp add: lost_eq)
  then have "\<exists>l. send_reachable l \<and> (\<forall>t. ss_pc l t = Idle) \<and> ss_flight l = [] \<and> ss_queue l = [2] \<and> \<not> ss_sending l \<and>
     (\<forall>t l'. send_step t l l' \<longleftrightarrow> request_step t l l')"
    using lost_reachable only_requests [of lost] by blast
  ultimately show ?thesis using e possible by auto
qed

text \<open>
  Thread 0 has queued a byte and is before the flag, the bytes of both threads are on their way:
  six steps later both are sent.
\<close>

theorem send_completes_witness:
  "\<exists>s'. (own_step ^^ 6) first_sent s' \<and> 6 \<le> effort first_sent \<and> \<not> (\<exists>s''. own_step s' s'') \<and>
    ss_queue s' = [] \<and> ss_wire s' = [1, 3]"
proof -
  have go: "(own_step ^^ Suc n) first_sent (advance t s)" if "(own_step ^^ n) first_sent s" "ss_pc s t \<noteq> Idle" for n s t
  proof -
    have "own_step s (advance t s)" using advance_own [OF that(2)] .
    with that(1) show ?thesis by (rule relpowp_Suc_I)
  qed
  let ?s1 = "advance 0 first_sent"
  let ?s2 = "start_completion 1 ?s1"
  let ?s' = "advance 1 (advance 1 (advance 1 (advance 1 ?s2)))"
  have 1: "(own_step ^^ 1) first_sent ?s1" using go [of 0 first_sent 0] by (simp add: first_sent_eq)
  have "own_step ?s1 ?s2"
    by (rule completion_own [of _ _ "[1, 3]" "[]"]) (simp_all add: first_sent_eq advance_def goto_def)
  then have 2: "(own_step ^^ Suc 1) first_sent ?s2" using 1 by auto
  have "(own_step ^^ Suc (Suc (Suc (Suc (Suc 1))))) first_sent ?s'"
    by (intro go 2) (simp_all add: first_sent_eq advance_def start_completion_def goto_def)
  then have run: "(own_step ^^ 6) first_sent ?s'" by (simp only: eval_nat_numeral BitM.simps One_nat_def)
  have rest: "?s' = \<lparr>ss_queue = [], ss_sending = False, ss_flight = [], ss_wire = [1, 3],
     ss_pc = (\<lambda>_. Idle), ss_produced = [1, 3], ss_raced = False\<rparr>"
    by (auto simp: first_sent_eq start_completion_def advance_def goto_def)
  show ?thesis
    using send_completes [OF first_sent_reachable run] run unfolding rest by (auto simp: first_sent_eq)
qed

text \<open>
  C19: The sequential functions are runs of the protocol.  For a well-formed connected session,
  RequestSendMsg of bytes that fit, and ProcessSend of a completion of bytes that are queued,
  change send queue and flag as some run of one protocol thread does, from its start to its
  return, and the WSASend calls they issue are the sends that run puts on the way.
\<close>

theorem send_functions_follow_protocol:
  assumes "FindSession srv sid = Some i" "session_at srv i = Some s" "session_ok s" "matches st s"
  shows "(ss_pc st t = Idle \<and> data \<noteq> [] \<and> length data \<le> room (cs_sendQ s) \<and>
      os (OsSend (cs_socket s) (contents (cs_sendQ s) @ data) # srv_log srv) = 0 \<longrightarrow>
      (\<exists>srv'. RequestSendMsg os srv sid data (of_nat (length data)) = Inr srv' \<and>
         simulates t st i (cs_socket s) srv srv')) \<and>
    (ss_pc st t = PR_Consume (unat bytes) \<and> cs_sending s \<and> bytes \<noteq> 0 \<and> unat bytes \<le> length (contents (cs_sendQ s)) \<and>
      os (OsSend (cs_socket s) (drop (unat bytes) (contents (cs_sendQ s))) # srv_log srv) = 0 \<longrightarrow>
      (\<exists>srv'. ProcessSend os srv i bytes = Inr srv' \<and> simulates t st i (cs_socket s) srv srv'))"
  using RequestSendMsg_simulates [OF assms(1-4)] ProcessSend_simulates [OF assms(2-4)] by blast

theorem send_functions_follow_protocol_witness:
  "\<exists>srv'. RequestSendMsg happy_os (demo_server Centralized) 2 [4, 0, 1, 2] 4 = Inr srv' \<and>
    simulates 0 send_init 0 9 (demo_server Centralized) srv'"
proof -
  have "matches send_init (demo_session 9 2)" by (simp add: matches_def send_init_def)
  then show ?thesis
    using send_functions_follow_protocol [of "demo_server Centralized" 2 0 "demo_session 9 2" send_init 0 "[4, 0, 1, 2]" happy_os]
    by (simp add: send_init_def happy_os_def)
qed

end
