(* ===== verification/RoomView.thy ===== *)
theory RoomView
  imports ClientRoom
begin

text \<open>
  The lines of the client's room view: the rows that the nested loops of \<open>DisplayRoomView\<close>
  build are the boxes side by side.
\<close>

definition beside :: "string list list \<Rightarrow> nat \<Rightarrow> string" where
  "beside boxes i = concat (map (\<lambda>box. ''  '' @ box ! i) boxes)"

definition seat_box :: "RoomPlayer list \<Rightarrow> nat \<Rightarrow> string list" where
  "seat_box players i = player_box i (seat_label players i)"

lemma length_boxes [simp]:
  "length empty_box = 9" "length (player_box i l) = 11" "length my_screen = 22" "length (seat_box ps i) = 11"
  by (simp_all add: empty_box_def player_box_def my_screen_def seat_box_def)

lemma small_screens_eq: "small_screens ps = empty_box # map (seat_box ps) [1..<10]"
  by (simp add: small_screens_def seat_box_def)

lemma join_row_ok:
  assumes "\<forall>j \<in> set js \<union> {m}. j < length screens \<and> line < length (screens ! j)" "m \<notin> set js"
  shows "join_row screens line (js @ [m]) m = Inr (drop 2 (beside (map ((!) screens) (js @ [m])) line))"
  using assms
proof (induction js)
  case (Cons j js)
  have "beside (map ((!) screens) (js @ [m])) line = ''  '' @ drop 2 (beside (map ((!) screens) (js @ [m])) line)"
    by (cases js) (simp_all add: beside_def)
  then show ?case using Cons by (simp add: nth_res_def beside_def)
qed (simp add: nth_res_def beside_def)

lemma join_rows_ok:
  assumes "\<forall>j \<in> set js \<union> {m}. j < length screens \<and> n \<le> length (screens ! j)" "m \<notin> set js" "set ls \<subseteq> {..<n}"
  shows "join_rows screens ls (js @ [m]) m = Inr (map (\<lambda>i. drop 2 (beside (map ((!) screens) (js @ [m])) i)) ls)"
  using assms(3)
proof (induction ls)
  case (Cons i ls)
  have "join_row screens i (js @ [m]) m = Inr (drop 2 (beside (map ((!) screens) (js @ [m])) i))"
    using assms(1,2) Cons.prems by (intro join_row_ok) (auto intro: less_le_trans)
  then show ?case using Cons by simp
qed simp

text \<open>The two rows of five boxes.\<close>

lemma right_block_ok:
  "right_block (small_screens ps) = Inr
     (map (\<lambda>i. drop 2 (beside (empty_box # map (seat_box ps) [1..<5]) i)) [0..<9] @
      map (\<lambda>i. drop 2 (beside (map (seat_box ps) [5..<10]) i)) [0..<11])"
proof -
  let ?s = "small_screens ps"
  have s: "?s = [empty_box, seat_box ps 1, seat_box ps 2, seat_box ps 3, seat_box ps 4, seat_box ps 5, seat_box ps 6,
      seat_box ps 7, seat_box ps 8, seat_box ps 9]"
  proof -
    have "[1..<10] = [1, 2, 3, 4, 5, 6, 7, 8, 9]" by (simp add: upt_rec)
    then show ?thesis unfolding small_screens_eq by simp
  qed
  have top: "join_rows ?s [0..<9] ([0, 1, 2, 3] @ [4]) 4 =
      Inr (map (\<lambda>i. drop 2 (beside (map ((!) ?s) ([0, 1, 2, 3] @ [4])) i)) [0..<9])"
    by (rule join_rows_ok [where n = 9]) (auto simp: s)
  have bottom: "join_rows ?s [0..<11] ([5, 6, 7, 8] @ [9]) 9 =
      Inr (map (\<lambda>i. drop 2 (beside (map ((!) ?s) ([5, 6, 7, 8] @ [9])) i)) [0..<11])"
    by (rule join_rows_ok [where n = 11]) (auto simp: s)
  have idx: "[0..<5] = [0, 1, 2, 3] @ [4]" "[5..<10] = [5, 6, 7, 8] @ [9]" "[1..<5] = [1, 2, 3, 4]"
    by (simp_all add: upt_rec)
  have "right_block ?s = andThen (join_rows ?s [0..<9] [0..<5] 4) (\<lambda>top.
      andThen (join_rows ?s [0..<11] [5..<10] 9) (\<lambda>bottom. Inr (top @ bottom)))"
    by (simp add: right_block_def nth_res_def s)
  also have "\<dots> = Inr (map (\<lambda>i. drop 2 (beside (map ((!) ?s) ([0, 1, 2, 3] @ [4])) i)) [0..<9] @
      map (\<lambda>i. drop 2 (beside (map ((!) ?s) ([5, 6, 7, 8] @ [9])) i)) [0..<11])"
    unfolding idx top bottom by simp
  finally show ?thesis unfolding idx by (simp add: s)
qed

lemma beside_sep: "boxes \<noteq> [] \<Longrightarrow> ''  '' @ drop 2 (beside boxes i) = beside boxes i"
  by (cases boxes) (simp_all add: beside_def)

lemma DisplayRoomView_eq:
  "DisplayRoomView rm = Inr (DisplayRoomInfo rm,
     map (\<lambda>i. my_screen ! i @ beside (empty_box # map (seat_box (cr_players rm)) [1..<5]) i) [0..<9] @
     map (\<lambda>i. my_screen ! (9 + i) @ beside (map (seat_box (cr_players rm)) [5..<10]) i) [0..<11] @
     drop 20 my_screen, [''[1] Leave Room'', ''[0] Disconnect'', ''Select: ''])"
proof -
  let ?a = "\<lambda>i. drop 2 (beside (empty_box # map (seat_box (cr_players rm)) [1..<5]) i)"
  let ?b = "\<lambda>i. drop 2 (beside (map (seat_box (cr_players rm)) [5..<10]) i)"
  let ?right = "map ?a [0..<9] @ map ?b [0..<11]"
  have split: "[0..<22] = [0..<9] @ map ((+) 9) [0..<11] @ [20, 21]" by (simp add: upt_rec)
  have a: "''  '' @ ?a i = beside (empty_box # map (seat_box (cr_players rm)) [1..<5]) i" for i
    by (rule beside_sep) simp
  have b: "''  '' @ ?b i = beside (map (seat_box (cr_players rm)) [5..<10]) i" for i
    by (rule beside_sep) simp
  have 1: "view_line my_screen ?right i = my_screen ! i @ beside (empty_box # map (seat_box (cr_players rm)) [1..<5]) i"
    if "i < 9" for i
  proof -
    have "view_line my_screen ?right i = my_screen ! i @ ''  '' @ ?a i"
      using that by (simp add: view_line_def nth_append)
    also note a
    finally show ?thesis .
  qed
  have 2: "view_line my_screen ?right (9 + i) = my_screen ! (9 + i) @ beside (map (seat_box (cr_players rm)) [5..<10]) i"
    if "i < 11" for i
  proof -
    have "view_line my_screen ?right (9 + i) = my_screen ! (9 + i) @ ''  '' @ ?b i"
      using that by (simp add: view_line_def nth_append)
    also note b
    finally show ?thesis .
  qed
  have 3: "view_line my_screen ?right i = my_screen ! i" if "20 \<le> i" "i < 22" for i
    using that by (simp add: view_line_def)
  have lines: "map (view_line my_screen ?right) [0..<22] =
      map (\<lambda>i. my_screen ! i @ beside (empty_box # map (seat_box (cr_players rm)) [1..<5]) i) [0..<9] @
      map (\<lambda>i. my_screen ! (9 + i) @ beside (map (seat_box (cr_players rm)) [5..<10]) i) [0..<11] @
      [my_screen ! 20, my_screen ! 21]"
    unfolding split map_append map_map comp_def using 1 2 3 [of 20] 3 [of 21] by (auto intro!: map_cong)
  have last: "[my_screen ! 20, my_screen ! 21] = drop 20 my_screen" by (simp add: my_screen_def)
  have "DisplayRoomView rm = Inr (DisplayRoomInfo rm, map (view_line my_screen ?right) [0..<22],
      [''[1] Leave Room'', ''[0] Disconnect'', ''Select: ''])"
    by (simp add: DisplayRoomView_def right_block_ok)
  then show ?thesis unfolding lines last .
qed

end
