(* ===== verification/ClientProperties.thy ===== *)
theory ClientProperties
  imports GameProperties RoomView
begin

text \<open>
  The properties of the client and of both programs together, with their witnesses.
\<close>

section \<open>A concrete client\<close>

definition demo_client :: CGameInstance where
  "demo_client = (Initialize_client CGameInstance_new)\<lparr>gi_network := snd (Connect 0 5 0 (gi_network (Initialize_client CGameInstance_new)))\<rparr>"

lemma demo_client_simps [simp]:
  "receiving demo_client" "cn_connected (gi_network demo_client)" "cn_gameInstance (gi_network demo_client)"
  "cr_network (gi_room demo_client)" "cn_wire (gi_network demo_client) = []" "\<not> cr_inRoom (gi_room demo_client)"
  "gi_running demo_client" "gi_shown demo_client = []"
  by (simp_all add: demo_client_def Initialize_client_def CGameInstance_new_def CClientNetwork_new_def ClientRoom_new_def
      Connect_def cr_SetNetwork_def receiving_def INVALID_SOCKET_def Let_def)

section \<open>Requests\<close>

text \<open>
  C14: Requests reach the game server one by one.  Whatever sequence of requests the connected client
  program issues over a connection that takes all bytes, and however the stream is cut into
  pieces, the server's network layer queues exactly one RECEIVED event per request, with that
  session's id and the bytes of that request, in order, and nothing is left over.
\<close>

theorem requests_arrive:
  assumes "sends_all snd_os" "cn_connected (gi_network gi)" "cr_network (gi_room gi)" "cn_wire (gi_network gi) = []"
    and "length junk = 64"
    and "srv_ok srv" "srv_running srv" "srv_architectureType srv = Centralized"
    and "session_at srv i = Some s" "cs_valid s" "contents (cs_recvQ s) = []" "transfers_succeed os"
    and "concat pieces = cn_wire (gi_network (fold (issue snd_os junk) reqs gi))" "chunks_fit [] pieces"
  shows "\<exists>srv' s'. arrive_all os srv i pieces = Inr srv' \<and> session_at srv' i = Some s' \<and> cs_valid s' \<and>
    contents (cs_recvQ s') = [] \<and>
    srv_eventQueue srv' = srv_eventQueue srv @ map (\<lambda>req. received (cs_sessionId s) (request_msg junk req)) reqs"
proof -
  have "split_packets False (concat pieces) = (map (request_msg junk) reqs, [], False)"
    using split_requests [OF assms(5)] assms(13) issue_all_wire [OF assms(1-3), of junk reqs] assms(4) by simp
  then show ?thesis
    using arrive_all_parsed [OF assms(6-10,12), of pieces "map (request_msg junk) reqs" "[]"] assms(11,14)
    by (auto simp: split_short comp_def)
qed

theorem requests_arrive_witness:
  "\<exists>srv'. arrive_all happy_os (demo_server Centralized) 0 [[4, 0, 232], [3, 4, 0, 238, 3]] = Inr srv' \<and>
    srv_eventQueue srv' = [received 2 [4, 0, 232, 3], received 2 [4, 0, 238, 3]]"
proof -
  let ?send = "\<lambda>data. Some (length data)" and ?junk = "replicate 64 7"
  have all: "sends_all ?send" by (simp add: sends_all_def)
  have msgs: "request_msg ?junk ReqRoomList = [4, 0, 232, 3]" "request_msg ?junk ReqLeave = [4, 0, 238, 3]"
    by (simp_all add: room_list_request_def leave_request_def msg_header_def put16_def sizes)
  have "concat [[4, 0, 232], [3, 4, 0, 238, 3]] =
      cn_wire (gi_network (fold (issue ?send ?junk) [ReqRoomList, ReqLeave] demo_client))"
    unfolding issue_all_wire [OF all demo_client_simps(2,4)] by (simp add: msgs del: request_msg.simps)
  moreover have "chunks_fit [] [[4, 0, 232], [3, 4, 0, 238, 3]]"
    by (simp add: split_packets.simps packet_size_def join16_def)
  ultimately show ?thesis
    using requests_arrive [OF all demo_client_simps(2,4,5) _ demo_server_ok(2), of ?junk Centralized 0 "demo_session 9 2"
        happy_os "[[4, 0, 232], [3, 4, 0, 238, 3]]" "[ReqRoomList, ReqLeave]"] happy_os_ok(2)
    by (auto simp: msgs simp del: request_msg.simps)
qed

section \<open>Answers\<close>

text \<open>
  C15: The client understands every answer, but only the first of a piece.  When a received
  piece starts with a complete answer that fits the buffer, the client sets its room and shows
  what the answer says: the id that was created or joined, the rooms with their titles cut at 63
  characters, the error text.  Whatever follows in the same piece, further answers included, has
  no effect.
\<close>

theorem client_first_answer:
  assumes "receiving gi" "length junk = 256" "fits_client rooms a"
    and "length (answer_msg junk rooms a @ more_bytes) \<le> 4096"
  shows "RecvThread buf [answer_msg junk rooms a @ more_bytes] gi = Inr (client_after rooms a gi)"
  using RecvThread_step [OF assms] by simp

theorem client_first_answer_witness:
  "\<exists>gi. RecvThread (replicate 4096 0)
      [answer_msg (replicate 256 7) [] (AnsCreated (- 1) False) @ answer_msg (replicate 256 7) [] (AnsError [69])]
      demo_client = Inr gi \<and> gi_shown gi = [ShownCreated None]"
  using client_first_answer [OF demo_client_simps(1), of "replicate 256 7" "[]" "AnsCreated (- 1) False"
      "answer_msg (replicate 256 7) [] (AnsError [69])" "replicate 4096 0"]
  by (simp add: fits_client_def show_on_def)

text \<open>
  C8: Client and server agree on where the player is.  If they agree before a request (the
  client believes to be in room r exactly when the server has the player in r) then, after the
  server has handled the request and the client has received the answers one by one, they agree
  again; and any other client that agreed with the server still does.
\<close>

theorem exchange_keeps_agreement:
  fixes req :: request
  assumes "game_ok st" "GetPlayer st sid = Some p" "length junk = 256" "length cjunk = 64"
    and "sint (mgr_roomIdCounter (ct_rooms st)) < 2 ^ 31 - 1"
    and "receiving gi" "length (GetRoomList (ct_rooms st)) \<le> 53"
    and "agrees (gi_room gi) p (views (ct_rooms st))"
    and "q \<noteq> p" "agrees cr q (views (ct_rooms st))"
  defines "msgs \<equiv> map (answer_msg junk (map (live (ct_rooms st)) (GetRoomList (ct_rooms st))))
    (fst (serve req p (mgr_roomIdCounter (ct_rooms st), views (ct_rooms st))))"
  shows "\<exists>st' gi'. DispatchDataReceived os junk st sid (request_msg cjunk req) = Inr st' \<and>
    send_answers os sid msgs (ct_network st) = Inr (ct_network st') \<and>
    RecvThread buf msgs gi = Inr gi' \<and>
    agrees (gi_room gi') p (views (ct_rooms st')) \<and> agrees cr q (views (ct_rooms st'))"
proof -
  let ?rooms = "map (live (ct_rooms st)) (mgr_roomList (ct_rooms st))"
  obtain as i rs where serve: "serve req p (directory st) = (as, i, rs)" by (cases "serve req p (directory st)")
  have "served os junk sid st (serve req p (directory st)) (DispatchDataReceived os junk st sid (request_msg cjunk req))"
    by (rule dispatch_serves [OF assms(1-5)])
  then obtain m net where m: "send_answers os sid (map (answer_msg junk ?rooms) as) (ct_network st) = Inr net"
      "DispatchDataReceived os junk st sid (request_msg cjunk req) = Inr (st\<lparr>ct_rooms := m, ct_network := net\<rparr>)"
      "views m = rs"
    using serve by (auto simp: served_def answers_def)
  have "list_all (fits_client ?rooms) as"
    using assms(7) by (simp add: fits_client_def list_all_iff GetRoomList_def)
  note recv = RecvThread_answers [OF assms(6,3) this, of buf]
  have "\<forall>v \<in> set (views (ct_rooms st)). distinct (rv_players v)"
    using assms(1) mgr_okD(2) by (auto simp: game_ok_def views_def view_of_def room_ok_def)
  then have "agrees (gi_room (fold (client_after ?rooms) as gi)) p rs"
    using serve_agrees [OF assms(8) _ serve] by blast
  moreover have "agrees cr q rs" using serve_agrees_other [OF assms(10) _ serve] assms(9) by simp
  ultimately show ?thesis using m recv serve by (fastforce simp: msgs_def GetRoomList_def)
qed

theorem exchange_keeps_agreement_witness:
  "\<exists>st' gi'. DispatchDataReceived happy_os (replicate 256 7) (demo_game []) 2 (create_request (replicate 64 7) [72] 4) = Inr st' \<and>
    RecvThread (replicate 4096 0) [room_reply S2C_ROOM_CREATED 9 1 True] demo_client = Inr gi' \<and>
    agrees (gi_room gi') 0 (views (ct_rooms st'))"
proof -
  have "agrees (gi_room demo_client) p (views (ct_rooms (demo_game [])))" for p
    by (simp add: agrees_def in_some_room_def mgr_ok_new)
  moreover have "fst (serve (ReqCreate [72] 4) 0 (1, [])) = [AnsCreated 1 True]"
    by (simp add: wire_title_def in_some_room_def)
  moreover have no_rooms: "mgr_roomList CRoomManager_new = []" by (simp add: CRoomManager_new_def)
  ultimately show ?thesis
    using exchange_keeps_agreement [OF demo_game_ok, of "[]" 2 0 "replicate 256 7" "replicate 64 7" demo_client 1
        "gi_room demo_client" happy_os "ReqCreate [72] 4" "replicate 4096 0"]
    by (auto simp: GetRoomList_def no_rooms mgr_ok_new sizes simp del: serve.simps RecvThread.simps)
qed

section \<open>Room lists that do not get through\<close>

text \<open>
  C35: The limit of 53 rooms on the client.  A list of 54 to 851 rooms, which the server sends as
  one message, exceeds the receive buffer: the client reports a size mismatch and shows nothing.
  A message of type S2C_ROOM_LIST whose count is above 53 and whose size field does not exceed
  the received bytes makes the client read beyond its buffer.
\<close>

theorem client_list_limits:
  assumes "receiving gi" "length buf = 4096"
  shows "(53 < length rooms \<and> length rooms \<le> 851 \<longrightarrow>
      RecvThread buf [take 4096 (room_list_msg rooms)] gi = Inr (show_on ShownSizeMismatch gi)) \<and>
    (8 \<le> length piece \<and> length piece \<le> 4096 \<and> read16 piece 0 = Inr sz \<and> unat sz \<le> length piece \<and>
      read16 piece 2 = Inr (msg_code S2C_ROOM_LIST) \<and> read32 piece 4 = Inr count \<and> 53 < sint count \<longrightarrow>
      RecvThread buf (piece # pieces) gi = Inl OutOfBounds)"
proof (intro conjI impI)
  assume n: "53 < length rooms \<and> length rooms \<le> 851"
  then have len: "length (take 4096 (room_list_msg rooms)) = 4096" by (simp add: length_room_list_msg)
  then have ne: "take 4096 (room_list_msg rooms) \<noteq> []" by (metis list.size(3) zero_neq_numeral)
  have "HandleServerMessage gi (take 4096 (room_list_msg rooms) @ drop 4096 buf) 4096 = Inr (show_on ShownSizeMismatch gi)"
    using long_list_header [of rooms gi] n assms(1) by (simp add: receiving_def)
  then show "RecvThread buf [take 4096 (room_list_msg rooms)] gi = Inr (show_on ShownSizeMismatch gi)"
    using assms(1) len ne by (simp add: receiving_def Let_def del: take_eq_Nil take_eq_Nil2)
next
  let ?buf = "piece @ drop (length piece) buf"
  assume p: "8 \<le> length piece \<and> length piece \<le> 4096 \<and> read16 piece 0 = Inr sz \<and> unat sz \<le> length piece \<and>
      read16 piece 2 = Inr (msg_code S2C_ROOM_LIST) \<and> read32 piece 4 = Inr count \<and> 53 < sint count"
  then have reads: "read16 ?buf 0 = Inr sz" "read16 ?buf 2 = Inr (msg_code S2C_ROOM_LIST)" "read32 ?buf 4 = Inr count"
    by (auto simp: read16_def read32_def nth_append split: if_splits)
  have "OnRoomListReceived gi ?buf (length piece) = Inl OutOfBounds"
    using p assms(2) by (intro OnRoomListReceived_overrun [OF _ reads(3)]) auto
  then have "HandleServerMessage gi ?buf (length piece) = Inl OutOfBounds"
    using p reads(1,2) assms(1) by (simp add: HandleServerMessage_def receiving_def sizes del: msg_code.simps)
  moreover have "take 4096 piece = piece" "piece \<noteq> []" using p by auto
  ultimately show "RecvThread buf (piece # pieces) gi = Inl OutOfBounds"
    using assms(1) by (simp add: receiving_def Let_def)
qed

theorem client_list_limits_witness:
  "RecvThread (replicate 4096 0) [[8, 0, 233, 3, 54, 0, 0, 0]] demo_client = Inl OutOfBounds \<and>
   (\<exists>gi. RecvThread (replicate 4096 0)
      [take 4096 (room_list_msg (replicate 54 \<lparr>rm_roomId = 1, rm_title = [65], rm_currentPlayers = 1, rm_maxPlayers = 4,
         rm_status = WAITING, rm_owner = Some 0, rm_players = [0]\<rparr>))] demo_client = Inr gi \<and> gi_shown gi = [ShownSizeMismatch])"
  using client_list_limits [OF demo_client_simps(1), of "replicate 4096 0"
      "replicate 54 \<lparr>rm_roomId = 1, rm_title = [65], rm_currentPlayers = 1, rm_maxPlayers = 4,
         rm_status = WAITING, rm_owner = Some 0, rm_players = [0]\<rparr>" "[8, 0, 233, 3, 54, 0, 0, 0]" 8 54 "[]"]
  by (simp add: read16_def read32_def join16_def join32_def show_on_def del: RecvThread.simps)

text \<open>
  C36: More than 851 rooms lock clients out.  The list of 852 or more rooms exceeds the send queue
  of 65535 bytes, so that answering a request for it (and likewise greeting a new connection)
  disconnects the session instead.
\<close>

theorem room_list_disconnects:
  assumes "deref_rooms (ct_rooms st) (GetRoomList (ct_rooms st)) = Inr rooms" "851 < length rooms" "length rooms < 2 ^ 24"
    and "p < length (ct_store st)" "FindSession (ct_network st) (pl_sessionId (ct_store st ! p)) = Some i"
    and "session_at (ct_network st) i = Some s" "session_ok s" "cs_valid s"
  shows "\<exists>st' s'. HandleRequestRoomList os st p = Inr st' \<and> session_at (ct_network st') i = Some s' \<and> \<not> cs_valid s' \<and>
    cs_socket s' = INVALID_SOCKET \<and> srv_eventQueue (ct_network st') =
      srv_eventQueue (ct_network st) @ (if srv_architectureType (ct_network st) = Centralized then [gone (cs_sessionId s)] else [])"
proof -
  have "HandleRequestRoomList os st p = Inr (st\<lparr>ct_network := disconnected (ct_network st) i s\<rparr>)"
    using SendRoomList_too_long [OF assms] by (simp add: HandleRequestRoomList_def)
  moreover have "i < length (srv_sessions (ct_network st))" using assms(6) by (rule session_at_Some_less)
  ultimately show ?thesis by (simp add: disconnected_def Let_def closed_session_def gone_def)
qed

lemma deref_all: "\<forall>r \<in> set rs. r < length (mgr_store m) \<Longrightarrow> deref_rooms m rs = Inr (map (live m) rs)"
  by (induction rs) (simp_all add: room_at_def live_def)

theorem room_list_disconnects_witness:
  "let room_of = \<lambda>i. \<lparr>rm_roomId = of_nat (i + 1), rm_title = [65], rm_currentPlayers = 0, rm_maxPlayers = 4,
       rm_status = WAITING, rm_owner = None, rm_players = []\<rparr>;
     rooms = \<lparr>mgr_store = map room_of [0..<852], mgr_roomIdCounter = 853, mgr_roomList = rev [0..<852],
       mgr_roomMap = map (\<lambda>i. (of_nat (i + 1), i)) [0..<852], mgr_playerToRoomMap = []\<rparr>
   in \<exists>st'. HandleRequestRoomList happy_os ((demo_game [])\<lparr>ct_rooms := rooms\<rparr>) 0 = Inr st' \<and>
     srv_eventQueue (ct_network st') = [gone 2]"
proof -
  let ?room = "\<lambda>i. \<lparr>rm_roomId = of_nat (i + 1), rm_title = [65], rm_currentPlayers = 0, rm_maxPlayers = 4,
       rm_status = WAITING, rm_owner = None, rm_players = []\<rparr>"
  let ?m = "\<lparr>mgr_store = map ?room [0..<852], mgr_roomIdCounter = 853, mgr_roomList = rev [0..<852],
       mgr_roomMap = map (\<lambda>i. (of_nat (i + 1), i)) [0..<852], mgr_playerToRoomMap = []\<rparr>"
  let ?st = "(demo_game [])\<lparr>ct_rooms := ?m\<rparr>"
  have d: "deref_rooms (ct_rooms ?st) (GetRoomList (ct_rooms ?st)) = Inr (map (live ?m) (rev [0..<852]))"
    using deref_all [of "rev [0..<852]" ?m] by (simp add: GetRoomList_def)
  have st: "0 < length (ct_store ?st)" "pl_sessionId (ct_store ?st ! 0) = 2"
    "FindSession (ct_network ?st) 2 = Some 0" "session_at (ct_network ?st) 0 = Some (demo_session 9 2)"
    "srv_architectureType (ct_network ?st) = Centralized"
    by (simp_all add: demo_game_def CPlayer_new_def FindSession_Some session_at_def demo_server_def)
  show ?thesis
    using room_list_disconnects [OF d, of 0 0 "demo_session 9 2" happy_os] st by (auto simp: Let_def)
qed

section \<open>Screens and menus\<close>

text \<open>
  C40: The room view is total and cuts the upper row of boxes.  For every list of players the view
  is built without an access outside of a vector and has 22 lines.  The first nine show the
  player's screen beside the empty box and the boxes of players 1 to 4, of which only the first
  nine of eleven lines appear, without the bottom border; the next eleven show the boxes 5 to 9
  in full, a seat marked as waiting exactly when its player is present.
\<close>

theorem room_view_lines:
  "\<exists>view. DisplayRoomView rm = Inr (DisplayRoomInfo rm, view, [''[1] Leave Room'', ''[0] Disconnect'', ''Select: '']) \<and>
    length view = 22 \<and>
    take 9 view = map (\<lambda>i. my_screen ! i @ beside (empty_box # map (seat_box (cr_players rm)) [1..<5]) i) [0..<9] \<and>
    take 11 (drop 9 view) = map (\<lambda>i. my_screen ! (9 + i) @ beside (map (seat_box (cr_players rm)) [5..<10]) i) [0..<11] \<and>
    drop 20 view = drop 20 my_screen \<and> length (seat_box (cr_players rm) i) = 11"
proof (intro exI conjI)
  show "DisplayRoomView rm = Inr (DisplayRoomInfo rm,
     map (\<lambda>i. my_screen ! i @ beside (empty_box # map (seat_box (cr_players rm)) [1..<5]) i) [0..<9] @
     map (\<lambda>i. my_screen ! (9 + i) @ beside (map (seat_box (cr_players rm)) [5..<10]) i) [0..<11] @
     drop 20 my_screen, [''[1] Leave Room'', ''[0] Disconnect'', ''Select: ''])"
    by (rule DisplayRoomView_eq)
qed simp_all

text \<open>
  The main menu.  Up and down arrows move the selection cyclically over the three entries and
  Enter returns its number, leaving the keys behind it unread; for every sequence of keys, what
  is returned is 1, 2 or 3.
\<close>

lemma menu_arrows:
  "0 \<le> i \<Longrightarrow> i < 3 \<Longrightarrow>
   ShowMainMenuWithSelection i (concat (map (\<lambda>up. [224, if up then 72 else 80]) moves) @ 13 # rest) =
     Some (1 + (i + int (length (filter Not moves)) - int (length (filter id moves))) mod 3, rest)"
proof (induction moves arbitrary: i)
  case (Cons up moves)
  have turn: "((i - 1 + 3) mod 3 + d - u) mod 3 = (i + d - (u + 1)) mod 3" "((i + 1) mod 3 + d - u) mod 3 = (i + (d + 1) - u) mod 3"
    for d u :: int by presburger+
  show ?case
    using Cons.IH [of "(i - 1 + 3) mod 3"] Cons.IH [of "(i + 1) mod 3"] turn [of "int (length (filter Not moves))"]
    by (cases up) (simp_all add: algebra_simps)
qed simp

lemma menu_range:
  "0 \<le> i \<Longrightarrow> i < 3 \<Longrightarrow> ShowMainMenuWithSelection i keys = Some (k, rest) \<Longrightarrow> 1 \<le> k \<and> k \<le> 3"
proof (induction i keys rule: ShowMainMenuWithSelection.induct)
  case (2 i key keys)
  then show ?case by (auto split: if_splits list.splits)
qed simp

theorem main_menu:
  "ShowMainMenuWithSelection 0 (concat (map (\<lambda>up. [224, if up then 72 else 80]) moves) @ 13 # rest) =
     Some (1 + (int (length (filter Not moves)) - int (length (filter id moves))) mod 3, rest) \<and>
   (case ShowMainMenuWithSelection 0 keys of None \<Rightarrow> True | Some (k, _) \<Rightarrow> k \<in> {1, 2, 3})"
  using menu_arrows [of 0 moves rest] menu_range [of 0 keys] by (auto split: option.splits)

end
