(* ===== verification/MessageLayout.thy ===== *)
theory MessageLayout
  imports CentralizedServer GameInstance
begin

text \<open>
  The structs of \<open>Protocol.h\<close> as they are declared, under \<open>#pragma pack(1)\<close>: members in order, without
  padding.  Sizes and offsets are computed from the declarations; the property compares them with
  the messages both programs build and with the positions where they read.
\<close>

section \<open>Packed structs\<close>

datatype member_type =
    UInt8
  | UInt16
  | Int32
  | CharArray nat
  | Struct "(string \<times> member_type) list"

fun size_of :: "member_type \<Rightarrow> nat" where
  "size_of UInt8 = 1"
| "size_of UInt16 = 2"
| "size_of Int32 = 4"
| "size_of (CharArray n) = n"
| "size_of (Struct ms) = sum_list (map (\<lambda>m. size_of (snd m)) ms)"

text \<open>Where a member starts, and its type.\<close>

fun find_member :: "nat \<Rightarrow> string \<Rightarrow> (string \<times> member_type) list \<Rightarrow> (nat \<times> member_type) option" where
  "find_member off n [] = None"
| "find_member off n ((m, t) # ms) = (if m = n then Some (off, t) else find_member (off + size_of t) n ms)"

fun member_of :: "member_type \<Rightarrow> string \<Rightarrow> (nat \<times> member_type) option" where
  "member_of (Struct ms) n = find_member 0 n ms"
| "member_of _ n = None"

definition offset_of :: "member_type \<Rightarrow> string \<Rightarrow> nat option" where
  "offset_of t n = map_option fst (member_of t n)"

text \<open>The bytes of a member in the image of a struct.\<close>

definition member_bytes :: "member_type \<Rightarrow> string \<Rightarrow> byte list \<Rightarrow> byte list option" where
  "member_bytes t n bs = map_option (\<lambda>(off, m). take (size_of m) (drop off bs)) (member_of t n)"

section \<open>The declarations\<close>

text \<open>\<open>MsgHeader\<close> of the client; \<open>type\<close> has the underlying type \<open>uint16_t\<close>.\<close>

definition MsgHeader :: member_type where
  "MsgHeader = Struct [(''size'', UInt16), (''type'', UInt16)]"

text \<open>\<open>MsgHeader\<close> of the server, where \<open>type\<close> is commented out.\<close>

definition server_MsgHeader :: member_type where
  "server_MsgHeader = Struct [(''size'', UInt16)]"

definition RoomInfo :: member_type where
  "RoomInfo = Struct [(''roomId'', Int32), (''title'', CharArray 64), (''currentPlayers'', Int32),
     (''maxPlayers'', Int32), (''status'', UInt8)]"

text \<open>The messages are the same in both files but for the header \<open>h\<close>.\<close>

definition MSG_S2C_ROOM_LIST :: "member_type \<Rightarrow> member_type" where
  "MSG_S2C_ROOM_LIST h = Struct [(''header'', h), (''roomCount'', Int32)]"

definition MSG_C2S_CREATE_ROOM :: "member_type \<Rightarrow> member_type" where
  "MSG_C2S_CREATE_ROOM h = Struct [(''header'', h), (''title'', CharArray 64), (''maxPlayers'', Int32)]"

definition MSG_S2C_ROOM_CREATED :: "member_type \<Rightarrow> member_type" where
  "MSG_S2C_ROOM_CREATED h = Struct [(''header'', h), (''roomId'', Int32), (''success'', UInt8)]"

definition MSG_C2S_JOIN_ROOM :: "member_type \<Rightarrow> member_type" where
  "MSG_C2S_JOIN_ROOM h = Struct [(''header'', h), (''roomId'', Int32)]"

definition MSG_S2C_ROOM_JOINED :: "member_type \<Rightarrow> member_type" where
  "MSG_S2C_ROOM_JOINED h = Struct [(''header'', h), (''roomId'', Int32), (''success'', UInt8)]"

definition MSG_C2S_LEAVE_ROOM :: "member_type \<Rightarrow> member_type" where
  "MSG_C2S_LEAVE_ROOM h = Struct [(''header'', h)]"

definition MSG_S2C_ROOM_LEFT :: "member_type \<Rightarrow> member_type" where
  "MSG_S2C_ROOM_LEFT h = Struct [(''header'', h), (''success'', UInt8)]"

definition MSG_S2C_ERROR :: "member_type \<Rightarrow> member_type" where
  "MSG_S2C_ERROR h = Struct [(''header'', h), (''message'', CharArray 256)]"

lemmas struct_defs = MsgHeader_def server_MsgHeader_def RoomInfo_def MSG_S2C_ROOM_LIST_def MSG_C2S_CREATE_ROOM_def
  MSG_S2C_ROOM_CREATED_def MSG_C2S_JOIN_ROOM_def MSG_S2C_ROOM_JOINED_def MSG_C2S_LEAVE_ROOM_def
  MSG_S2C_ROOM_LEFT_def MSG_S2C_ERROR_def

section \<open>Images\<close>

text \<open>
  A message has the layout of a struct when its length is the size of the struct and the listed
  members hold the listed bytes.
\<close>

definition laid_out :: "member_type \<Rightarrow> (string \<times> byte list) list \<Rightarrow> byte list \<Rightarrow> bool" where
  "laid_out t vals bs \<longleftrightarrow> length bs = size_of t \<and> list_all (\<lambda>(n, v). member_bytes t n bs = Some v) vals"

lemma message_sizes [simp]:
  "size_of MsgHeader = 4" "size_of server_MsgHeader = 2" "size_of RoomInfo = 77"
  by (simp_all add: struct_defs)

lemmas layout_simps = laid_out_def member_bytes_def offset_of_def struct_defs

lemma length_status_image [simp]: "length (room_info rm) = 77"
  by (simp add: room_info_def)

section \<open>Both programs use the declared layout\<close>

text \<open>
  C27: The messages have the layout of the structs.  Every message that the server or the client
  builds has the size of its struct as the client's Protocol.h declares it, with the size and the
  type in the header and each argument in the bytes of its member; sizeof and the offsets at
  which both sides read are those of the declaration.  With the header of the server's
  Protocol.h, which lacks the type, all messages would be two bytes shorter.
\<close>

theorem message_layout:
  assumes "length title_array = 64" "length message_array = 256"
  shows "laid_out MsgHeader [(''size'', put16 4), (''type'', put16 1000)] room_list_request \<and>
    laid_out (MSG_C2S_CREATE_ROOM MsgHeader) [(''header'', msg_header 72 C2S_CREATE_ROOM),
      (''title'', fill_text title_array title), (''maxPlayers'', put32 players)] (create_request title_array title players) \<and>
    laid_out (MSG_C2S_JOIN_ROOM MsgHeader) [(''header'', msg_header 8 C2S_JOIN_ROOM), (''roomId'', put32 roomId)]
      (join_request roomId) \<and>
    laid_out (MSG_C2S_LEAVE_ROOM MsgHeader) [(''header'', msg_header 4 C2S_LEAVE_ROOM)] leave_request \<and>
    laid_out (MSG_S2C_ROOM_LIST MsgHeader) [(''roomCount'', put32 (of_nat (length rooms)))] (take 8 (room_list_msg rooms)) \<and>
    laid_out RoomInfo [(''roomId'', put32 (rm_roomId rm)), (''title'', fill_text (replicate 64 0) (rm_title rm)),
      (''currentPlayers'', put32 (rm_currentPlayers rm)), (''maxPlayers'', put32 (rm_maxPlayers rm)),
      (''status'', [status_byte (rm_status rm)])] (room_info rm) \<and>
    laid_out (MSG_S2C_ROOM_CREATED MsgHeader) [(''header'', msg_header 9 S2C_ROOM_CREATED), (''roomId'', put32 roomId),
      (''success'', [if b then 1 else 0])] (room_reply S2C_ROOM_CREATED sizeof_S2C_ROOM_CREATED roomId b) \<and>
    laid_out (MSG_S2C_ROOM_JOINED MsgHeader) [(''header'', msg_header 9 S2C_ROOM_JOINED), (''roomId'', put32 roomId),
      (''success'', [if b then 1 else 0])] (room_reply S2C_ROOM_JOINED sizeof_S2C_ROOM_JOINED roomId b) \<and>
    laid_out (MSG_S2C_ROOM_LEFT MsgHeader) [(''header'', msg_header 5 S2C_ROOM_LEFT), (''success'', [if b then 1 else 0])]
      (room_left_msg b) \<and>
    laid_out (MSG_S2C_ERROR MsgHeader) [(''header'', msg_header 260 S2C_ERROR), (''message'', fill_text message_array text)]
      (error_msg message_array text) \<and>
    map size_of [MsgHeader, RoomInfo, MSG_S2C_ROOM_LIST MsgHeader, MSG_C2S_CREATE_ROOM MsgHeader,
        MSG_S2C_ROOM_CREATED MsgHeader, MSG_C2S_JOIN_ROOM MsgHeader, MSG_S2C_ROOM_JOINED MsgHeader,
        MSG_C2S_LEAVE_ROOM MsgHeader, MSG_S2C_ROOM_LEFT MsgHeader, MSG_S2C_ERROR MsgHeader] =
      [sizeof_TypedHeader, sizeof_RoomInfo, sizeof_S2C_ROOM_LIST, sizeof_C2S_CREATE_ROOM, sizeof_S2C_ROOM_CREATED,
       sizeof_C2S_JOIN_ROOM, sizeof_S2C_ROOM_JOINED, sizeof_C2S_LEAVE_ROOM, sizeof_S2C_ROOM_LEFT, sizeof_S2C_ERROR] \<and>
    offset_of (MSG_C2S_CREATE_ROOM MsgHeader) ''title'' = Some 4 \<and>
    offset_of (MSG_C2S_CREATE_ROOM MsgHeader) ''maxPlayers'' = Some 68 \<and>
    offset_of (MSG_C2S_JOIN_ROOM MsgHeader) ''roomId'' = Some 4 \<and> offset_of (MSG_S2C_ROOM_LIST MsgHeader) ''roomCount'' = Some 4 \<and>
    size_of server_MsgHeader = sizeof_MsgHeader \<and>
    (\<forall>m \<in> {MSG_S2C_ROOM_LIST, MSG_C2S_CREATE_ROOM, MSG_S2C_ROOM_CREATED, MSG_C2S_JOIN_ROOM, MSG_S2C_ROOM_JOINED,
        MSG_C2S_LEAVE_ROOM, MSG_S2C_ROOM_LEFT, MSG_S2C_ERROR}.
      size_of (m server_MsgHeader) + 2 = size_of (m MsgHeader))"
proof (intro conjI)
  show "laid_out (MSG_C2S_CREATE_ROOM MsgHeader) [(''header'', msg_header 72 C2S_CREATE_ROOM),
      (''title'', fill_text title_array title), (''maxPlayers'', put32 players)] (create_request title_array title players)"
  proof -
    have "title_array \<noteq> []" using assms(1) by auto
    then show ?thesis using assms(1) by (simp add: layout_simps create_request_def sizes)
  qed
  show "laid_out (MSG_S2C_ERROR MsgHeader) [(''header'', msg_header 260 S2C_ERROR), (''message'', fill_text message_array text)]
      (error_msg message_array text)"
  proof -
    have "message_array \<noteq> []" using assms(2) by auto
    then show ?thesis using assms(2) by (simp add: layout_simps error_msg_def sizes)
  qed
qed (simp_all add: layout_simps sizes room_list_request_def join_request_def leave_request_def room_list_msg_def
    room_info_def room_reply_def room_left_msg_def msg_header_def sizeof_MsgHeader_def)

theorem message_layout_witness:
  "laid_out (MSG_C2S_CREATE_ROOM MsgHeader) [(''header'', msg_header 72 C2S_CREATE_ROOM),
    (''title'', fill_text (replicate 64 7) [65]), (''maxPlayers'', put32 4)] (create_request (replicate 64 7) [65] 4)"
  using message_layout [of "replicate 64 7" "replicate 256 0" "[65]" 4] by simp

end
