(* ===== verification/EntryPoints.thy ===== *)
theory EntryPoints
  imports ServerStart GameInstance
begin

text \<open>
  The \<open>main\<close> functions of both programs (\<open>MO_MiniGames_Server/main.cpp\<close>,
  \<open>MO_MiniGames_Client/mainClient.cpp\<close>).
\<close>

text \<open>
  The server's \<open>main\<close> ignores the result of \<open>Start\<close> and waits until the flag \<open>running\<close> of the process is
  false; the argument is its value when \<open>main\<close> waits, and \<open>None\<close> says that it waits for ever.  In this
  program only \<open>~CIOCPServer\<close> clears the flag, and the only server is destroyed after the wait, at the
  end of \<open>main\<close>.
\<close>

definition server_main ::
  "(size_t \<Rightarrow> byte list option) \<Rightarrow> os \<Rightarrow> bool \<Rightarrow> (bool \<times> os_call list) res option" where
  "server_main alloc os running =
     (case Start alloc os (CIOCPServer_new 1000 EchoTest) of
        Inl f \<Rightarrow> Some (Inl f)
      | Inr (_, srv) \<Rightarrow>
          if running then None
          else Some (andThen (Disconnect srv) (\<lambda>srv. CIOCPServer_destroy srv running)))"

text \<open>So \<open>main\<close> waits for ever, whatever \<open>Start\<close> has returned.\<close>

lemma server_main_waits: "server_main alloc os True = None"
proof -
  obtain s0 where "CSession_new alloc = Inr s0" using CSession_new_total by blast
  then obtain srv where "Start alloc os (CIOCPServer_new 1000 EchoTest) = Inr (fst (start_outcome os), srv)"
    using Start_new [of 1000 1000 alloc s0 os EchoTest] by auto
  then show ?thesis by (simp add: server_main_def)
qed

text \<open>\<open>Initialize\<close> always succeeds.\<close>

definition client_main ::
  "int list \<Rightarrow> int option option \<Rightarrow> int32_t \<Rightarrow> SOCKET \<Rightarrow> int32_t \<Rightarrow> send_fun \<Rightarrow> byte list \<Rightarrow> menu_input list \<Rightarrow>
   CGameInstance res option" where
  "client_main keys port startup sock conn snd_os junk inps =
     map_option (\<lambda>r. andThen r (\<lambda>gi. Inr (Shutdown gi)))
       (Run keys port startup sock conn snd_os junk inps (Initialize_client CGameInstance_new))"

end
