(* ===== verification/Spec2Isabelle.thy ===== *)
theory Spec2Isabelle
  imports SystemProperties DisconnectSteps ServerProperties SendProperties ClientProperties MessageLayout EntryPoints
begin

text \<open>
  A model of MO\_MiniGames, a game server on Windows I/O completion ports and its console client
  (C++, \<open>src/MO_MiniGames_Server\<close> and \<open>src/MO_MiniGames_Client\<close>), with the theorems that make it
  correct.

  \<^bold>\<open>The program.\<close>  \<open>CIOCPServer\<close> accepts connections into a table of sessions.  Each session has
  two ring buffers; the kernel writes into one and reads from the other directly.  Worker
  threads take completions, cut the received stream into packets and either echo them or hand
  them, as events, to \<open>CCentralizedServer\<close>.  Its game thread keeps players and rooms
  (\<open>CRoomManager\<close>, \<open>CRoom\<close>) and answers through \<open>RequestSendMsg\<close>.  The client sends requests chosen
  from menus, and a receive thread hands the answers to \<open>CGameInstance\<close> and its \<open>CRoom\<close>.

  \<^bold>\<open>Conventions.\<close>  A value of type \<open>'a res\<close> is \<open>Inr\<close> of a result or \<open>Inl\<close> of a fault: undefined
  behaviour, a self-deadlock, or an exception nobody catches.  Machine integers are words of
  their width; objects reached through \<open>shared_ptr\<close> or \<open>CSession*\<close> are indices into a store;
  \<open>unordered_map\<close>s, whose order is never observed, are association lists.  The operating system
  is a parameter: a function from the log of the calls so far to the result of the latest, or,
  on the client, the results themselves.  Bytes of uninitialised arrays are a parameter
  (\<open>junk\<close>).

  \<^bold>\<open>Theories and code.\<close>
  \<^item> \<open>Prelude\<close>, \<open>Codec\<close>: faults, sequencing, \<open>memcpy\<close>; little-endian integers and C strings.
  \<^item> \<open>RingArray\<close>, \<open>RingBuffer\<close>: \<open>RingBuffer.h\<close>, both lock policies.  \<open>ByteFifo\<close> is the contract of a
    byte queue, a locale that \<open>RingBuffer\<close> interprets.  \<open>LockedRing\<close>: the class
    \<open>CRingBufferT<MutexLock>\<close> again, statement by statement, for any number of threads.
  \<^item> \<open>SessionId\<close>, \<open>IOCPServer\<close>, \<open>IOCPTransfer\<close>, \<open>IOCPLifecycle\<close>: \<open>IOCPServer.h\<close> and \<open>IOCPServer.cpp\<close>,
    in the order data, lookup and disconnection; sending, receiving, packet extraction and the
    worker thread; start, accept, shutdown and destruction.
  \<^item> \<open>SendProtocol\<close>: the same three send functions as steps of any number of threads.
    \<open>DisconnectSteps\<close>: \<open>DisconnectSessionInternal\<close> and the loop of \<open>AcceptThread\<close>, statement by statement.
  \<^item> \<open>Room\<close>, \<open>RoomManager\<close>: \<open>Player\<close>, \<open>Room\<close> and \<open>RoomManager\<close> of the server.  \<open>RoomDirectory\<close> is the
    contract of a directory of rooms, a locale that \<open>RoomManager\<close> interprets.
  \<^item> \<open>Protocol\<close>, \<open>MessageLayout\<close>, \<open>CentralizedServer\<close>: the messages as bytes, the structs of
    \<open>Protocol.h\<close> as declared, and \<open>CentralizedServer.cpp\<close>.  \<open>GameTurn\<close>: its handlers again, cut at the
    calls of \<open>RequestSendMsg\<close>.
  \<^item> \<open>ClientRoom\<close>, \<open>GameInstance\<close>: the client's \<open>Room.cpp\<close>, \<open>ClientNetwork.cpp\<close> and
    \<open>GameInstance.cpp\<close>.  \<open>EntryPoints\<close>: both \<open>main\<close> functions.

  \<^bold>\<open>What the lemmas show.\<close>
  \<^item> Ring buffer: every operation keeps the invariant, releases the mutex on every path, and acts
    on the queued bytes as a first-in first-out queue; direct access by the kernel is
    equivalent to \<open>Enqueue\<close>, and the send buffers are exactly the queued bytes.
  \<^item> \<open>LockedRing\<close>, \<open>RingInFlight\<close>: for every interleaving of the statements of concurrent calls, the
    rest of the call that holds the mutex leads to the sequential result, so the calls are atomic;
    bytes that the kernel is sending stay where they are while others enqueue.
  \<^item> \<open>SessionReuse\<close>: the next session of a slot, and what a late completion of the previous one does
    to it.
  \<^item> \<open>TransferSpec\<close>, \<open>Framing\<close>: sending and receiving in closed form; packet extraction computes a
    pure function on the stream, ends, and does not depend on how the stream is cut.
  \<^item> \<open>SessionStep\<close>: the locales \<open>send_effect\<close> and \<open>session_effect\<close>, the contract of an effect on the
    server that the elementary changes of the state have and that composes; the functions for
    sending and receiving and the worker thread then have it.  \<open>SessionPool\<close>, \<open>Reports\<close> and
    \<open>GameLogic\<close> interpret them, for the pool, for the reported events and for the backlog.
  \<^item> \<open>SessionPool\<close>, \<open>ServerStart\<close>: in every state reachable from a successful start each slot is
    free, waiting for release, or in use; ids that have been retired are never found again;
    no operating system behaviour makes a worker fault.
  \<^item> \<open>SendProtocol\<close>, \<open>SendSimulation\<close>: an inductive invariant of all interleavings (one outstanding
    send, stable buffers, order kept), wait-freedom, that everything is sent but for a lost wake-up, and that
    the sequential functions are runs of one thread.
  \<^item> \<open>DisconnectSteps\<close>: run alone, the statements have the effect of the functions; interleaved, they race
    on the stack of ended sessions, and a disconnection can report the next client of its slot.
  \<^item> \<open>GameLogic\<close>: the invariant of players, rooms and network, kept by every dispatch; the event
    loop ends; the game thread acts on the network by sending to players only.  \<open>Lobby\<close>: an
    abstract room service (\<open>serve\<close>) that the dispatch of the server refines.  \<open>GameTurn\<close>: a handler is
    its work on players and rooms and then its messages (\<open>turn_event_finish\<close>).
  \<^item> \<open>Reports\<close>, \<open>RunningServer\<close>: the whole server, with the steps of the accept thread, the workers and
    the game thread in any order, between the messages of the game thread too.  Sessions open and
    close only together with the event that says so; the network in it runs as \<open>SessionPool\<close> has it;
    the registered players, brought up to date with the queued events, are the open sessions; no
    step faults but one.
  \<^item> \<open>ClientAnswers\<close>, \<open>Transport\<close>, \<open>RoomView\<close>: what the client makes of each answer, the agreement of
    both sides on where a player is, requests on the wire, lists that do not get through, and
    the lines of the room view.
  \<^item> \<open>RingProperties\<close>, \<open>ServerProperties\<close>, \<open>SendProperties\<close>, \<open>GameProperties\<close>, \<open>SystemProperties\<close>,
    \<open>ClientProperties\<close>: the properties C1 to C40 with their witnesses, on the concrete server of \<open>Demo\<close> and the concrete
    game and client of these theories.

  \<^bold>\<open>Bounds and fuel.\<close>  \<open>loop_fuel\<close> is enough for every run of the two loops of \<open>Start\<close> that ends
  (\<open>loops_diverge\<close> is the other case).  \<open>ParsePackets\<close> gets one turn more than there are bytes
  queued, since every turn that goes on consumes two.  \<open>event_fuel\<close> is one more than the events
  queued plus two for every open connection, since an answer that fails queues one
  disconnection and closes a connection.  Queues hold at most 65535 bytes; room ids are proved
  unique up to 2147483646 rooms.

  \<^bold>\<open>Not modelled.\<close>  \<open>Tetris\<close> is an empty class.  Creation and
  joining of threads, sleeping, socket addresses, console set-up, fixed texts and column formats
  have no effect on the state; the memory that \<open>~CRingBufferT\<close> frees is not tracked.
  Interleavings are modelled for the send path, inside the locked ring, for disconnection and
  accepting (\<open>DisconnectSteps\<close>), and for the game thread at
  each of its calls into the network (its players and rooms are its own).  The properties of the server as a whole
  (C2, C3, C7, C13, C16, C25) take every other operation on the network as one step, in any order, and assume
  that every binding to the completion port succeeds.  C39 shows that C2 and C7 need the bindings to
  succeed, \<open>DisconnectSteps\<close> that C2 and C3 need turns that do not overlap.  The header of messages
  has the \<open>type\<close> member that both programs use; the server's \<open>Protocol.h\<close> has it commented out.
\<close>

end
